(* ===== verification/Prelude.thy ===== *)
theory Prelude
  imports
    Main
    "HOL-Library.Word"
    "HOL-Library.Sublist"
    "HOL-Library.Char_ord"
begin

text \<open>
  Shared vocabulary of the development: the types that stand for Rust's primitive types, the part
  of the Rust standard library the crate uses (string operations, integer parsing and printing,
  saturating and checked arithmetic, \<^verbatim>\<open>std::io::Error\<close>), a small result monad over a state, and the
  generic lemmas the component theories rest on.

  A Rust \<^verbatim>\<open>str\<close> is its sequence of UTF-8 bytes, so a string is a \<^typ>\<open>char list\<close> whose characters
  are bytes (0 to 255), \<^verbatim>\<open>len()\<close> is \<^term>\<open>length\<close> and \<^verbatim>\<open>as_bytes()\<close> is the identity.  Machine
  integers are words of the width the source gives them; \<^verbatim>\<open>usize\<close> is 64 bits wide.
\<close>

named_theorems str_simps \<open>rewriting of the modelled string operations\<close>
named_theorems word_sat \<open>the value of saturating and checked word arithmetic\<close>
named_theorems io_simps \<open>unfolding of the result monad\<close>

type_synonym byte = char
type_synonym bytes = "byte list"
type_synonym u8 = "8 word"
type_synonym u16 = "16 word"
type_synonym u32 = "32 word"
type_synonym u64 = "64 word"
type_synonym usize = "64 word"

section \<open>Errors and results\<close>

text \<open>\<^verbatim>\<open>std::io::ErrorKind\<close>, with the kinds the crate creates or inspects; every other kind is \<open>OtherKind\<close>.\<close>

datatype error_kind =
    NotFound
  | AlreadyExists
  | WouldBlock
  | InvalidInput
  | InvalidData
  | Interrupted
  | UnexpectedEof
  | Other
  | OtherKind nat

datatype io_error = IoError (kind: error_kind) (message: string)

type_synonym 'a io_result = "io_error + 'a"

text \<open>
  A fallible operation on a state: it returns an error or a value and the new state.  \<open>io_bind\<close> is
  Rust's \<^verbatim>\<open>?\<close> operator: on an error the rest of the body is skipped and the state stays as it is.
\<close>

type_synonym ('s, 'a) io = "'s \<Rightarrow> 'a io_result \<times> 's"

definition io_return :: "'a \<Rightarrow> ('s, 'a) io" where
  "io_return x = (\<lambda>s. (Inr x, s))"

definition io_fail :: "io_error \<Rightarrow> ('s, 'a) io" where
  "io_fail e = (\<lambda>s. (Inl e, s))"

definition io_bind :: "('s, 'a) io \<Rightarrow> ('a \<Rightarrow> ('s, 'b) io) \<Rightarrow> ('s, 'b) io" where
  "io_bind m f = (\<lambda>s. case m s of (Inl e, s') \<Rightarrow> (Inl e, s') | (Inr x, s') \<Rightarrow> f x s')"

text \<open>\<open>io_try\<close> runs an operation and hands its result, error or value, to the rest of the body.\<close>

definition io_try :: "('s, 'a) io \<Rightarrow> ('a io_result \<Rightarrow> ('s, 'b) io) \<Rightarrow> ('s, 'b) io" where
  "io_try m f = (\<lambda>s. case m s of (r, s') \<Rightarrow> f r s')"

definition io_lift :: "'a io_result \<Rightarrow> ('s, 'a) io" where
  "io_lift r = (\<lambda>s. (r, s))"

section \<open>Strings\<close>

definition strip_prefix :: "string \<Rightarrow> string \<Rightarrow> string option" where
  "strip_prefix p s = (if prefix p s then Some (drop (length p) s) else None)"

definition strip_suffix :: "string \<Rightarrow> string \<Rightarrow> string option" where
  "strip_suffix p s = (if suffix p s then Some (take (length s - length p) s) else None)"

fun contains_str :: "string \<Rightarrow> string \<Rightarrow> bool" where
  "contains_str p [] = (p = [])"
| "contains_str p (c # s) = (prefix p (c # s) \<or> contains_str p s)"

text \<open>\<^verbatim>\<open>str::find\<close> with a string pattern: the first index at which it occurs.\<close>

fun find_str :: "string \<Rightarrow> string \<Rightarrow> nat option" where
  "find_str p [] = (if p = [] then Some 0 else None)"
| "find_str p (c # s) = (if prefix p (c # s) then Some 0 else map_option Suc (find_str p s))"

text \<open>\<^verbatim>\<open>str::rfind\<close> with a string pattern: the last index at which it occurs.\<close>

fun rfind_str :: "string \<Rightarrow> string \<Rightarrow> nat option" where
  "rfind_str p [] = (if p = [] then Some 0 else None)"
| "rfind_str p (c # s) =
     (case rfind_str p s of
        Some i \<Rightarrow> Some (Suc i)
      | None \<Rightarrow> (if prefix p (c # s) then Some 0 else None))"

definition rsplit_once :: "string \<Rightarrow> string \<Rightarrow> (string \<times> string) option" where
  "rsplit_once p s = map_option (\<lambda>i. (take i s, drop (i + length p) s)) (rfind_str p s)"

fun split_once_char :: "char \<Rightarrow> string \<Rightarrow> (string \<times> string) option" where
  "split_once_char c [] = None"
| "split_once_char c (x # xs) =
     (if x = c then Some ([], xs)
      else map_option (\<lambda>(a, b). (x # a, b)) (split_once_char c xs))"

text \<open>\<^verbatim>\<open>str::split\<close> with a character: one segment more than there are separators.\<close>

fun split_char :: "char \<Rightarrow> string \<Rightarrow> string list" where
  "split_char c [] = [[]]"
| "split_char c (x # xs) =
     (if x = c then [] # split_char c xs
      else (case split_char c xs of [] \<Rightarrow> [[x]] | seg # segs \<Rightarrow> (x # seg) # segs))"

text \<open>Joining with the separator, the inverse of \<open>split_char\<close>.\<close>

fun join_char :: "char \<Rightarrow> string list \<Rightarrow> string" where
  "join_char c [] = []"
| "join_char c [s] = s"
| "join_char c (s # t # ts) = s @ c # join_char c (t # ts)"

text \<open>Rust's inclusive range pattern on bytes.\<close>

abbreviation between :: "char \<Rightarrow> char \<Rightarrow> char \<Rightarrow> bool" where
  "between lo hi c \<equiv> lo \<le> c \<and> c \<le> hi"

definition ascii_lower :: "char \<Rightarrow> char" where
  "ascii_lower c = (if between (CHR ''A'') (CHR ''Z'') c then char_of (of_char c + 32 :: nat) else c)"

definition eq_ignore_ascii_case :: "string \<Rightarrow> string \<Rightarrow> bool" where
  "eq_ignore_ascii_case a b \<longleftrightarrow> map ascii_lower a = map ascii_lower b"

definition is_ascii_digit :: "char \<Rightarrow> bool" where
  "is_ascii_digit c \<longleftrightarrow> between (CHR ''0'') (CHR ''9'') c"

definition is_ascii_alphanumeric :: "char \<Rightarrow> bool" where
  "is_ascii_alphanumeric c \<longleftrightarrow>
     is_ascii_digit c \<or> between (CHR ''a'') (CHR ''z'') c \<or> between (CHR ''A'') (CHR ''Z'') c"

definition is_ascii_hexdigit :: "char \<Rightarrow> bool" where
  "is_ascii_hexdigit c \<longleftrightarrow>
     is_ascii_digit c \<or> between (CHR ''a'') (CHR ''f'') c \<or> between (CHR ''A'') (CHR ''F'') c"

definition is_ascii :: "string \<Rightarrow> bool" where
  "is_ascii s \<longleftrightarrow> list_all (\<lambda>c. (of_char c :: nat) < 128) s"

subsection \<open>Trimming\<close>

text \<open>The UTF-8 encodings of the characters with the Unicode property White_Space.\<close>

definition white_space :: "string list" where
  "white_space =
     map (\<lambda>n::nat. [char_of n]) [9, 10, 11, 12, 13, 32] @
     map (map (\<lambda>n::nat. char_of n))
       ([[0xC2, 0x85], [0xC2, 0xA0], [0xE1, 0x9A, 0x80]] @
        map (\<lambda>n. [0xE2, 0x80, n]) ([0x80 ..< 0x8B] @ [0xA8, 0xA9, 0xAF]) @
        [[0xE2, 0x81, 0x9F], [0xE3, 0x80, 0x80]])"

function trim_start :: "string \<Rightarrow> string" where
  "trim_start s =
     (case find (\<lambda>w. w \<noteq> [] \<and> prefix w s) white_space of
        None \<Rightarrow> s
      | Some w \<Rightarrow> trim_start (drop (length w) s))"
  by pat_completeness auto
termination
  by (relation "measure length") (auto simp: find_Some_iff prefix_def)

declare trim_start.simps [simp del]

function trim_end :: "string \<Rightarrow> string" where
  "trim_end s =
     (case find (\<lambda>w. w \<noteq> [] \<and> suffix w s) white_space of
        None \<Rightarrow> s
      | Some w \<Rightarrow> trim_end (take (length s - length w) s))"
  by pat_completeness auto
termination
  by (relation "measure length") (auto simp: find_Some_iff suffix_def)

declare trim_end.simps [simp del]

definition trim :: "string \<Rightarrow> string" where
  "trim s = trim_end (trim_start s)"

subsection \<open>UTF-8 validity\<close>

text \<open>
  \<^verbatim>\<open>std::str::from_utf8\<close> and \<^verbatim>\<open>OsStr::to_str\<close>: the well-formed byte sequences of the Unicode
  standard (no overlong forms, no surrogates, nothing above U+10FFFF).
\<close>

definition in_range :: "nat \<Rightarrow> nat \<Rightarrow> char \<Rightarrow> bool" where
  "in_range lo hi c \<longleftrightarrow> lo \<le> of_char c \<and> of_char c \<le> hi"

fun utf8_valid :: "bytes \<Rightarrow> bool" where
  "utf8_valid [] = True"
| "utf8_valid (a # s) =
     (if in_range 0 0x7F a then utf8_valid s
      else if in_range 0xC2 0xDF a then
        (case s of b # s' \<Rightarrow> in_range 0x80 0xBF b \<and> utf8_valid s' | _ \<Rightarrow> False)
      else if in_range 0xE0 0xEF a then
        (case s of
           b # c # s' \<Rightarrow>
             in_range (if a = CHR 0xE0 then 0xA0 else 0x80) (if a = CHR 0xED then 0x9F else 0xBF) b
             \<and> in_range 0x80 0xBF c \<and> utf8_valid s'
         | _ \<Rightarrow> False)
      else if in_range 0xF0 0xF4 a then
        (case s of
           b # c # d # s' \<Rightarrow>
             in_range (if a = CHR 0xF0 then 0x90 else 0x80) (if a = CHR 0xF4 then 0x8F else 0xBF) b
             \<and> in_range 0x80 0xBF c \<and> in_range 0x80 0xBF d \<and> utf8_valid s'
         | _ \<Rightarrow> False)
      else False)"

definition to_str :: "bytes \<Rightarrow> string option" where
  "to_str b = (if utf8_valid b then Some b else None)"

section \<open>Numbers\<close>

subsection \<open>Printing and parsing decimal numbers\<close>

fun decimal :: "nat \<Rightarrow> string" where
  "decimal n = (if n < 10 then [char_of (48 + n)] else decimal (n div 10) @ [char_of (48 + n mod 10)])"

declare decimal.simps [simp del]

datatype parse_int_error = EmptyInt | InvalidDigit | PosOverflow

fun parse_digits :: "nat \<Rightarrow> nat \<Rightarrow> string \<Rightarrow> parse_int_error + nat" where
  "parse_digits limit acc [] = Inr acc"
| "parse_digits limit acc (c # cs) =
     (if \<not> is_ascii_digit c then Inl InvalidDigit
      else let acc' = 10 * acc + (of_char c - 48)
           in if acc' > limit then Inl PosOverflow else parse_digits limit acc' cs)"

text \<open>\<^verbatim>\<open>FromStr\<close> of an unsigned integer type with the given largest value.\<close>

definition parse_unsigned :: "nat \<Rightarrow> string \<Rightarrow> parse_int_error + nat" where
  "parse_unsigned limit s =
     (case s of
        [] \<Rightarrow> Inl EmptyInt
      | c # cs \<Rightarrow>
          if cs = [] \<and> (c = CHR ''+'' \<or> c = CHR ''-'') then Inl InvalidDigit
          else parse_digits limit 0 (if c = CHR ''+'' then cs else s))"

definition parse_int_error_message :: "parse_int_error \<Rightarrow> string" where
  "parse_int_error_message e =
     (case e of
        EmptyInt \<Rightarrow> ''cannot parse integer from empty string''
      | InvalidDigit \<Rightarrow> ''invalid digit found in string''
      | PosOverflow \<Rightarrow> ''number too large to fit in target type'')"

subsection \<open>Saturating and checked arithmetic\<close>

definition saturating_add :: "'a::len word \<Rightarrow> 'a word \<Rightarrow> 'a word" where
  "saturating_add a b = (if unat a + unat b < 2 ^ LENGTH('a) then a + b else - 1)"

definition saturating_mul :: "'a::len word \<Rightarrow> 'a word \<Rightarrow> 'a word" where
  "saturating_mul a b = (if unat a * unat b < 2 ^ LENGTH('a) then a * b else - 1)"

definition saturating_sub :: "'a::len word \<Rightarrow> 'a word \<Rightarrow> 'a word" where
  "saturating_sub a b = (if b \<le> a then a - b else 0)"

definition checked_add :: "'a::len word \<Rightarrow> 'a word \<Rightarrow> 'a word option" where
  "checked_add a b = (if unat a + unat b < 2 ^ LENGTH('a) then Some (a + b) else None)"

definition checked_mul :: "'a::len word \<Rightarrow> 'a word \<Rightarrow> 'a word option" where
  "checked_mul a b = (if unat a * unat b < 2 ^ LENGTH('a) then Some (a * b) else None)"

definition div_ceil :: "'a::len word \<Rightarrow> 'a word \<Rightarrow> 'a word" where
  "div_ceil a b = (if a mod b > 0 then a div b + 1 else a div b)"

subsection \<open>Big-endian bytes\<close>

definition to_be_bytes :: "u32 \<Rightarrow> bytes" where
  "to_be_bytes w = map (\<lambda>i. char_of (unat w div 256 ^ i)) [3, 2, 1, 0]"

definition from_be_bytes :: "bytes \<Rightarrow> u32" where
  "from_be_bytes bs = of_nat (foldl (\<lambda>acc b. 256 * acc + of_char b) 0 bs)"

section \<open>Lemmas\<close>

subsection \<open>The result monad\<close>

lemma io_return_apply [io_simps]: "io_return x s = (Inr x, s)"
  by (simp add: io_return_def)

lemma io_fail_apply [io_simps]: "io_fail e s = (Inl e, s)"
  by (simp add: io_fail_def)

lemma io_lift_apply [io_simps]: "io_lift r s = (r, s)"
  by (simp add: io_lift_def)

lemma io_bind_Inr: "m s = (Inr x, s') \<Longrightarrow> io_bind m f s = f x s'"
  by (simp add: io_bind_def)

lemma io_bind_Inl: "m s = (Inl e, s') \<Longrightarrow> io_bind m f s = (Inl e, s')"
  by (simp add: io_bind_def)

lemma io_bind_return [io_simps]: "io_bind (io_return x) f = f x"
  by (rule ext) (simp add: io_bind_def io_return_def)

lemma io_bind_assoc: "io_bind (io_bind m f) g = io_bind m (\<lambda>x. io_bind (f x) g)"
  by (rule ext) (simp add: io_bind_def split: prod.split sum.split)

lemma io_bind_InrE:
  assumes "io_bind m f s = (Inr y, t)"
  obtains x s' where "m s = (Inr x, s')" "f x s' = (Inr y, t)"
  using assms by (auto simp: io_bind_def split: prod.splits sum.splits)

lemma io_bind_InlE:
  assumes "io_bind m f s = (Inl e, t)"
  obtains (first) "m s = (Inl e, t)"
    | (later) x s' where "m s = (Inr x, s')" "f x s' = (Inl e, t)"
  using assms by (auto simp: io_bind_def split: prod.splits sum.splits)

text \<open>
  The rule for invariants of the state: an operation keeps \<open>P\<close> whatever it returns.  \<open>keeps\<close> goes
  through \<open>io_bind\<close> and \<open>io_try\<close>, so a whole function body keeps what each of its calls keeps.
\<close>

definition keeps :: "('s \<Rightarrow> bool) \<Rightarrow> ('s, 'a) io \<Rightarrow> bool" where
  "keeps P m \<longleftrightarrow> (\<forall>s. P s \<longrightarrow> P (snd (m s)))"

lemma keepsI: "(\<And>s. P s \<Longrightarrow> P (snd (m s))) \<Longrightarrow> keeps P m"
  by (simp add: keeps_def)

lemma keepsD: "keeps P m \<Longrightarrow> P s \<Longrightarrow> P (snd (m s))"
  by (simp add: keeps_def)

lemma keeps_return [intro, simp]: "keeps P (io_return x)"
  and keeps_fail [intro, simp]: "keeps P (io_fail e)"
  and keeps_lift [intro, simp]: "keeps P (io_lift r)"
  by (simp_all add: keeps_def io_return_def io_fail_def io_lift_def)

lemma keeps_bind [intro]:
  assumes "keeps P m" and "\<And>x. keeps P (f x)"
  shows "keeps P (io_bind m f)"
  unfolding keeps_def
proof (intro allI impI)
  fix s assume "P s"
  then have P: "P (snd (m s))"
    using assms(1) by (rule keepsD [rotated])
  obtain r s' where m: "m s = (r, s')"
    by (cases "m s")
  show "P (snd (io_bind m f s))"
    using P m keepsD [OF assms(2)] by (cases r) (auto simp: io_bind_def)
qed

lemma keeps_try [intro]:
  assumes "keeps P m" and "\<And>r. keeps P (f r)"
  shows "keeps P (io_try m f)"
  using assms by (fastforce simp: keeps_def io_try_def split: prod.split)

text \<open>What every value an operation returns satisfies, whatever the state it started in.\<close>

definition yields :: "('a \<Rightarrow> bool) \<Rightarrow> ('s, 'a) io \<Rightarrow> bool" where
  "yields Q m \<longleftrightarrow> (\<forall>s x t. m s = (Inr x, t) \<longrightarrow> Q x)"

lemma yieldsD: "yields Q m \<Longrightarrow> m s = (Inr x, t) \<Longrightarrow> Q x"
  by (auto simp: yields_def)

lemma yields_return [intro]: "Q x \<Longrightarrow> yields Q (io_return x)"
  by (simp add: yields_def io_return_def)

lemma yields_fail [intro, simp]: "yields Q (io_fail e)"
  by (simp add: yields_def io_fail_def)

lemma yields_any [intro, simp]: "yields (\<lambda>_. True) m"
  by (simp add: yields_def)

lemma yields_bind: "yields R m \<Longrightarrow> (\<And>x. R x \<Longrightarrow> yields Q (f x)) \<Longrightarrow> yields Q (io_bind m f)"
  unfolding yields_def by (blast elim: io_bind_InrE)

lemma yields_try: "(\<And>r. yields Q (f r)) \<Longrightarrow> yields Q (io_try m f)"
  by (auto simp: yields_def io_try_def split: prod.splits)

text \<open>
  How a run ends: in an error and a state with \<open>E\<close>, or in a value and a state with \<open>Q\<close>.  The rule for
  \<open>io_bind\<close> walks through a body call by call, the error case being the same throughout.
\<close>

definition ends :: "(io_error \<Rightarrow> 's \<Rightarrow> bool) \<Rightarrow> ('a \<Rightarrow> 's \<Rightarrow> bool) \<Rightarrow> ('s, 'a) io \<Rightarrow> 's \<Rightarrow> bool" where
  "ends E Q m s \<longleftrightarrow> (case m s of (Inl e, t) \<Rightarrow> E e t | (Inr x, t) \<Rightarrow> Q x t)"

lemma endsI: "(\<And>r t. m s = (r, t) \<Longrightarrow> case r of Inl e \<Rightarrow> E e t | Inr x \<Rightarrow> Q x t) \<Longrightarrow> ends E Q m s"
  by (auto simp: ends_def split: prod.split sum.split)

lemma endsD: "ends E Q m s \<Longrightarrow> m s = (r, t) \<Longrightarrow> case r of Inl e \<Rightarrow> E e t | Inr x \<Rightarrow> Q x t"
  by (auto simp: ends_def split: prod.split sum.split)

lemma ends_bind:
  assumes "ends E R m s" and "\<And>x t. R x t \<Longrightarrow> ends E Q (f x) t"
  shows "ends E Q (io_bind m f) s"
proof (cases "m s")
  case (Pair r t)
  with assms show ?thesis
    by (cases r) (simp_all add: ends_def io_bind_def)
qed

lemma ends_weaken:
  "ends E Q m s \<Longrightarrow> (\<And>e t. E e t \<Longrightarrow> E' e t) \<Longrightarrow> (\<And>x t. Q x t \<Longrightarrow> Q' x t) \<Longrightarrow> ends E' Q' m s"
  by (auto simp: ends_def split: prod.splits sum.splits)

lemma ends_same: "ends (\<lambda>_. P) (\<lambda>_. P) m s \<longleftrightarrow> P (snd (m s))"
  by (simp add: ends_def split: prod.split sum.split)

lemma ends_return: "Q x s \<Longrightarrow> ends E Q (io_return x) s"
  by (simp add: ends_def io_return_def)

lemma ends_lift: "(\<And>e. r = Inl e \<Longrightarrow> E e s) \<Longrightarrow> (\<And>x. r = Inr x \<Longrightarrow> Q x s) \<Longrightarrow> ends E Q (io_lift r) s"
  by (cases r) (simp_all add: ends_def io_lift_def)

subsection \<open>Prefixes and suffixes\<close>

lemma strip_prefix_append [simp, str_simps]: "strip_prefix p (p @ s) = Some s"
  by (simp add: strip_prefix_def)

lemma strip_prefix_Some [str_simps]: "strip_prefix p s = Some t \<longleftrightarrow> s = p @ t"
  by (auto simp: strip_prefix_def prefix_def)

lemma strip_suffix_append [simp, str_simps]: "strip_suffix p (s @ p) = Some s"
  by (simp add: strip_suffix_def suffix_def)

lemma strip_suffix_Some [str_simps]: "strip_suffix p s = Some t \<longleftrightarrow> s = t @ p"
  by (auto simp: strip_suffix_def suffix_def)

lemma strip_prefix_None: "strip_prefix p s = None \<longleftrightarrow> \<not> prefix p s"
  by (simp add: strip_prefix_def)

lemma strip_suffix_None: "strip_suffix p s = None \<longleftrightarrow> \<not> suffix p s"
  by (simp add: strip_suffix_def)

lemma contains_str_sublist: "contains_str p s \<longleftrightarrow> sublist p s"
  by (induction s) (auto simp: sublist_Cons_right)

lemma contains_str_iff: "contains_str p s \<longleftrightarrow> (\<exists>a b. s = a @ p @ b)"
  by (simp add: contains_str_sublist sublist_def)

lemma contains_str_char [str_simps]: "contains_str [c] s \<longleftrightarrow> c \<in> set s"
  by (auto simp: contains_str_iff in_set_conv_decomp)

lemma find_str_Some:
  "find_str p s = Some i \<Longrightarrow> s = take i s @ p @ drop (i + length p) s"
proof (induction s arbitrary: i)
  case Nil
  then show ?case by (simp split: if_splits)
next
  case (Cons c s)
  then show ?case
    by (auto simp: prefix_def split: if_splits)
qed

lemma rfind_str_Some:
  "rfind_str p s = Some i \<Longrightarrow> s = take i s @ p @ drop (i + length p) s"
proof (induction s arbitrary: i)
  case Nil
  then show ?case by (simp split: if_splits)
next
  case (Cons c s)
  show ?case
  proof (cases "rfind_str p s")
    case None
    with Cons.prems show ?thesis by (auto simp: prefix_def split: if_splits)
  next
    case (Some j)
    with Cons.prems have i: "i = Suc j" by simp
    have "c # s = c # take j s @ p @ drop (j + length p) s"
      using Cons.IH [OF Some] by simp
    then show ?thesis by (simp add: i)
  qed
qed

lemma rfind_str_None: "rfind_str p s = None \<longleftrightarrow> \<not> contains_str p s"
  by (induction s) (auto split: option.splits if_splits)

lemma rsplit_once_Some: "rsplit_once p s = Some (a, b) \<Longrightarrow> s = a @ p @ b"
  by (auto simp: rsplit_once_def dest: rfind_str_Some)

text \<open>The split is at the last occurrence when the pattern does not occur again further right.\<close>

lemma rfind_str_last:
  "\<not> contains_str p (tl (p @ b)) \<Longrightarrow> p \<noteq> [] \<Longrightarrow> rfind_str p (a @ p @ b) = Some (length a)"
proof (induction a)
  case Nil
  then obtain c p' where "p = c # p'" by (cases p) auto
  with Nil show ?case
    by (auto simp: rfind_str_None [symmetric] split: option.split)
next
  case (Cons x a)
  then show ?case by simp
qed

lemma rsplit_once_last:
  "\<not> contains_str p (tl (p @ b)) \<Longrightarrow> p \<noteq> [] \<Longrightarrow> rsplit_once p (a @ p @ b) = Some (a, b)"
  by (simp add: rsplit_once_def rfind_str_last)

subsection \<open>Splitting and joining\<close>

lemma split_char_not_Nil [simp]: "split_char c s \<noteq> []"
  by (induction s) (auto split: list.splits)

lemma split_char_no_sep: "seg \<in> set (split_char c s) \<Longrightarrow> c \<notin> set seg"
  by (induction s arbitrary: seg) (auto split: list.splits if_splits)

lemma join_split_char [simp]: "join_char c (split_char c s) = s"
proof (induction s)
  case Nil
  then show ?case by simp
next
  case (Cons x s)
  then show ?case
    by (cases "split_char c s") (auto split: list.splits, (metis append_Cons join_char.simps list.exhaust)+)
qed

lemma split_char_append_sep:
  "c \<notin> set a \<Longrightarrow> split_char c (a @ c # b) = a # split_char c b"
  by (induction a) auto

lemma split_char_single [simp]: "c \<notin> set a \<Longrightarrow> split_char c a = [a]"
  by (induction a) auto

lemma set_join_char: "set (join_char c segs) \<subseteq> insert c (\<Union> (set ` set segs))"
  by (induction c segs rule: join_char.induct) auto

lemma split_join_char:
  "segs \<noteq> [] \<Longrightarrow> \<forall>s\<in>set segs. c \<notin> set s \<Longrightarrow> split_char c (join_char c segs) = segs"
  by (induction c segs rule: join_char.induct) (auto simp: split_char_append_sep)

lemma split_once_char_Some:
  "split_once_char c s = Some (a, b) \<longleftrightarrow> s = a @ c # b \<and> c \<notin> set a"
proof (induction s arbitrary: a)
  case Nil
  then show ?case by simp
next
  case (Cons x s)
  show ?case
    by (cases a) (auto simp: Cons.IH)
qed

subsection \<open>Decimal numbers\<close>

lemma decimal_not_Nil [simp]: "decimal n \<noteq> []"
  by (subst decimal.simps) simp

lemma of_char_of_digit: "d < 10 \<Longrightarrow> of_char (char_of (48 + d) :: char) = (48 + d :: nat)"
  by (simp add: of_char_of)

lemma is_ascii_digit_iff: "is_ascii_digit c \<longleftrightarrow> 48 \<le> (of_char c :: nat) \<and> (of_char c :: nat) \<le> 57"
  by (simp add: is_ascii_digit_def less_eq_char_def)

lemma decimal_digits: "c \<in> set (decimal n) \<Longrightarrow> is_ascii_digit c"
proof (induction n rule: decimal.induct)
  case (1 n)
  show ?case
  proof (cases "n < 10")
    case True
    with "1.prems" show ?thesis
      by (simp add: decimal.simps [of n] is_ascii_digit_iff of_char_of_digit)
  next
    case False
    with "1" show ?thesis
      by (auto simp: decimal.simps [of n] is_ascii_digit_iff of_char_of_digit)
  qed
qed

lemma parse_digits_append:
  "parse_digits limit acc (a @ b) =
     (case parse_digits limit acc a of Inl e \<Rightarrow> Inl e | Inr acc' \<Rightarrow> parse_digits limit acc' b)"
  by (induction a arbitrary: acc) (auto simp: Let_def)

lemma parse_digits_decimal: "n \<le> limit \<Longrightarrow> parse_digits limit 0 (decimal n) = Inr n"
proof (induction n rule: decimal.induct)
  case (1 n)
  show ?case
  proof (cases "n < 10")
    case True
    with "1.prems" show ?thesis
      by (simp add: decimal.simps [of n] is_ascii_digit_iff of_char_of_digit Let_def)
  next
    case False
    with "1.prems" have "parse_digits limit 0 (decimal (n div 10)) = Inr (n div 10)"
      by (intro "1.IH") auto
    with False "1.prems" show ?thesis
      by (simp add: decimal.simps [of n] parse_digits_append is_ascii_digit_iff of_char_of_digit Let_def)
  qed
qed

lemma parse_digits_limit:
  "acc \<le> limit \<Longrightarrow> parse_digits limit acc s = Inr n \<Longrightarrow> n \<le> limit"
proof (induction s arbitrary: acc)
  case Nil
  then show ?case by simp
next
  case (Cons c s)
  from Cons.prems(2) show ?case
    by (auto simp: Let_def split: if_splits intro: Cons.IH [rotated])
qed

lemma parse_unsigned_limit: "parse_unsigned limit s = Inr n \<Longrightarrow> n \<le> limit"
  by (cases s) (simp_all add: parse_unsigned_def parse_digits_limit [of 0] split: if_splits
      del: parse_digits.simps)

text \<open>Parsing what was printed gives the number back.\<close>

lemma parse_unsigned_decimal: "n \<le> limit \<Longrightarrow> parse_unsigned limit (decimal n) = Inr n"
proof -
  assume n: "n \<le> limit"
  obtain c cs where d: "decimal n = c # cs"
    by (cases "decimal n") auto
  then have "is_ascii_digit c"
    by (metis decimal_digits list.set_intros(1))
  then have "c \<noteq> CHR ''+''" "c \<noteq> CHR ''-''"
    by (auto simp: is_ascii_digit_iff)
  with d parse_digits_decimal [OF n] show ?thesis
    by (simp add: parse_unsigned_def)
qed

subsection \<open>Saturating arithmetic\<close>

lemma unat_less_2p: "unat (w :: 'a::len word) < 2 ^ LENGTH('a)"
  by simp

lemma unat_minus_one: "unat (- 1 :: 'a::len word) = 2 ^ LENGTH('a) - 1"
  by (metis mask_eq_exp_minus_1 unsigned_minus_1_eq_mask)

lemma unat_saturating_add [word_sat]:
  "unat (saturating_add a b :: 'a::len word) = min (unat a + unat b) (2 ^ LENGTH('a) - 1)"
  by (auto simp: saturating_add_def unat_word_ariths unat_minus_one min_def)

lemma unat_saturating_mul [word_sat]:
  "unat (saturating_mul a b :: 'a::len word) = min (unat a * unat b) (2 ^ LENGTH('a) - 1)"
  using le_less_trans [of "unat a * unat b" "2 ^ LENGTH('a) - 1" "2 ^ LENGTH('a)"]
  by (simp add: saturating_mul_def unat_word_ariths unat_minus_one min_def)

lemma unat_saturating_sub [word_sat]: "unat (saturating_sub a b) = unat a - unat b"
  by (auto simp: saturating_sub_def word_le_nat_alt unat_sub)

lemma checked_add_Some [word_sat]:
  "checked_add a b = Some c \<longleftrightarrow> unat c = unat a + unat (b :: 'a::len word)"
  using unat_less_2p [of c]
  by (auto simp: checked_add_def unat_word_ariths word_unat_eq_iff simp del: unsigned_less)

lemma checked_mul_Some [word_sat]:
  "checked_mul a b = Some c \<longleftrightarrow> unat c = unat a * unat (b :: 'a::len word)"
  using unat_less_2p [of c]
  by (auto simp: checked_mul_def unat_word_ariths word_unat_eq_iff simp del: unsigned_less)

lemma unat_word_min: "unat (min a b) = min (unat a) (unat b)"
  by (simp add: min_def word_le_nat_alt)

lemma unat_word_max: "unat (max a b) = max (unat a) (unat b)"
  by (simp add: max_def word_le_nat_alt)

lemma nat_div_ceil:
  "0 < b \<Longrightarrow> (a + b - 1) div b = (if 0 < a mod b then Suc (a div b) else a div b)" for a b :: nat
proof -
  assume b: "0 < b"
  define q r where "q = a div b" and "r = a mod b"
  have a: "a = q * b + r" and r: "r < b"
    using b by (simp_all add: q_def r_def)
  show ?thesis
  proof (cases "r = 0")
    case True
    then have "(a + b - 1) div b = q"
      using b True by (intro div_nat_eqI) (simp_all add: a mult.commute)
    with True show ?thesis by (simp add: q_def r_def)
  next
    case False
    then have "(a + b - 1) div b = Suc q"
      using r False by (intro div_nat_eqI) (simp_all add: a mult.commute)
    with False show ?thesis by (simp add: q_def r_def)
  qed
qed

lemma unat_div_ceil [word_sat]:
  assumes "1 < unat b"
  shows "unat (div_ceil a b) = (unat a + unat b - 1) div unat b"
proof -
  have "Suc (unat a div unat b) < 2 ^ LENGTH('a)"
  proof (cases "unat a div unat b = 0")
    case True
    then show ?thesis
      using assms unat_less_2p [of b] by linarith
  next
    case False
    then have "0 < unat a"
      by (metis div_0 gr0I)
    then have "unat a div unat b < unat a"
      using assms by (intro div_less_dividend) auto
    then show ?thesis
      using unat_less_2p [of a] by linarith
  qed
  then show ?thesis
    using assms
    by (simp add: div_ceil_def nat_div_ceil [unfolded One_nat_def] word_less_nat_alt unat_mod unat_div unat_word_ariths
        del: unsigned_less)
qed

subsection \<open>Big-endian bytes\<close>

lemma length_to_be_bytes [simp]: "length (to_be_bytes w) = 4"
  by (simp add: to_be_bytes_def)

lemma be_digits:
  "256 * (256 * (256 * (n div 256 ^ 3 mod 256) + n div 256 ^ 2 mod 256) + n div 256 mod 256)
    + n mod 256 = (n :: nat)" if "n < 256 ^ 4"
proof -
  have "n div 256 ^ 3 mod 256 = n div 256 ^ 3"
    using that by (intro mod_less less_mult_imp_div_less) simp
  moreover have "256 * (n div 256 ^ 3) + n div 256 ^ 2 mod 256 = n div 256 ^ 2"
    using mult_div_mod_eq [of 256 "n div 256 ^ 2"] by (simp add: div_mult2_eq [symmetric])
  moreover have "256 * (n div 256 ^ 2) + n div 256 mod 256 = n div 256"
    using mult_div_mod_eq [of 256 "n div 256"] by (simp add: div_mult2_eq [symmetric])
  ultimately show ?thesis
    by (simp only: mult_div_mod_eq)
qed

lemma from_to_be_bytes [simp]: "from_be_bytes (to_be_bytes w) = w"
proof -
  have "unat w < 256 ^ 4"
    using unat_less_2p [of w] by simp
  then have "foldl (\<lambda>acc b. 256 * acc + of_char b) 0 (to_be_bytes w) = unat w"
    using be_digits [of "unat w"] by (simp add: to_be_bytes_def of_char_of)
  then show ?thesis
    by (simp add: from_be_bytes_def)
qed

text \<open>The other way round: four bytes are the digits of a number.\<close>

lemma of_char_bound: "(of_char c :: nat) < 256"
proof -
  have "(of_char (char_of (of_char c :: nat)) :: nat) = of_char c mod 256"
    by (rule of_char_of)
  then show ?thesis
    by simp
qed

lemma char_of_eqI:
  assumes "(n :: nat) mod 256 = of_char c"
  shows "char_of n = c"
proof -
  have "char_of n = char_of (of_char (char_of n) :: nat)"
    by (simp only: char_of_char)
  also have "\<dots> = char_of (n mod 256)"
    by (simp only: of_char_of)
  finally show ?thesis
    using assms by (simp only: char_of_char)
qed

lemma to_from_be_bytes:
  assumes "length bs = 4"
  shows "to_be_bytes (from_be_bytes bs) = bs"
proof -
  obtain a b c d where bs: "bs = [a, b, c, d]"
    using assms by (auto simp: length_Suc_conv eval_nat_numeral)
  define A B C D :: nat where "A = of_char a" and "B = of_char b" and "C = of_char c" and "D = of_char d"
  have lt: "A < 256" "B < 256" "C < 256" "D < 256"
    by (simp_all add: A_def B_def C_def D_def of_char_bound)
  let ?n = "256 * (256 * (256 * A + B) + C) + D"
  have "from_be_bytes bs = of_nat ?n"
    by (simp add: bs from_be_bytes_def A_def B_def C_def D_def)
  moreover have "unat (of_nat ?n :: u32) = ?n"
    using lt by (subst unat_of_nat) (auto intro!: mod_less)
  ultimately have n: "unat (from_be_bytes bs) = ?n"
    by (simp only:)
  have digit: "(256 * k + x) mod 256 = x" if "x < 256" for k x :: nat
    using that by simp
  have "?n div 256 ^ 3 = A" "?n div 256 ^ 2 = 256 * A + B" "?n div 256 ^ 1 = 256 * (256 * A + B) + C" "?n div 256 ^ 0 = ?n"
    using lt by simp_all
  then have "?n div 256 ^ 3 mod 256 = A" "?n div 256 ^ 2 mod 256 = B" "?n div 256 ^ 1 mod 256 = C" "?n div 256 ^ 0 mod 256 = D"
    using lt by (simp_all only: digit mod_less)
  then have "char_of (?n div 256 ^ 3) = a" "char_of (?n div 256 ^ 2) = b" "char_of (?n div 256 ^ 1) = c" "char_of (?n div 256 ^ 0) = d"
    unfolding A_def B_def C_def D_def by (blast intro: char_of_eqI)+
  then show ?thesis
    unfolding to_be_bytes_def n by (simp only: list.map bs)
qed

end
