(* ===== verification/FileSystem.thy ===== *)
theory FileSystem
  imports Prelude
begin

text \<open>
  The file operations \<^verbatim>\<open>src/cache.rs\<close> and \<^verbatim>\<open>src/proxy.rs\<close> call, on an explicit store of inodes: a path
  (relative to the cache directory) names an inode, an open file is an inode number, and a rename or
  an unlink changes the names only, so an open file keeps its bytes.

  Two things make the operations realistic.  Every operation may fail: the state carries the list of
  failures the operating system will inject, an arbitrary input of every theorem.  And a write to a
  \<^verbatim>\<open>tokio::fs::File\<close> is handed to a background thread: \<^verbatim>\<open>write_all\<close> returns with the last bytes still
  pending, and \<^verbatim>\<open>flush\<close> (or the next write) waits for them.

  A directory that is opened as a file fails when it is opened, not at the first read.
\<close>

named_theorems fs_simps \<open>the effect of file operations on the state\<close>

datatype node = NFile nat | NDir

type_synonym path = "string list"

record fs =
  fs_nodes :: "(path \<times> node) list"
  fs_data :: "nat \<Rightarrow> bytes"
  fs_pending :: "nat \<Rightarrow> bytes"
  fs_mtime :: "nat \<Rightarrow> nat"
  fs_next :: nat
  fs_clock :: nat
  fs_marker_locked :: bool
  fs_faults :: "(io_error \<times> nat) option list"

definition fs_lookup :: "fs \<Rightarrow> path \<Rightarrow> node option" where
  "fs_lookup s p = (if p = [] then Some NDir else map_of (fs_nodes s) p)"

definition fs_unlink :: "path \<Rightarrow> fs \<Rightarrow> fs" where
  "fs_unlink p s = s\<lparr>fs_nodes := filter (\<lambda>(q, _). q \<noteq> p) (fs_nodes s)\<rparr>"

definition fs_link :: "path \<Rightarrow> node \<Rightarrow> fs \<Rightarrow> fs" where
  "fs_link p n s = s\<lparr>fs_nodes := (p, n) # filter (\<lambda>(q, _). q \<noteq> p) (fs_nodes s)\<rparr>"

text \<open>
  Take the next injected failure.  The number that comes with a failure is the number of bytes a
  failing write still wrote.
\<close>

definition draw :: "fs \<Rightarrow> (io_error \<times> nat) option \<times> fs" where
  "draw s = (case fs_faults s of [] \<Rightarrow> (None, s) | f # fl \<Rightarrow> (f, s\<lparr>fs_faults := fl\<rparr>))"

definition fs_op :: "(fs, 'a) io \<Rightarrow> (fs, 'a) io" where
  "fs_op f = (\<lambda>s. case draw s of (Some (e, _), s') \<Rightarrow> (Inl e, s') | (None, s') \<Rightarrow> f s')"

definition not_found_error :: io_error where
  "not_found_error = IoError NotFound ''No such file or directory (os error 2)''"

definition is_a_directory_error :: io_error where
  "is_a_directory_error = IoError (OtherKind 21) ''Is a directory (os error 21)''"

definition file_exists_error :: io_error where
  "file_exists_error = IoError AlreadyExists ''File exists (os error 17)''"

definition unexpected_eof_error :: io_error where
  "unexpected_eof_error = IoError UnexpectedEof ''early eof''"

text \<open>\<^verbatim>\<open>fs::create_dir_all\<close> for the cache directory itself or a directory in it.\<close>

definition create_dir_all :: "path \<Rightarrow> (fs, unit) io" where
  "create_dir_all p = fs_op (\<lambda>s.
     case fs_lookup s p of
       Some NDir \<Rightarrow> (Inr (), s)
     | Some (NFile _) \<Rightarrow> (Inl file_exists_error, s)
     | None \<Rightarrow> (Inr (), fs_link p NDir s))"

text \<open>\<^verbatim>\<open>File::open\<close> and \<^verbatim>\<open>OpenOptions::append(true).open\<close> on an existing file.\<close>

definition open_file :: "path \<Rightarrow> (fs, nat) io" where
  "open_file p = fs_op (\<lambda>s.
     case fs_lookup s p of
       Some (NFile i) \<Rightarrow> (Inr i, s)
     | Some NDir \<Rightarrow> (Inl is_a_directory_error, s)
     | None \<Rightarrow> (Inl not_found_error, s))"

text \<open>\<^verbatim>\<open>File::create\<close>: truncates the inode that is there, or makes a new one.\<close>

definition create_file :: "path \<Rightarrow> (fs, nat) io" where
  "create_file p = fs_op (\<lambda>s.
     case fs_lookup s p of
       Some NDir \<Rightarrow> (Inl is_a_directory_error, s)
     | Some (NFile i) \<Rightarrow>
         (Inr i, s\<lparr>fs_data := (fs_data s)(i := []), fs_pending := (fs_pending s)(i := []),
                   fs_mtime := (fs_mtime s)(i := fs_clock s)\<rparr>)
     | None \<Rightarrow>
         if fs_lookup s (butlast p) = Some NDir
         then
           (let i = fs_next s in
            (Inr i, fs_link p (NFile i)
               (s\<lparr>fs_data := (fs_data s)(i := []), fs_pending := (fs_pending s)(i := []),
                  fs_mtime := (fs_mtime s)(i := fs_clock s), fs_next := Suc i\<rparr>)))
         else (Inl not_found_error, s))"

text \<open>The background thread finishes the pending write of an inode.\<close>

definition settle :: "nat \<Rightarrow> fs \<Rightarrow> fs" where
  "settle i s = s\<lparr>fs_data := (fs_data s)(i := fs_data s i @ fs_pending s i),
                  fs_pending := (fs_pending s)(i := []),
                  fs_mtime := (fs_mtime s)(i := fs_clock s)\<rparr>"

text \<open>The pending bytes of an inode fail to be written, all but the first \<open>n\<close>.\<close>

definition settle_partly :: "nat \<Rightarrow> nat \<Rightarrow> fs \<Rightarrow> fs" where
  "settle_partly n i s = s\<lparr>fs_data := (fs_data s)(i := fs_data s i @ take n (fs_pending s i)),
                           fs_pending := (fs_pending s)(i := []),
                           fs_mtime := (fs_mtime s)(i := fs_clock s)\<rparr>"

definition write_all :: "nat \<Rightarrow> bytes \<Rightarrow> (fs, unit) io" where
  "write_all i bs = (\<lambda>s.
     case draw s of
       (Some (e, n), s') \<Rightarrow>
         (Inl e, settle_partly n i (s'\<lparr>fs_pending := (fs_pending s')(i := fs_pending s' i @ bs)\<rparr>))
     | (None, s') \<Rightarrow>
         (let t = settle i s' in (Inr (), t\<lparr>fs_pending := (fs_pending t)(i := bs)\<rparr>)))"

definition flush_file :: "nat \<Rightarrow> (fs, unit) io" where
  "flush_file i = (\<lambda>s.
     case draw s of
       (Some (e, n), s') \<Rightarrow> (Inl e, settle_partly n i s')
     | (None, s') \<Rightarrow> (Inr (), settle i s'))"

definition rename_file :: "path \<Rightarrow> path \<Rightarrow> (fs, unit) io" where
  "rename_file p q = fs_op (\<lambda>s.
     case fs_lookup s p of
       None \<Rightarrow> (Inl not_found_error, s)
     | Some n \<Rightarrow>
         (case fs_lookup s q of
            Some NDir \<Rightarrow> (Inl is_a_directory_error, s)
          | _ \<Rightarrow>
              if fs_lookup s (butlast q) = Some NDir
              then (Inr (), if p = q then s else fs_link q n (fs_unlink p s))
              else (Inl not_found_error, s)))"

definition remove_file :: "path \<Rightarrow> (fs, unit) io" where
  "remove_file p = fs_op (\<lambda>s.
     case fs_lookup s p of
       None \<Rightarrow> (Inl not_found_error, s)
     | Some NDir \<Rightarrow> (Inl is_a_directory_error, s)
     | Some (NFile _) \<Rightarrow> (Inr (), fs_unlink p s))"

definition read_dir :: "path \<Rightarrow> (fs, (bytes \<times> node) list) io" where
  "read_dir d = fs_op (\<lambda>s.
     case fs_lookup s d of
       Some NDir \<Rightarrow>
         (Inr (map (\<lambda>(p, n). (last p, n))
                 (filter (\<lambda>(p, n). p \<noteq> [] \<and> butlast p = d) (fs_nodes s))), s)
     | _ \<Rightarrow> (Inl not_found_error, s))"

definition file_len :: "nat \<Rightarrow> (fs, u64) io" where
  "file_len i = fs_op (\<lambda>s. (Inr (of_nat (length (fs_data s i))), s))"

text \<open>\<^verbatim>\<open>seek(SeekFrom::Start(off))\<close> followed by \<^verbatim>\<open>read_exact\<close> into a buffer of \<open>n\<close> bytes.\<close>

definition read_exact_at :: "nat \<Rightarrow> u64 \<Rightarrow> nat \<Rightarrow> (fs, bytes) io" where
  "read_exact_at i off n = fs_op (\<lambda>s.
     let rest = drop (unat off) (fs_data s i) in
     if length rest < n then (Inl unexpected_eof_error, s) else (Inr (take n rest), s))"

definition read_file :: "path \<Rightarrow> (fs, bytes) io" where
  "read_file p = io_bind (open_file p) (\<lambda>i. fs_op (\<lambda>s. (Inr (fs_data s i), s)))"

definition write_file :: "path \<Rightarrow> bytes \<Rightarrow> (fs, unit) io" where
  "write_file p bs = io_bind (create_file p) (\<lambda>i. io_bind (write_all i bs) (\<lambda>_. flush_file i))"

text \<open>What a reader who opens a path now would read.\<close>

definition contents_at :: "fs \<Rightarrow> path \<Rightarrow> bytes option" where
  "contents_at s p =
     (case fs_lookup s p of Some (NFile i) \<Rightarrow> Some (fs_data s i) | _ \<Rightarrow> None)"

text \<open>A file system without hard links: a path occurs once, an inode has one name, and new inodes are new.\<close>

definition wf_fs :: "fs \<Rightarrow> bool" where
  "wf_fs s \<longleftrightarrow>
     distinct (map fst (fs_nodes s))
     \<and> (\<forall>p q i. fs_lookup s p = Some (NFile i) \<longrightarrow> fs_lookup s q = Some (NFile i) \<longrightarrow> p = q)
     \<and> (\<forall>p i. fs_lookup s p = Some (NFile i) \<longrightarrow> i < fs_next s)"

section \<open>Lemmas\<close>

lemma map_of_filter_neq: "map_of (filter (\<lambda>(q, _). q \<noteq> p) xs) = (map_of xs)(p := None)"
  by (induction xs) (auto simp: fun_eq_iff)

lemma fs_lookup_root [simp]: "fs_lookup s [] = Some NDir"
  by (simp add: fs_lookup_def)

lemma fs_lookup_unlink [fs_simps]:
  "fs_lookup (fs_unlink p s) q = (if q = p \<and> p \<noteq> [] then None else fs_lookup s q)"
  by (auto simp: fs_lookup_def fs_unlink_def map_of_filter_neq)

lemma fs_lookup_link [fs_simps]:
  "fs_lookup (fs_link p n s) q = (if q = p \<and> p \<noteq> [] then Some n else fs_lookup s q)"
  by (auto simp: fs_lookup_def fs_link_def map_of_filter_neq)

lemma fs_unlink_fields [simp]:
  "fs_data (fs_unlink p s) = fs_data s" "fs_pending (fs_unlink p s) = fs_pending s"
  "fs_mtime (fs_unlink p s) = fs_mtime s" "fs_next (fs_unlink p s) = fs_next s"
  "fs_clock (fs_unlink p s) = fs_clock s" "fs_faults (fs_unlink p s) = fs_faults s"
  "fs_nodes (fs_unlink p s) = filter (\<lambda>(q, _). q \<noteq> p) (fs_nodes s)"
  "fs_marker_locked (fs_unlink p s) = fs_marker_locked s"
  by (simp_all add: fs_unlink_def)

lemma fs_link_fields [simp]:
  "fs_data (fs_link p n s) = fs_data s" "fs_pending (fs_link p n s) = fs_pending s"
  "fs_mtime (fs_link p n s) = fs_mtime s" "fs_next (fs_link p n s) = fs_next s"
  "fs_clock (fs_link p n s) = fs_clock s" "fs_faults (fs_link p n s) = fs_faults s"
  "fs_nodes (fs_link p n s) = (p, n) # filter (\<lambda>(q, _). q \<noteq> p) (fs_nodes s)"
  "fs_marker_locked (fs_link p n s) = fs_marker_locked s"
  by (simp_all add: fs_link_def)

lemma fs_lookup_cong: "fs_nodes s = fs_nodes t \<Longrightarrow> fs_lookup s = fs_lookup t"
  by (simp add: fs_lookup_def fun_eq_iff)

lemma fs_lookup_updates [simp]:
  "fs_lookup (s\<lparr>fs_data := d\<rparr>) = fs_lookup s" "fs_lookup (s\<lparr>fs_pending := pn\<rparr>) = fs_lookup s"
  "fs_lookup (s\<lparr>fs_mtime := m\<rparr>) = fs_lookup s" "fs_lookup (s\<lparr>fs_next := n\<rparr>) = fs_lookup s"
  "fs_lookup (s\<lparr>fs_faults := f\<rparr>) = fs_lookup s"
  "fs_lookup (s\<lparr>fs_marker_locked := l\<rparr>) = fs_lookup s"
  by (simp_all add: fs_lookup_def fun_eq_iff)

lemma settle_faults [simp]: "fs_faults (settle i s) = fs_faults s"
  by (simp add: settle_def)

text \<open>Drawing a failure changes nothing a reader can see.\<close>

lemma draw_no_faults: "fs_faults s = [] \<Longrightarrow> draw s = (None, s)"
  by (simp add: draw_def)

lemma draw_cases:
  obtains f s' where "draw s = (f, s')" "s' = s\<lparr>fs_faults := fs_faults s'\<rparr>"
  by (cases "fs_faults s") (auto simp: draw_def)

lemma fs_op_no_faults: "fs_faults s = [] \<Longrightarrow> fs_op f s = f s"
  by (simp add: fs_op_def draw_no_faults)

lemma keeps_fs_op:
  assumes "\<And>s fl. P s \<Longrightarrow> P (s\<lparr>fs_faults := fl\<rparr>)" and "keeps P f"
  shows "keeps P (fs_op f)"
proof (rule keepsI)
  fix s assume P: "P s"
  obtain r s' where d: "draw s = (r, s')" and s': "s' = s\<lparr>fs_faults := fs_faults s'\<rparr>"
    by (rule draw_cases)
  have "P s'"
    using assms(1) [OF P, of "fs_faults s'"] s' by simp
  with assms(2) d show "P (snd (fs_op f s))"
    by (auto simp: fs_op_def keeps_def split: option.split)
qed

text \<open>An operation that only reads: the names and the bytes stay, injected failures may be used up.\<close>

definition read_only :: "(fs, 'a) io \<Rightarrow> bool" where
  "read_only m \<longleftrightarrow> (\<forall>s. snd (m s) = s\<lparr>fs_faults := fs_faults (snd (m s))\<rparr>)"

lemma read_onlyI: "(\<And>s. \<exists>fl. snd (m s) = s\<lparr>fs_faults := fl\<rparr>) \<Longrightarrow> read_only m"
  unfolding read_only_def
proof
  fix s
  assume "\<And>s. \<exists>fl. snd (m s) = s\<lparr>fs_faults := fl\<rparr>"
  then obtain fl where "snd (m s) = s\<lparr>fs_faults := fl\<rparr>"
    by blast
  then show "snd (m s) = s\<lparr>fs_faults := fs_faults (snd (m s))\<rparr>"
    by simp
qed

lemma read_onlyD: "read_only m \<Longrightarrow> m s = (r, t) \<Longrightarrow> t = s\<lparr>fs_faults := fs_faults t\<rparr>"
  by (metis read_only_def snd_conv)

lemma read_only_return [intro, simp]: "read_only (io_return x)"
  and read_only_fail [intro, simp]: "read_only (io_fail e)"
  and read_only_lift [intro, simp]: "read_only (io_lift r)"
  by (simp_all add: read_only_def io_return_def io_fail_def io_lift_def)

lemma read_only_try [intro]:
  assumes "read_only m" and "\<And>r. read_only (f r)"
  shows "read_only (io_try m f)"
proof (rule read_onlyI)
  fix s
  obtain r t where m: "m s = (r, t)"
    by force
  have "snd (io_try m f s) = s\<lparr>fs_faults := fs_faults (snd (f r t))\<rparr>"
    using read_onlyD [OF assms(1) m] assms(2) [of r, unfolded read_only_def, rule_format, of t] m
    by (cases s, cases t) (simp add: io_try_def)
  then show "\<exists>fl. snd (io_try m f s) = s\<lparr>fs_faults := fl\<rparr>" ..
qed

lemma io_bind_as_try:
  "io_bind m f = io_try m (\<lambda>r. case r of Inl e \<Rightarrow> io_fail e | Inr x \<Rightarrow> f x)"
  by (rule ext) (auto simp: io_bind_def io_try_def io_fail_def split: prod.split sum.split)

lemma read_only_bind [intro]: "read_only m \<Longrightarrow> (\<And>x. read_only (f x)) \<Longrightarrow> read_only (io_bind m f)"
  unfolding io_bind_as_try by (rule read_only_try) (auto split: sum.split)

lemma read_only_fs_op [intro]:
  assumes "\<And>s. snd (f s) = s"
  shows "read_only (fs_op f)"
proof (rule read_onlyI)
  fix s
  obtain r s' where "draw s = (r, s')" "s' = s\<lparr>fs_faults := fs_faults s'\<rparr>"
    by (rule draw_cases)
  then show "\<exists>fl. snd (fs_op f s) = s\<lparr>fs_faults := fl\<rparr>"
    using assms by (auto simp: fs_op_def split: option.split)
qed

lemma read_only_reads [intro, simp]:
  "read_only (open_file p)" "read_only (read_dir d)" "read_only (file_len i)"
  "read_only (read_exact_at i off n)"
  unfolding open_file_def read_dir_def file_len_def read_exact_at_def
  by (auto split: option.split node.split simp: Let_def)

lemma read_only_read_file [intro, simp]: "read_only (read_file p)"
  unfolding read_file_def by (rule read_only_bind) auto

end
