(* ===== verification/FileView.thy ===== *)
theory FileView
  imports FileSystem
begin

text \<open>
  What other processes and requests see of the file system: the tree of names with the bytes each file
  holds.  The operations of \<open>FileSystem\<close> refine updates of that tree, provided that no inode has two
  names (\<open>wf_fs\<close>), which every operation keeps.
\<close>

named_theorems view_simps \<open>the effect of file operations on the visible tree\<close>

datatype tnode = Dir | File bytes

definition view :: "fs \<Rightarrow> path \<Rightarrow> tnode option" where
  "view s p =
     (case fs_lookup s p of
        None \<Rightarrow> None
      | Some NDir \<Rightarrow> Some Dir
      | Some (NFile i) \<Rightarrow> Some (File (fs_data s i)))"

text \<open>The parts of \<open>wf_fs\<close>, in a form the classical reasoner does not loop on.\<close>

lemma wf_fs_inj: "wf_fs s \<Longrightarrow> fs_lookup s p = Some (NFile i) \<Longrightarrow> fs_lookup s q = Some (NFile i) \<Longrightarrow> p = q"
  unfolding wf_fs_def by blast

lemma wf_fs_bound: "wf_fs s \<Longrightarrow> fs_lookup s p = Some (NFile i) \<Longrightarrow> i < fs_next s"
  unfolding wf_fs_def by blast

lemma wf_fs_distinct: "wf_fs s \<Longrightarrow> distinct (map fst (fs_nodes s))"
  unfolding wf_fs_def by blast

lemma wf_fsI:
  assumes "distinct (map fst (fs_nodes s))"
    and "\<And>p q i. fs_lookup s p = Some (NFile i) \<Longrightarrow> fs_lookup s q = Some (NFile i) \<Longrightarrow> p = q"
    and "\<And>p i. fs_lookup s p = Some (NFile i) \<Longrightarrow> i < fs_next s"
  shows "wf_fs s"
  unfolding wf_fs_def using assms by blast

lemma wf_fs_cong: "wf_fs s \<Longrightarrow> fs_nodes t = fs_nodes s \<Longrightarrow> fs_next t = fs_next s \<Longrightarrow> wf_fs t"
  by (simp add: wf_fs_def fs_lookup_cong [of t s])

lemma wf_fs_faults [simp]: "wf_fs (s\<lparr>fs_faults := fl\<rparr>) = wf_fs s"
  by (auto intro: wf_fs_cong)

lemma view_faults [simp]: "view (s\<lparr>fs_faults := fl\<rparr>) = view s"
  by (simp add: view_def fun_eq_iff split: option.split node.split)

lemma distinct_fst_filter: "distinct (map fst xs) \<Longrightarrow> distinct (map fst (filter P xs))"
  by (simp add: distinct_map_filter)

lemma distinct_link: "distinct (map fst xs) \<Longrightarrow> distinct (map fst ((p, n) # filter (\<lambda>(q, _). q \<noteq> p) xs))"
  by (auto simp: distinct_fst_filter)

lemma wf_fs_unlink: "wf_fs s \<Longrightarrow> wf_fs (fs_unlink p s)"
  by (rule wf_fsI)
    (auto simp: fs_lookup_unlink wf_fs_distinct distinct_fst_filter split: if_splits
      dest: wf_fs_inj wf_fs_bound)

lemma wf_fs_link_dir: "wf_fs s \<Longrightarrow> wf_fs (fs_link p NDir s)"
  by (rule wf_fsI)
    (use distinct_link [OF wf_fs_distinct] in \<open>auto simp: fs_lookup_link split: if_splits
      dest: wf_fs_inj wf_fs_bound\<close>)

lemma wf_fs_link_file:
  assumes "wf_fs s" and "i < fs_next s" and "\<And>q. fs_lookup s q = Some (NFile i) \<Longrightarrow> q = p"
  shows "wf_fs (fs_link p (NFile i) s)"
proof (rule wf_fsI)
  show "distinct (map fst (fs_nodes (fs_link p (NFile i) s)))"
    using distinct_link [OF wf_fs_distinct [OF assms(1)]] by simp
  show "q = q'" if "fs_lookup (fs_link p (NFile i) s) q = Some (NFile j)"
    "fs_lookup (fs_link p (NFile i) s) q' = Some (NFile j)" for q q' j
    using that assms(3) wf_fs_inj [OF assms(1)] by (auto simp: fs_lookup_link split: if_splits)
  show "j < fs_next (fs_link p (NFile i) s)" if "fs_lookup (fs_link p (NFile i) s) q = Some (NFile j)" for q j
    using that assms(2) wf_fs_bound [OF assms(1)] by (auto simp: fs_lookup_link split: if_splits)
qed

lemma view_unlink: "p \<noteq> [] \<Longrightarrow> view (fs_unlink p s) = (view s)(p := None)"
  by (auto simp: view_def fun_eq_iff fs_lookup_unlink split: option.split node.split)

lemma view_link_dir: "p \<noteq> [] \<Longrightarrow> view (fs_link p NDir s) = (view s)(p \<mapsto> Dir)"
  by (auto simp: view_def fun_eq_iff fs_lookup_link split: option.split node.split)

lemma view_link_file: "p \<noteq> [] \<Longrightarrow> view (fs_link p (NFile i) s) = (view s)(p \<mapsto> File (fs_data s i))"
  by (auto simp: view_def fun_eq_iff fs_lookup_link split: option.split node.split)

lemma view_data:
  assumes "wf_fs s" and "fs_lookup s p = Some (NFile i)"
  shows "view (s\<lparr>fs_data := (fs_data s)(i := bs)\<rparr>) = (view s)(p \<mapsto> File bs)"
  using assms wf_fs_inj [OF assms(1)]
  by (auto simp: view_def fun_eq_iff split: option.split node.split)

lemma view_cong:
  "fs_nodes t = fs_nodes s \<Longrightarrow> fs_data t = fs_data s \<Longrightarrow> view t = view s"
  by (rule ext) (simp add: view_def fs_lookup_cong [of t s] split: option.split node.split)

lemma view_Dir [simp]: "view s p = Some Dir \<longleftrightarrow> fs_lookup s p = Some NDir"
  by (auto simp: view_def split: option.splits node.splits)

lemma view_None: "view s p = None \<longleftrightarrow> fs_lookup s p = None"
  by (auto simp: view_def split: option.splits node.splits)

lemma contents_at_view: "contents_at s p = (case view s p of Some (File b) \<Rightarrow> Some b | _ \<Rightarrow> None)"
  by (simp add: contents_at_def view_def split: option.split node.split)

section \<open>Operations\<close>

text \<open>Drawing a failure: the operation fails and the tree stays, or it runs on the same tree.\<close>

lemma fs_op_cases:
  obtains (fault) e t where "fs_op f s = (Inl e, t)" "t = s\<lparr>fs_faults := fs_faults t\<rparr>"
  | (run) s' where "fs_op f s = f s'" "s' = s\<lparr>fs_faults := fs_faults s'\<rparr>"
proof -
  obtain r s' where d: "draw s = (r, s')" "s' = s\<lparr>fs_faults := fs_faults s'\<rparr>"
    by (rule draw_cases)
  show thesis
  proof (cases r)
    case None
    with d show ?thesis by (intro run [of s']) (simp_all add: fs_op_def)
  next
    case (Some f)
    with d show ?thesis by (cases f) (intro fault, auto simp: fs_op_def)
  qed
qed

text \<open>
  \<open>updates p m\<close>: whatever happens, \<open>m\<close> keeps the file system well formed, changes no name but \<open>p\<close>, and makes
  or unmakes no directory.
\<close>

definition changes_at :: "path \<Rightarrow> fs \<Rightarrow> fs \<Rightarrow> bool" where
  "changes_at p s t \<longleftrightarrow>
     wf_fs t \<and> (\<exists>x. view t = (view s)(p := x)) \<and> (view t p = Some Dir \<longleftrightarrow> view s p = Some Dir)"

lemma changes_at_same: "wf_fs t \<Longrightarrow> view t = view s \<Longrightarrow> changes_at p s t"
  unfolding changes_at_def by (metis fun_upd_triv)

lemma changes_at_refl: "wf_fs s \<Longrightarrow> changes_at p s s"
  by (simp add: changes_at_same)

lemma changes_at_trans: "changes_at p s t \<Longrightarrow> changes_at p t u \<Longrightarrow> changes_at p s u"
  unfolding changes_at_def by fastforce

lemma changes_at_other: "changes_at p s t \<Longrightarrow> q \<noteq> p \<Longrightarrow> view t q = view s q"
  by (auto simp: changes_at_def)

lemma faults_same:
  assumes "t = s\<lparr>fs_faults := fs_faults t\<rparr>"
  shows "view t = view s" and "wf_fs t = wf_fs s" and "fs_lookup t = fs_lookup s"
    and "fs_data t = fs_data s" and "fs_pending t = fs_pending s" and "fs_next t = fs_next s"
    and "fs_mtime t = fs_mtime s" and "fs_nodes t = fs_nodes s" and "fs_clock t = fs_clock s"
    and "fs_marker_locked t = fs_marker_locked s"
  by (subst assms, simp)+

lemma changes_at_faults: "wf_fs s \<Longrightarrow> t = s\<lparr>fs_faults := fs_faults t\<rparr> \<Longrightarrow> changes_at p s t"
  by (rule changes_at_same) (blast intro: faults_same(1) faults_same(2) [THEN iffD2])+

lemma create_dir_all_view:
  assumes "wf_fs s" and "create_dir_all d s = (r, t)"
  shows "wf_fs t \<and> (view t = view s \<or> view s d = None \<and> view t = (view s)(d \<mapsto> Dir))
    \<and> (case r of Inr _ \<Rightarrow> fs_lookup t d = Some NDir | Inl _ \<Rightarrow> view t = view s)"
proof (cases rule: fs_op_cases [of "\<lambda>s. case fs_lookup s d of
     Some NDir \<Rightarrow> (Inr (), s) | Some (NFile _) \<Rightarrow> (Inl file_exists_error, s)
   | None \<Rightarrow> (Inr (), fs_link d NDir s)" s])
  case (fault e u)
  then show ?thesis
    using assms faults_same(1,2) [OF fault(2)] by (auto simp: create_dir_all_def)
next
  case (run s')
  then show ?thesis
    using assms faults_same(1,2,3) [OF run(2)]
    by (cases "d = []") (auto simp: create_dir_all_def wf_fs_link_dir view_link_dir fs_lookup_link view_None
        split: option.splits node.splits)
qed

text \<open>The file a writer holds: its name, the bytes written and the bytes still pending.\<close>

definition writing :: "path \<Rightarrow> nat \<Rightarrow> bytes \<Rightarrow> fs \<Rightarrow> bool" where
  "writing p i bs s \<longleftrightarrow> wf_fs s \<and> fs_lookup s p = Some (NFile i) \<and> fs_data s i @ fs_pending s i = bs"

lemma create_file_view:
  assumes "wf_fs s" and "p \<noteq> []" and "create_file p s = (r, t)"
  shows "changes_at p s t \<and> (case r of Inr i \<Rightarrow> writing p i [] t | Inl _ \<Rightarrow> view t = view s)"
proof -
  let ?new = "\<lambda>i s. s\<lparr>fs_data := (fs_data s)(i := []), fs_pending := (fs_pending s)(i := []),
                   fs_mtime := (fs_mtime s)(i := fs_clock s)\<rparr>"
  have trunc: "changes_at p u (?new i u) \<and> writing p i [] (?new i u)"
    if "wf_fs u" "fs_lookup u p = Some (NFile i)" for u i
  proof -
    have "view (?new i u) = view (u\<lparr>fs_data := (fs_data u)(i := [])\<rparr>)"
      by (rule view_cong) simp_all
    then have "view (?new i u) = (view u)(p \<mapsto> File [])"
      using that by (simp add: view_data)
    then show ?thesis
      using that by (auto simp: changes_at_def writing_def intro: wf_fs_cong)
  qed
  have fresh: "changes_at p u v \<and> writing p (fs_next u) [] v"
    if "wf_fs u" "fs_lookup u p = None" "v = fs_link p (NFile (fs_next u)) ((?new (fs_next u) u)\<lparr>fs_next := Suc (fs_next u)\<rparr>)"
    for u v
  proof -
    let ?w = "(?new (fs_next u) u)\<lparr>fs_next := Suc (fs_next u)\<rparr>"
    have new: "fs_lookup u q \<noteq> Some (NFile (fs_next u))" for q
      using wf_fs_bound [OF that(1)] by blast
    have "wf_fs ?w"
      by (rule wf_fsI) (use that(1) in \<open>auto simp: wf_fs_distinct dest: wf_fs_inj wf_fs_bound less_SucI\<close>)
    then have "wf_fs v"
      unfolding that(3) by (rule wf_fs_link_file) (use new in auto)
    moreover have "view ?w = view u"
      using new by (auto simp: view_def fun_eq_iff split: option.split node.split)
    then have "view v = (view u)(p \<mapsto> File [])"
      using assms(2) that(3) by (simp add: view_link_file)
    ultimately show ?thesis
      using that assms(2) by (auto simp: changes_at_def writing_def fs_lookup_link)
  qed
  show ?thesis
  proof (cases rule: fs_op_cases [of "\<lambda>s.
      case fs_lookup s p of
        Some NDir \<Rightarrow> (Inl is_a_directory_error, s)
      | Some (NFile i) \<Rightarrow> (Inr i, ?new i s)
      | None \<Rightarrow>
         if fs_lookup s (butlast p) = Some NDir
         then
           (let i = fs_next s in
            (Inr i, fs_link p (NFile i)
               (s\<lparr>fs_data := (fs_data s)(i := []), fs_pending := (fs_pending s)(i := []),
                  fs_mtime := (fs_mtime s)(i := fs_clock s), fs_next := Suc i\<rparr>)))
         else (Inl not_found_error, s)" s])
    case (fault e u)
    then show ?thesis
      using assms changes_at_faults [OF assms(1) fault(2)] faults_same(1) [OF fault(2)]
      by (auto simp: create_file_def Let_def)
  next
    case (run s')
    have wf: "wf_fs s'" and same: "view s' = view s"
      using assms(1) faults_same(1,2) [OF run(2)] by simp_all
    have tr: "changes_at p s' t \<Longrightarrow> changes_at p s t"
      using changes_at_trans changes_at_faults [OF assms(1) run(2)] by blast
    have "(r, t) = (case fs_lookup s' p of
        Some NDir \<Rightarrow> (Inl is_a_directory_error, s')
      | Some (NFile i) \<Rightarrow> (Inr i, ?new i s')
      | None \<Rightarrow>
         if fs_lookup s' (butlast p) = Some NDir
         then (Inr (fs_next s'), fs_link p (NFile (fs_next s')) ((?new (fs_next s') s')\<lparr>fs_next := Suc (fs_next s')\<rparr>))
         else (Inl not_found_error, s'))"
      using trans [OF run(1) [symmetric, unfolded Let_def] assms(3) [unfolded create_file_def Let_def]]
      by (rule sym)
    then show ?thesis
      using wf same tr trunc [OF wf] fresh [OF wf] changes_at_refl [OF wf]
      by (auto split: option.splits node.splits if_splits)
  qed
qed

lemma writing_settle:
  assumes "writing p i bs s"
  shows "changes_at p s (settle i s)" and "writing p i bs (settle i s)"
    and "view (settle i s) p = Some (File bs)" and "fs_pending (settle i s) i = []"
proof -
  have wf: "wf_fs s" and p: "fs_lookup s p = Some (NFile i)" and bs: "fs_data s i @ fs_pending s i = bs"
    using assms by (simp_all add: writing_def)
  have "view (settle i s) = view (s\<lparr>fs_data := (fs_data s)(i := fs_data s i @ fs_pending s i)\<rparr>)"
    by (rule view_cong) (simp_all add: settle_def)
  then have v: "view (settle i s) = (view s)(p \<mapsto> File bs)"
    using wf p bs by (simp add: view_data)
  have w: "wf_fs (settle i s)"
    using wf by (rule wf_fs_cong) (simp_all add: settle_def)
  have l: "fs_lookup (settle i s) = fs_lookup s"
    by (simp add: settle_def)
  show "changes_at p s (settle i s)"
    unfolding changes_at_def using v w p by auto
  show "writing p i bs (settle i s)" "view (settle i s) p = Some (File bs)" "fs_pending (settle i s) i = []"
    using v w p l bs by (simp_all add: writing_def settle_def)
qed

lemma writing_settle_partly:
  assumes "writing p i bs s"
  shows "changes_at p s (settle_partly n i s)"
proof -
  have wf: "wf_fs s" and p: "fs_lookup s p = Some (NFile i)"
    using assms by (simp_all add: writing_def)
  have "view (settle_partly n i s) = view (s\<lparr>fs_data := (fs_data s)(i := fs_data s i @ take n (fs_pending s i))\<rparr>)"
    by (rule view_cong) (simp_all add: settle_partly_def)
  then have v: "view (settle_partly n i s) = (view s)(p \<mapsto> File (fs_data s i @ take n (fs_pending s i)))"
    using wf p by (simp add: view_data)
  have w: "wf_fs (settle_partly n i s)"
    using wf by (rule wf_fs_cong) (simp_all add: settle_partly_def)
  show ?thesis
    unfolding changes_at_def using v w p by auto
qed

lemma writing_pending:
  assumes "wf_fs s" and "fs_lookup s p = Some (NFile i)"
  shows "changes_at p s (s\<lparr>fs_pending := (fs_pending s)(i := bs)\<rparr>)"
    and "writing p i (fs_data s i @ bs) (s\<lparr>fs_pending := (fs_pending s)(i := bs)\<rparr>)"
proof -
  have w: "wf_fs (s\<lparr>fs_pending := (fs_pending s)(i := bs)\<rparr>)"
    using assms(1) by (rule wf_fs_cong) simp_all
  then show "changes_at p s (s\<lparr>fs_pending := (fs_pending s)(i := bs)\<rparr>)"
    by (rule changes_at_same) (rule view_cong, simp_all)
  show "writing p i (fs_data s i @ bs) (s\<lparr>fs_pending := (fs_pending s)(i := bs)\<rparr>)"
    using w assms by (simp add: writing_def)
qed

lemma writing_faults: "writing p i bs s \<Longrightarrow> t = s\<lparr>fs_faults := fs_faults t\<rparr> \<Longrightarrow> writing p i bs t"
  unfolding writing_def using faults_same(2-5) [of t s] by simp

lemma write_all_view:
  assumes "writing p i bs s" and "write_all i new s = (r, t)"
  shows "changes_at p s t \<and> (case r of Inr _ \<Rightarrow> writing p i (bs @ new) t | Inl _ \<Rightarrow> True)"
proof -
  obtain d s' where d: "draw s = (d, s')" and s': "s' = s\<lparr>fs_faults := fs_faults s'\<rparr>"
    by (rule draw_cases)
  have w: "writing p i bs s'"
    using writing_faults [OF assms(1) s'] .
  have c: "changes_at p s s'"
    using assms(1) s' by (intro changes_at_faults) (simp_all only: writing_def)
  have wf: "wf_fs u" and l: "fs_lookup u p = Some (NFile i)" if "writing p i b u" for b u
    using that by (simp_all add: writing_def)
  show ?thesis
  proof (cases d)
    case None
    have data: "fs_data (settle i s') i = bs"
      using w by (simp add: settle_def writing_def)
    show ?thesis
      using assms(2) d None data c writing_settle(1,2) [OF w]
        writing_pending [OF wf [OF writing_settle(2) [OF w]] l [OF writing_settle(2) [OF w]], of new]
      by (auto simp: write_all_def Let_def intro: changes_at_trans)
  next
    case (Some f)
    then show ?thesis
      using assms(2) d c writing_pending [OF wf [OF w] l [OF w], of "fs_pending s' i @ new"]
        writing_settle_partly [of p i _ "s'\<lparr>fs_pending := (fs_pending s')(i := fs_pending s' i @ new)\<rparr>" "snd f"]
      by (cases f) (auto simp: write_all_def intro: changes_at_trans)
  qed
qed

lemma flush_file_view:
  assumes "writing p i bs s" and "flush_file i s = (r, t)"
  shows "changes_at p s t \<and>
    (case r of Inr _ \<Rightarrow> writing p i bs t \<and> view t p = Some (File bs) \<and> fs_pending t i = [] | Inl _ \<Rightarrow> True)"
proof -
  obtain d s' where d: "draw s = (d, s')" and s': "s' = s\<lparr>fs_faults := fs_faults s'\<rparr>"
    by (rule draw_cases)
  have w: "writing p i bs s'"
    using writing_faults [OF assms(1) s'] .
  have c: "changes_at p s s'"
    using assms(1) s' by (intro changes_at_faults) (simp_all only: writing_def)
  show ?thesis
    using assms(2) d c writing_settle [OF w] writing_settle_partly [OF w]
    by (cases d) (auto simp: flush_file_def intro: changes_at_trans)
qed

lemma rename_file_view:
  assumes "wf_fs s" and "view s p = Some (File b)" and "p \<noteq> q" and "p \<noteq> []" and "q \<noteq> []"
    and "rename_file p q s = (r, t)"
  shows "wf_fs t \<and>
    (case r of
       Inr _ \<Rightarrow> view t = (view s)(p := None, q \<mapsto> File b) \<and> view s q \<noteq> Some Dir
     | Inl _ \<Rightarrow> view t = view s)"
proof (cases rule: fs_op_cases [of "\<lambda>s.
     case fs_lookup s p of
       None \<Rightarrow> (Inl not_found_error, s)
     | Some n \<Rightarrow>
         (case fs_lookup s q of
            Some NDir \<Rightarrow> (Inl is_a_directory_error, s)
          | _ \<Rightarrow>
              if fs_lookup s (butlast q) = Some NDir
              then (Inr (), if p = q then s else fs_link q n (fs_unlink p s))
              else (Inl not_found_error, s))" s])
  case (fault e u)
  then show ?thesis
    using assms(1,6) faults_same(1,2) [OF fault(2)] by (auto simp: rename_file_def)
next
  case (run s')
  note same = faults_same(1-4) [OF run(2)]
  obtain i where i: "fs_lookup s' p = Some (NFile i)" "fs_data s' i = b"
    using assms(2) same by (auto simp: view_def split: option.splits node.splits)
  let ?moved = "fs_link q (NFile i) (fs_unlink p s')"
  have wf: "wf_fs s'"
    using assms(1) same by simp
  have "wf_fs ?moved"
    by (rule wf_fs_link_file)
      (use wf i wf_fs_inj [OF wf] in \<open>auto simp: wf_fs_unlink fs_lookup_unlink dest: wf_fs_bound split: if_splits\<close>)
  moreover have "view ?moved = (view s')(p := None, q \<mapsto> File b)"
    using assms(3-5) i(2) by (simp add: view_link_file view_unlink)
  ultimately show ?thesis
    using run(1) assms(3,6) i same wf
    by (auto simp: rename_file_def split: option.splits node.splits if_splits)
qed

lemma remove_file_view:
  assumes "wf_fs s" and "p \<noteq> []" and "remove_file p s = (r, t)"
  shows "wf_fs t \<and> (case r of Inr _ \<Rightarrow> view t = (view s)(p := None) \<and> view s p \<noteq> Some Dir | Inl _ \<Rightarrow> view t = view s)"
proof (cases rule: fs_op_cases [of "\<lambda>s.
     case fs_lookup s p of
       None \<Rightarrow> (Inl not_found_error, s)
     | Some NDir \<Rightarrow> (Inl is_a_directory_error, s)
     | Some (NFile _) \<Rightarrow> (Inr (), fs_unlink p s)" s])
  case (fault e u)
  then show ?thesis
    using assms faults_same(1,2) [OF fault(2)] by (auto simp: remove_file_def)
next
  case (run s')
  then show ?thesis
    using assms faults_same(1-3) [OF run(2)]
    by (auto simp: remove_file_def wf_fs_unlink view_unlink split: option.splits node.splits)
qed

lemma remove_file_changes:
  assumes "wf_fs s" and "p \<noteq> []"
  shows "changes_at p s (snd (remove_file p s))"
proof (cases "remove_file p s")
  case (Pair r t)
  from remove_file_view [OF assms Pair] show ?thesis
    unfolding Pair snd_conv by (cases r) (auto simp: changes_at_same, auto simp: changes_at_def)
qed

section \<open>Checking a concrete file system\<close>

fun inodes :: "(path \<times> node) list \<Rightarrow> nat list" where
  "inodes [] = []"
| "inodes ((p, NFile i) # nodes) = i # inodes nodes"
| "inodes ((p, NDir) # nodes) = inodes nodes"

lemma map_of_inodes: "map_of nodes p = Some (NFile i) \<Longrightarrow> i \<in> set (inodes nodes)"
  by (induction nodes rule: inodes.induct) (auto split: if_splits)

lemma distinct_inodes:
  "distinct (inodes nodes) \<Longrightarrow> map_of nodes p = Some (NFile i) \<Longrightarrow> map_of nodes q = Some (NFile i) \<Longrightarrow> p = q"
  by (induction nodes rule: inodes.induct) (auto split: if_splits dest: map_of_inodes)

lemma wf_fs_check:
  assumes "distinct (map fst (fs_nodes s))" and "distinct (inodes (fs_nodes s))"
    and "list_all (\<lambda>i. i < fs_next s) (inodes (fs_nodes s))"
  shows "wf_fs s"
proof (rule wf_fsI [OF assms(1)])
  have node: "map_of (fs_nodes s) p = Some (NFile i)" if "fs_lookup s p = Some (NFile i)" for p i
    using that by (simp add: fs_lookup_def split: if_splits)
  show "p = q" if "fs_lookup s p = Some (NFile i)" "fs_lookup s q = Some (NFile i)" for p q i
    using distinct_inodes [OF assms(2) node node] that by blast
  show "i < fs_next s" if "fs_lookup s p = Some (NFile i)" for p i
    using map_of_inodes [OF node [OF that]] assms(3) by (simp add: list_all_iff)
qed

end
