(* ===== verification/CacheFormat.thy ===== *)
theory CacheFormat
  imports FileView
begin

text \<open>
  \<^verbatim>\<open>src/cache.rs\<close>, the on-disk format: cache keys and the file names made of them, and the packed
  entry (body, metadata, four-byte length footer).  The JSON codec of \<^verbatim>\<open>serde_json\<close> and the digest
  (\<^verbatim>\<open>sha2\<close> with \<^verbatim>\<open>hex\<close>) are parameters.
\<close>

named_theorems format_defs \<open>definitions of the packed entry format\<close>

section \<open>Stored metadata\<close>

record stored_response_meta =
  meta_headers :: "(string \<times> string) list"
  meta_last_modified :: "string option"
  meta_etag :: "string option"
  meta_status :: u16

text \<open>\<^verbatim>\<open>serde_json::to_vec\<close> and \<^verbatim>\<open>serde_json::from_slice\<close> at type \<^verbatim>\<open>StoredResponseMeta\<close>.\<close>

record meta_codec =
  codec_to_vec :: "stored_response_meta \<Rightarrow> string + bytes"
  codec_from_slice :: "bytes \<Rightarrow> string + stored_response_meta"

definition codec_round_trip :: "meta_codec \<Rightarrow> stored_response_meta \<Rightarrow> bool" where
  "codec_round_trip C meta \<longleftrightarrow>
     (case codec_to_vec C meta of Inl _ \<Rightarrow> True | Inr b \<Rightarrow> codec_from_slice C b = Inr meta)"

definition FOOTER_LEN :: nat where "FOOTER_LEN = 4"

definition MAX_META_LEN :: nat where "MAX_META_LEN = 1048576"

definition invalid_data :: "string \<Rightarrow> io_error" where
  "invalid_data msg = IoError InvalidData msg"

definition serialize_meta :: "meta_codec \<Rightarrow> stored_response_meta \<Rightarrow> bytes io_result" where
  [format_defs]: "serialize_meta C meta =
     (case codec_to_vec C meta of
        Inl e \<Rightarrow> Inl (invalid_data e)
      | Inr bs \<Rightarrow>
          if length bs > MAX_META_LEN then Inl (invalid_data ''metadata too large'') else Inr bs)"

text \<open>\<^verbatim>\<open>u32::try_from\<close> of a length.\<close>

definition meta_len_u32 :: "bytes \<Rightarrow> u32 io_result" where
  [format_defs]: "meta_len_u32 bs =
     (if length bs < 2 ^ 32 then Inr (of_nat (length bs))
      else Inl (invalid_data ''metadata too large''))"

definition pack_footer :: "meta_codec \<Rightarrow> bytes \<Rightarrow> stored_response_meta \<Rightarrow> bytes io_result" where
  [format_defs]: "pack_footer C body meta =
     (case serialize_meta C meta of
        Inl e \<Rightarrow> Inl e
      | Inr meta_bytes \<Rightarrow>
          (case meta_len_u32 meta_bytes of
             Inl e \<Rightarrow> Inl e
           | Inr meta_len \<Rightarrow> Inr (body @ meta_bytes @ to_be_bytes meta_len)))"

definition footer_geometry :: "u64 \<Rightarrow> bytes \<Rightarrow> (u64 \<times> usize) io_result" where
  "footer_geometry total_size footer =
     (let meta_len = (ucast (from_be_bytes footer) :: usize) in
      if unat meta_len > MAX_META_LEN
      then Inl (invalid_data ''cache entry metadata length exceeds sanity cap'')
      else
        (let available = total_size - of_nat FOOTER_LEN in
         if meta_len > available
         then Inl (invalid_data ''cache entry metadata length exceeds file size'')
         else Inr (available - meta_len, meta_len)))"

definition parse_meta :: "meta_codec \<Rightarrow> bytes \<Rightarrow> stored_response_meta io_result" where
  "parse_meta C bs =
     (case codec_from_slice C bs of Inl e \<Rightarrow> Inl (invalid_data e) | Inr m \<Rightarrow> Inr m)"

definition short_footer_err :: io_error where
  "short_footer_err = invalid_data ''cache entry shorter than footer''"

definition read_footer :: "meta_codec \<Rightarrow> nat \<Rightarrow> (fs, stored_response_meta \<times> u64) io" where
  "read_footer C i =
     io_bind (file_len i) (\<lambda>size.
     if unat size < FOOTER_LEN then io_fail short_footer_err
     else
       io_bind (read_exact_at i (size - of_nat FOOTER_LEN) FOOTER_LEN) (\<lambda>footer.
       io_bind (io_lift (footer_geometry size footer)) (\<lambda>(body_len, meta_len).
       io_bind (read_exact_at i body_len (unat meta_len)) (\<lambda>meta_bytes.
       io_bind (io_lift (parse_meta C meta_bytes)) (\<lambda>meta.
       io_return (meta, body_len))))))"

record stored_entry =
  entry_file :: nat
  entry_body_len :: u64
  entry_meta :: stored_response_meta

definition read_body :: "stored_entry \<Rightarrow> (fs, bytes) io" where
  "read_body entry = read_exact_at (entry_file entry) 0 (unat (entry_body_len entry))"

section \<open>Keys and file names\<close>

definition CACHE_MARKER :: string where "CACHE_MARKER = ''.vampire-cache-v1''"

definition valid_hex :: "string \<Rightarrow> nat \<Rightarrow> bool" where
  "valid_hex v len \<longleftrightarrow>
     length v = len \<and> list_all (\<lambda>b. is_ascii_digit b \<or> between (CHR ''a'') (CHR ''f'') b) v"

definition valid_key :: "string \<Rightarrow> string \<Rightarrow> bool" where
  "valid_key key shard \<longleftrightarrow> valid_hex key 64 \<and> prefix shard key"

definition legacy_key :: "string \<Rightarrow> string \<Rightarrow> string option" where
  "legacy_key name shard =
     (case (case strip_suffix ''.json'' name of
              Some k \<Rightarrow> Some k
            | None \<Rightarrow> strip_suffix ''.body'' name) of
        None \<Rightarrow> None
      | Some key \<Rightarrow> if valid_key key shard then Some key else None)"

definition temp_key :: "string \<Rightarrow> string \<Rightarrow> string option" where
  "temp_key name shard =
     (case strip_suffix ''.part'' name of
        None \<Rightarrow> None
      | Some without_suffix \<Rightarrow>
          if valid_key without_suffix shard then Some without_suffix
          else
            (case rsplit_once ''.part.'' without_suffix of
               None \<Rightarrow> None
             | Some (key, counter) \<Rightarrow>
                 if valid_key key shard \<and> counter \<noteq> [] \<and> list_all is_ascii_digit counter
                 then Some key else None))"

text \<open>The bytes that are hashed, and the key; \<open>D\<close> is the hexadecimal SHA-256 digest.\<close>

definition key_preimage :: "string \<Rightarrow> string \<Rightarrow> string option \<Rightarrow> bytes" where
  "key_preimage class upstream representation =
     class @ [CHR 0x00] @ upstream @ [CHR 0x00] @
     (case representation of None \<Rightarrow> [] | Some r \<Rightarrow> r @ [CHR 0x00])"

definition hash_key :: "(bytes \<Rightarrow> string) \<Rightarrow> string \<Rightarrow> string \<Rightarrow> string option \<Rightarrow> string" where
  "hash_key D class upstream representation = D (key_preimage class upstream representation)"

definition artifact_key :: "(bytes \<Rightarrow> string) \<Rightarrow> string \<Rightarrow> string" where
  "artifact_key D upstream = hash_key D ''artifact'' upstream None"

definition metadata_key :: "(bytes \<Rightarrow> string) \<Rightarrow> string \<Rightarrow> string \<Rightarrow> string" where
  "metadata_key D upstream representation = hash_key D ''metadata'' upstream (Some representation)"

record cache_paths =
  paths_body :: path
  paths_temp :: path

text \<open>\<^verbatim>\<open>paths_for\<close>, relative to the cache directory.  Keys are 64 bytes long, so the slice does not panic.\<close>

definition paths_for :: "string \<Rightarrow> cache_paths" where
  "paths_for key =
     (let shard = take 2 key in
      \<lparr>paths_body = [shard, key], paths_temp = [shard, key @ ''.part'']\<rparr>)"

text \<open>The name \<^verbatim>\<open>unique_temp_path\<close> gives for the temp path of a key.\<close>

definition unique_temp_path :: "u64 \<Rightarrow> path \<Rightarrow> path" where
  "unique_temp_path suffix_no p =
     butlast p @ [last p @ ''.'' @ decimal (unat suffix_no) @ ''.part'']"

section \<open>Lemmas\<close>

lemma digest_chars_no_dot: "valid_hex v n \<Longrightarrow> CHR ''.'' \<notin> set v"
  by (auto simp: valid_hex_def list_all_iff is_ascii_digit_def)

lemma valid_key_no_dot: "valid_key key shard \<Longrightarrow> CHR ''.'' \<notin> set key"
  by (auto simp: valid_key_def dest: digest_chars_no_dot)

lemma strip_suffix_no_dot:
  "CHR ''.'' \<notin> set s \<Longrightarrow> CHR ''.'' \<in> set p \<Longrightarrow> strip_suffix p s = None"
  by (auto simp: strip_suffix_None suffix_def)

lemma valid_key_not_legacy: "valid_key name shard \<Longrightarrow> legacy_key name shard = None"
  by (simp add: legacy_key_def strip_suffix_no_dot valid_key_no_dot)

lemma valid_key_not_temp: "valid_key name shard \<Longrightarrow> temp_key name shard = None"
  by (simp add: temp_key_def strip_suffix_no_dot valid_key_no_dot)

lemma decimal_no_dot: "CHR ''.'' \<notin> set (decimal n)"
  using decimal_digits [of "CHR ''.''" n] by (auto simp: is_ascii_digit_def)

lemma counter_not_in_part_suffix: "CHR ''.'' \<notin> set d \<Longrightarrow> \<not> contains_str ''.part.'' (tl (''.part.'' @ d))"
proof
  assume d: "CHR ''.'' \<notin> set d" and "contains_str ''.part.'' (tl (''.part.'' @ d))"
  then obtain a b where eq: "''part.'' @ d = a @ ''.part.'' @ b"
    by (auto simp: contains_str_iff)
  have "count_list (''part.'' @ d) CHR ''.'' = 1"
    using d by (simp add: count_list_0_iff)
  moreover have "2 \<le> count_list (a @ ''.part.'' @ b) CHR ''.''"
    by (simp add: count_list_append)
  ultimately show False
    unfolding eq by linarith
qed

text \<open>The temp files of both kinds are recognised as such.\<close>

lemma temp_key_artifact: "valid_key key shard \<Longrightarrow> temp_key (key @ ''.part'') shard = Some key"
  by (simp add: temp_key_def strip_suffix_append [of "''.part''", simplified])

lemma temp_key_metadata:
  assumes "valid_key key shard"
  shows "temp_key (key @ ''.part.'' @ decimal n @ ''.part'') shard = Some key"
proof -
  have strip: "strip_suffix ''.part'' (key @ ''.part.'' @ decimal n @ ''.part'') = Some (key @ ''.part.'' @ decimal n)"
    using strip_suffix_append [of "''.part''" "key @ ''.part.'' @ decimal n"] by simp
  have "\<not> valid_key (key @ ''.part.'' @ decimal n) shard"
    using valid_key_no_dot [of "key @ ''.part.'' @ decimal n" shard] by auto
  moreover have "rsplit_once ''.part.'' (key @ ''.part.'' @ decimal n) = Some (key, decimal n)"
    by (intro rsplit_once_last counter_not_in_part_suffix decimal_no_dot) simp
  ultimately show ?thesis
    using assms strip by (simp add: temp_key_def list_all_iff decimal_digits)
qed

lemma split_at_nul_inj:
  "a @ [CHR 0x00] @ b = a' @ [CHR 0x00] @ b' \<Longrightarrow> CHR 0x00 \<notin> set a \<Longrightarrow> CHR 0x00 \<notin> set a' \<Longrightarrow>
     a = a' \<and> b = b'"
  using split_once_char_Some [of "CHR 0x00" "a @ [CHR 0x00] @ b" a b]
    split_once_char_Some [of "CHR 0x00" "a @ [CHR 0x00] @ b" a' b']
  by auto

lemma key_preimage_inj:
  assumes "key_preimage c u r = key_preimage c' u' r'"
    and "CHR 0x00 \<notin> set c \<union> set u \<union> set c' \<union> set u'"
  shows "c = c' \<and> u = u' \<and> r = r'"
proof -
  let ?t = "\<lambda>r. case r of None \<Rightarrow> [] | Some r \<Rightarrow> r @ [CHR 0x00]"
  have "c = c'" "u @ [CHR 0x00] @ ?t r = u' @ [CHR 0x00] @ ?t r'"
    using assms split_at_nul_inj [of c "u @ [CHR 0x00] @ ?t r" c' "u' @ [CHR 0x00] @ ?t r'"]
    by (simp_all add: key_preimage_def)
  moreover from this assms(2) have "u = u'" "?t r = ?t r'"
    using split_at_nul_inj [of u "?t r" u' "?t r'"] by simp_all
  ultimately show ?thesis
    by (auto split: option.splits)
qed

subsection \<open>The packed entry\<close>

lemma pack_footer_Inr:
  "pack_footer C body meta = Inr packed \<longleftrightarrow>
     (\<exists>mb. codec_to_vec C meta = Inr mb \<and> length mb \<le> MAX_META_LEN
        \<and> packed = body @ mb @ to_be_bytes (of_nat (length mb)))"
  by (auto simp: format_defs MAX_META_LEN_def split: sum.splits if_splits)

lemma unat_ucast_len:
  "n \<le> MAX_META_LEN \<Longrightarrow> unat (ucast (of_nat n :: u32) :: usize) = n"
  by (simp add: MAX_META_LEN_def unsigned_ucast_eq unat_of_nat take_bit_eq_mod)

lemma footer_geometry_Inr:
  assumes "footer_geometry sz footer = Inr (b, m)" and "FOOTER_LEN \<le> unat sz"
  shows "unat b + unat m + FOOTER_LEN = unat sz \<and> unat m \<le> MAX_META_LEN"
proof -
  have avail: "unat (sz - of_nat FOOTER_LEN) = unat sz - FOOTER_LEN"
    using assms(2) by (simp add: FOOTER_LEN_def unat_sub word_le_nat_alt)
  from assms(1) have m: "unat m \<le> MAX_META_LEN" "m \<le> sz - of_nat FOOTER_LEN"
    and b: "b = sz - of_nat FOOTER_LEN - m"
    by (auto simp: footer_geometry_def Let_def split: if_splits)
  then have "unat b = unat sz - FOOTER_LEN - unat m"
    by (simp add: unat_sub avail)
  with m avail assms(2) show ?thesis
    by (simp add: word_le_nat_alt)
qed

lemma footer_geometry_error:
  "footer_geometry sz footer = Inl e \<Longrightarrow> kind e = InvalidData"
  by (auto simp: footer_geometry_def Let_def invalid_data_def split: if_splits)

lemma footer_geometry_packed:
  assumes "m \<le> MAX_META_LEN" and "n + m + FOOTER_LEN < 2 ^ 64"
  shows "footer_geometry (of_nat (n + m + FOOTER_LEN)) (to_be_bytes (of_nat m)) = Inr (of_nat n, of_nat m)"
proof -
  let ?t = "of_nat (n + m + FOOTER_LEN) :: u64"
  have len: "unat (ucast (of_nat m :: u32) :: usize) = m"
    using assms(1) by (rule unat_ucast_len)
  then have m: "(ucast (of_nat m :: u32) :: usize) = of_nat m"
    using assms by (intro word_unat_eq_iff [THEN iffD2]) (simp add: unat_of_nat MAX_META_LEN_def)
  have "?t - of_nat FOOTER_LEN = of_nat (n + m)"
    by (simp add: FOOTER_LEN_def)
  moreover have "unat (of_nat (n + m) :: u64) = n + m" "unat (of_nat m :: u64) = m"
    using assms(2) by (simp_all add: unat_of_nat del: of_nat_add)
  moreover have "(of_nat (n + m) :: u64) - of_nat m = of_nat n"
    by simp
  ultimately show ?thesis
    using assms(1) m len by (simp add: footer_geometry_def Let_def word_less_nat_alt del: of_nat_add)
qed

text \<open>Without injected failures a read is a function of the bytes of the inode.\<close>

lemma read_exact_at_no_faults:
  "fs_faults s = [] \<Longrightarrow>
     read_exact_at i off n s =
       (if length (fs_data s i) - unat off < n then (Inl unexpected_eof_error, s)
        else (Inr (take n (drop (unat off) (fs_data s i))), s))"
  by (auto simp: read_exact_at_def fs_op_no_faults Let_def)

lemma file_len_no_faults:
  "fs_faults s = [] \<Longrightarrow> file_len i s = (Inr (of_nat (length (fs_data s i))), s)"
  by (simp add: file_len_def fs_op_no_faults)

lemma u64_len: "n < 2 ^ 64 \<Longrightarrow> unat (of_nat n :: u64) = n"
  by (simp add: unat_of_nat)

text \<open>
  What makes the bytes of a file an entry: some body of length \<open>n\<close>, then metadata that parses, then its
  length.
\<close>

definition entry_form :: "meta_codec \<Rightarrow> bytes \<Rightarrow> nat \<Rightarrow> stored_response_meta \<Rightarrow> bool" where
  "entry_form C bs n meta \<longleftrightarrow>
     (\<exists>body mb. bs = body @ mb @ to_be_bytes (of_nat (length mb)) \<and> length body = n
        \<and> length mb \<le> MAX_META_LEN \<and> codec_from_slice C mb = Inr meta)"

lemma read_footer_form:
  assumes "fs_faults s = []" and "length (fs_data s i) < 2 ^ 64" and "entry_form C (fs_data s i) n meta"
  shows "read_footer C i s = (Inr (meta, of_nat n), s)"
proof -
  from assms(3) obtain body mb where mb: "codec_from_slice C mb = Inr meta" "length mb \<le> MAX_META_LEN"
    and packed: "fs_data s i = body @ mb @ to_be_bytes (of_nat (length mb))" and n: "n = length body"
    unfolding entry_form_def by blast
  let ?n = "length body" and ?m = "length mb" and ?packed = "fs_data s i"
  have len: "length ?packed = ?n + ?m + FOOTER_LEN"
    by (simp add: packed FOOTER_LEN_def)
  note bound = assms(2) [unfolded len]
  have size: "unat (of_nat (length ?packed) :: u64) = ?n + ?m + FOOTER_LEN"
    using u64_len [OF assms(2)] len by simp
  have pos: "unat ((of_nat (length ?packed) :: u64) - of_nat FOOTER_LEN) = ?n + ?m"
  proof -
    have "(of_nat (length ?packed) :: u64) - of_nat FOOTER_LEN = of_nat (?n + ?m)"
      by (simp add: len FOOTER_LEN_def)
    with bound show ?thesis
      by (simp add: u64_len FOOTER_LEN_def del: of_nat_add)
  qed
  have footer: "read_exact_at i (of_nat (length ?packed) - of_nat FOOTER_LEN) FOOTER_LEN s
      = (Inr (to_be_bytes (of_nat ?m)), s)"
    unfolding read_exact_at_no_faults [OF assms(1)] pos
    by (simp add: packed FOOTER_LEN_def)
  have geometry: "footer_geometry (of_nat (length ?packed)) (to_be_bytes (of_nat ?m))
      = Inr (of_nat ?n, of_nat ?m)"
    using mb(2) bound unfolding len by (rule footer_geometry_packed)
  have meta: "read_exact_at i (of_nat ?n) ?m s = (Inr mb, s)"
    using assms(1) bound by (simp add: read_exact_at_no_faults u64_len len) (simp add: packed)
  have "unat (of_nat ?m :: usize) = ?m"
    using bound by (simp add: u64_len)
  with assms(1) mb size footer geometry meta n show ?thesis
    by (simp add: read_footer_def io_bind_def file_len_no_faults io_simps parse_meta_def)
qed

lemma read_footer_packed:
  assumes "fs_faults s = []" and "fs_data s i = packed" and "length packed < 2 ^ 64"
    and "pack_footer C body meta = Inr packed" and "codec_round_trip C meta"
  shows "read_footer C i s = (Inr (meta, of_nat (length body)), s)"
proof -
  obtain mb where "codec_to_vec C meta = Inr mb" "length mb \<le> MAX_META_LEN"
    "packed = body @ mb @ to_be_bytes (of_nat (length mb))"
    using assms(4) by (auto simp: pack_footer_Inr)
  then have "entry_form C (fs_data s i) (length body) meta"
    using assms(2,5) unfolding entry_form_def
    by (intro exI [of _ body] exI [of _ mb]) (simp add: codec_round_trip_def)
  then show ?thesis
    using assms(1-3) by (intro read_footer_form) simp_all
qed

lemma read_body_packed:
  assumes "fs_faults s = []" and "fs_data s (entry_file e) = body @ rest"
    and "entry_body_len e = of_nat (length body)" and "length body < 2 ^ 64"
  shows "read_body e s = (Inr body, s)"
  using assms by (simp add: read_body_def read_exact_at_no_faults u64_len)

text \<open>Reading the footer of any file: an entry, or an error that means "corrupt".\<close>

lemma read_footer_any:
  assumes "fs_faults s = []" and "length (fs_data s i) < 2 ^ 64"
  shows "(\<exists>e. read_footer C i s = (Inl e, s) \<and> kind e = InvalidData)
    \<or> (\<exists>meta body_len. read_footer C i s = (Inr (meta, body_len), s)
         \<and> entry_form C (fs_data s i) (unat body_len) meta)"
proof -
  let ?len = "length (fs_data s i)" and ?size = "of_nat (length (fs_data s i)) :: u64"
  have size: "unat ?size = ?len"
    using assms(2) by (rule u64_len)
  show ?thesis
  proof (cases "?len < FOOTER_LEN")
    case True
    then show ?thesis
      using assms(1) size
      by (simp add: read_footer_def io_bind_def file_len_no_faults io_simps short_footer_err_def
          invalid_data_def)
  next
    case False
    then have pos: "unat (?size - of_nat FOOTER_LEN) = ?len - FOOTER_LEN"
      using size by (simp add: unat_sub word_le_nat_alt FOOTER_LEN_def)
    let ?footer = "take FOOTER_LEN (drop (?len - FOOTER_LEN) (fs_data s i))"
    have footer: "read_exact_at i (?size - of_nat FOOTER_LEN) FOOTER_LEN s = (Inr ?footer, s)"
      using assms(1) False pos by (simp add: read_exact_at_no_faults)
    show ?thesis
    proof (cases "footer_geometry ?size ?footer")
      case (Inl e)
      then show ?thesis
        using assms(1) size False footer footer_geometry_error [OF Inl]
        by (simp add: read_footer_def io_bind_def file_len_no_faults io_simps)
    next
      case (Inr bm)
      obtain b m where bm: "bm = (b, m)"
        by (cases bm)
      with Inr False size have g: "unat b + unat m + FOOTER_LEN = ?len" "unat m \<le> MAX_META_LEN"
        using footer_geometry_Inr [of ?size ?footer b m] by simp_all
      let ?mb = "take (unat m) (drop (unat b) (fs_data s i))"
      have form: "entry_form C (fs_data s i) (unat b) meta" if "codec_from_slice C ?mb = Inr meta" for meta
      proof -
        have len: "length ?mb = unat m"
          using g(1) by simp
        have "m = ucast (from_be_bytes ?footer)"
          using Inr bm by (auto simp: footer_geometry_def Let_def split: if_splits)
        moreover have "unat (from_be_bytes ?footer) < 4294967296"
          using unat_less_2p [of "from_be_bytes ?footer"] by simp
        ultimately have "(of_nat (unat m) :: u32) = from_be_bytes ?footer"
          by (simp add: unsigned_ucast_eq word_unat_eq_iff unat_of_nat take_bit_eq_mod)
        then have "to_be_bytes (of_nat (length ?mb)) = ?footer"
          using False len by (simp add: to_from_be_bytes FOOTER_LEN_def)
        moreover have "fs_data s i = take (unat b) (fs_data s i) @ ?mb @ ?footer"
        proof -
          have "drop (?len - FOOTER_LEN) (fs_data s i) = drop (unat m) (drop (unat b) (fs_data s i))"
            using g(1) by (simp add: drop_drop FOOTER_LEN_def) (metis add.commute add_diff_cancel_right')
          then show ?thesis
            by (metis append_take_drop_id drop_eq_Nil2 le_refl length_drop take_all FOOTER_LEN_def False diff_diff_cancel not_less)
        qed
        ultimately show ?thesis
          unfolding entry_form_def using that g len by (intro exI [of _ "take (unat b) (fs_data s i)"] exI [of _ ?mb]) simp
      qed
      have "read_exact_at i b (unat m) s = (Inr ?mb, s)"
        using assms(1) g(1) by (simp add: read_exact_at_no_faults)
      then show ?thesis
        using assms(1) size False footer Inr bm form
        by (cases "codec_from_slice C ?mb")
          (simp_all add: read_footer_def io_bind_def file_len_no_faults io_simps parse_meta_def
            invalid_data_def)
    qed
  qed
qed

subsection \<open>Keys\<close>

text \<open>
  Cache keys do not mix.  Two requests share a cache entry only if they are of the same class
  (artifact or metadata), for the same upstream URL and, for metadata, the same representation, or
  else the digest has a collision.  URLs contain no NUL byte.
\<close>

lemma hash_key_separates:
  assumes "hash_key D c u r = hash_key D c' u' r'"
    and "c \<in> {''artifact'', ''metadata''}" and "c' \<in> {''artifact'', ''metadata''}"
    and "CHR 0x00 \<notin> set u" and "CHR 0x00 \<notin> set u'"
  shows "c = c' \<and> u = u' \<and> r = r' \<or> (\<exists>x y. x \<noteq> y \<and> D x = D y)"
proof (cases "key_preimage c u r = key_preimage c' u' r'")
  case True
  with assms(2-5) show ?thesis
    by (intro disjI1 key_preimage_inj) auto
next
  case False
  with assms(1) show ?thesis
    unfolding hash_key_def by blast
qed

section \<open>Concrete values\<close>

text \<open>A codec, a key and metadata, for the instances of theorems below.\<close>

definition sample_meta :: stored_response_meta where
  "sample_meta = \<lparr>meta_headers = [(''etag'', ''1'')], meta_last_modified = None, meta_etag = Some ''1'',
                  meta_status = 200\<rparr>"

definition sample_codec :: meta_codec where
  "sample_codec =
     \<lparr>codec_to_vec = (\<lambda>m. if m = sample_meta then Inr ''{etag:1}'' else Inl ''unsupported''),
      codec_from_slice = (\<lambda>b. if b = ''{etag:1}'' then Inr sample_meta else Inl ''expected value'')\<rparr>"

definition sample_key :: string where
  "sample_key = concat (replicate 16 ''ab01'')"

definition other_key :: string where
  "other_key = concat (replicate 16 ''cd01'')"

lemma sample_codec_round_trip: "codec_round_trip sample_codec m"
  by (simp add: codec_round_trip_def sample_codec_def)

end
