(* ===== verification/Cache.thy ===== *)
theory Cache
  imports CacheFormat
begin

text \<open>
  \<^verbatim>\<open>src/cache.rs\<close>, the store: loading and publishing entries, publication pins, eviction, the startup
  scans of the cache directory and the reservation of metadata memory.  The state of a \<^verbatim>\<open>CacheStore\<close>
  is one record; the fields of the inflight map and of the semaphores are used by \<open>Inflight\<close>.

  Locks are not modelled as data: every definition here runs while it holds the locks the code takes,
  and the interleaving of operations is the subject of \<open>Inflight\<close>.  A drop guard's spawned cleanup runs
  right after the operation that dropped the guard.
\<close>

named_theorems store_simps \<open>the effect of store operations on the fields of the state\<close>

section \<open>State\<close>

record published_entry =
  pub_key :: string
  pub_pin :: nat

datatype inflight_outcome =
    Cached published_entry
  | Response stored_response_meta bytes
  | Failed error_kind string

text \<open>
  \<open>st_pins\<close> maps a key to the pin of its latest publication (a weak reference), \<open>st_pin_refs\<close> counts the
  owners of a publication, \<open>st_janitor_queue\<close> is the length of the capacity-one queue, and
  \<open>st_outcomes\<close> holds the outcome of every \<^verbatim>\<open>Inflight\<close> object by its identity.
\<close>

record store =
  st_fs :: fs
  st_max_cache_size :: u64
  st_inflight :: "string \<rightharpoonup> nat"
  st_outcomes :: "nat \<Rightarrow> inflight_outcome option"
  st_next_inflight :: nat
  st_pins :: "string \<rightharpoonup> nat"
  st_pin_refs :: "nat \<Rightarrow> nat"
  st_next_pin :: nat
  st_janitor_queue :: nat
  st_temp_counter :: u64
  st_upstream_permits :: nat
  st_memory_permits :: nat

definition METADATA_MEMORY_BUDGET_MIB :: nat where "METADATA_MEMORY_BUDGET_MIB = 1024"

definition empty_store :: "fs \<Rightarrow> u64 \<Rightarrow> nat \<Rightarrow> store" where
  "empty_store f max_cache_size max_upstream_fetches =
     \<lparr>st_fs = f, st_max_cache_size = max_cache_size, st_inflight = Map.empty,
      st_outcomes = (\<lambda>_. None), st_next_inflight = 0, st_pins = Map.empty,
      st_pin_refs = (\<lambda>_. 0), st_next_pin = 0, st_janitor_queue = 0, st_temp_counter = 0,
      st_upstream_permits = max_upstream_fetches,
      st_memory_permits = METADATA_MEMORY_BUDGET_MIB\<rparr>"

definition on_fs :: "(fs, 'a) io \<Rightarrow> (store, 'a) io" where
  "on_fs m = (\<lambda>s. case m (st_fs s) of (r, f) \<Rightarrow> (r, s\<lparr>st_fs := f\<rparr>))"

section \<open>Loading\<close>

definition load :: "meta_codec \<Rightarrow> string \<Rightarrow> (store, stored_entry option) io" where
  "load C key =
     io_try (on_fs (open_file (paths_body (paths_for key)))) (\<lambda>r.
     case r of
       Inl e \<Rightarrow> if kind e = NotFound then io_return None else io_fail e
     | Inr file \<Rightarrow>
         io_try (on_fs (read_footer C file)) (\<lambda>r.
         case r of
           Inr (meta, body_len) \<Rightarrow>
             io_return (Some \<lparr>entry_file = file, entry_body_len = body_len, entry_meta = meta\<rparr>)
         | Inl e \<Rightarrow> if kind e = InvalidData then io_return None else io_fail e))"

section \<open>Pins\<close>

definition pin :: "string \<Rightarrow> store \<Rightarrow> published_entry \<times> store" where
  "pin key s =
     (let i = st_next_pin s in
      (\<lparr>pub_key = key, pub_pin = i\<rparr>,
       s\<lparr>st_pins := (st_pins s)(key \<mapsto> i), st_pin_refs := (st_pin_refs s)(i := 1),
         st_next_pin := Suc i\<rparr>))"

text \<open>Cloning a \<^verbatim>\<open>PublishedEntry\<close>, and dropping one; the last drop releases the pin it still owns.\<close>

definition clone_published :: "published_entry \<Rightarrow> store \<Rightarrow> store" where
  "clone_published p s = s\<lparr>st_pin_refs := (st_pin_refs s)(pub_pin p := Suc (st_pin_refs s (pub_pin p)))\<rparr>"

definition request_eviction :: "store \<Rightarrow> store" where
  "request_eviction s = (if st_janitor_queue s < 1 then s\<lparr>st_janitor_queue := 1\<rparr> else s)"

definition release_pin :: "published_entry \<Rightarrow> store \<Rightarrow> store" where
  "release_pin p s =
     (if st_pins s (pub_key p) = Some (pub_pin p)
      then request_eviction (s\<lparr>st_pins := (st_pins s)(pub_key p := None)\<rparr>)
      else s)"

definition drop_published :: "published_entry \<Rightarrow> store \<Rightarrow> store" where
  "drop_published p s =
     (let n = st_pin_refs s (pub_pin p) - 1;
          t = s\<lparr>st_pin_refs := (st_pin_refs s)(pub_pin p := n)\<rparr>
      in if n = 0 then release_pin p t else t)"

definition live_pin :: "store \<Rightarrow> string \<Rightarrow> bool" where
  "live_pin s key = (case st_pins s key of None \<Rightarrow> False | Some i \<Rightarrow> 0 < st_pin_refs s i)"

text \<open>\<^verbatim>\<open>is_pinned\<close> first drops the dead weak references from the map.\<close>

definition is_pinned :: "string \<Rightarrow> store \<Rightarrow> bool \<times> store" where
  "is_pinned key s =
     (let t = s\<lparr>st_pins := (\<lambda>k. if live_pin s k then st_pins s k else None)\<rparr>
      in (live_pin t key, t))"

section \<open>Reserving metadata memory\<close>

definition MIB :: usize where "MIB = 1048576"

definition memory_exhausted :: io_error where
  "memory_exhausted = IoError WouldBlock ''metadata memory capacity exhausted''"

text \<open>A \<^verbatim>\<open>MetadataMemoryReservation\<close> is the number of permits it holds, \<open>None\<close> before the first one.\<close>

type_synonym reservation = "nat option"

definition held :: "reservation \<Rightarrow> nat" where
  "held r = (case r of None \<Rightarrow> 0 | Some n \<Rightarrow> n)"

definition reserve :: "usize \<Rightarrow> reservation \<Rightarrow> (store, reservation) io" where
  "reserve bytes r = (\<lambda>s.
     let required = unat (max (div_ceil bytes MIB) 1) in
     if required \<le> held r then (Inr r, s)
     else
       (let additional = required - held r in
        if 2 ^ 32 \<le> additional then (Inl memory_exhausted, s)
        else if st_memory_permits s < additional then (Inl memory_exhausted, s)
        else (Inr (Some (held r + additional)),
              s\<lparr>st_memory_permits := st_memory_permits s - additional\<rparr>)))"

text \<open>Dropping a permit gives it back.\<close>

definition release_reservation :: "reservation \<Rightarrow> store \<Rightarrow> store" where
  "release_reservation r s = s\<lparr>st_memory_permits := st_memory_permits s + held r\<rparr>"

section \<open>Upstream permits\<close>

text \<open>The semaphore of upstream fetches: a permit is one unit, and a leader holds at most one.\<close>

definition try_acquire_upstream_permit :: "(store, unit) io" where
  "try_acquire_upstream_permit = (\<lambda>s.
     if st_upstream_permits s = 0
     then (Inl (IoError WouldBlock ''upstream capacity exhausted''), s)
     else (Inr (), s\<lparr>st_upstream_permits := st_upstream_permits s - 1\<rparr>))"

definition release_upstream_permit :: "store \<Rightarrow> store" where
  "release_upstream_permit s = s\<lparr>st_upstream_permits := Suc (st_upstream_permits s)\<rparr>"

section \<open>Lemmas\<close>

lemma on_fs_apply [io_simps]:
  "on_fs m s = (fst (m (st_fs s)), s\<lparr>st_fs := snd (m (st_fs s))\<rparr>)"
  by (simp add: on_fs_def split: prod.split)

lemma keeps_on_fs: "keeps (\<lambda>f. P f) m \<Longrightarrow> keeps (\<lambda>s. P (st_fs s)) (on_fs m)"
  by (simp add: keeps_def io_simps)

subsection \<open>Loading\<close>

lemma load_missing:
  assumes "fs_faults (st_fs s) = []" and "fs_lookup (st_fs s) (paths_body (paths_for key)) = None"
  shows "load C key s = (Inr None, s)"
  using assms
  by (simp add: load_def io_try_def io_simps open_file_def fs_op_no_faults not_found_error_def)

lemma load_file:
  assumes "fs_faults (st_fs s) = []" and "fs_lookup (st_fs s) (paths_body (paths_for key)) = Some (NFile i)"
    and "snd (read_footer C i (st_fs s)) = st_fs s"
  shows "load C key s =
    (case fst (read_footer C i (st_fs s)) of
       Inr (meta, body_len) \<Rightarrow>
         (Inr (Some \<lparr>entry_file = i, entry_body_len = body_len, entry_meta = meta\<rparr>), s)
     | Inl e \<Rightarrow> if kind e = InvalidData then (Inr None, s) else (Inl e, s))"
  using assms
  by (auto simp: load_def io_try_def io_simps open_file_def fs_op_no_faults split: sum.split)

text \<open>
  C30: Loading takes a damaged file for a miss, and nothing else.  Whatever bytes a file of the cache holds,
  when the operating system reports no failure \<^verbatim>\<open>load\<close> succeeds and changes nothing; and it returns an entry
  exactly if the file under the key's name is a body, followed by at most a MiB of metadata that parses,
  followed by the length of that metadata: the entry is that file, that body's length and that metadata.
  Anything else, a file that is shorter than a footer, a wrong length, metadata that does not parse, or no
  file at all, is a miss.
\<close>

theorem load_tolerates_corruption:
  assumes "fs_faults (st_fs s) = []"
    and "fs_lookup (st_fs s) (paths_body (paths_for key)) \<noteq> Some NDir"
    and "\<And>i. length (fs_data (st_fs s) i) < 2 ^ 64"
  shows "\<exists>r. load C key s = (Inr r, s)
    \<and> (\<forall>entry. r = Some entry \<longleftrightarrow>
         fs_lookup (st_fs s) (paths_body (paths_for key)) = Some (NFile (entry_file entry))
         \<and> entry_form C (fs_data (st_fs s) (entry_file entry)) (unat (entry_body_len entry)) (entry_meta entry))"
proof (cases "fs_lookup (st_fs s) (paths_body (paths_for key))")
  case None
  with assms(1) show ?thesis
    by (simp add: load_missing)
next
  case (Some n)
  with assms(2) obtain i where i: "fs_lookup (st_fs s) (paths_body (paths_for key)) = Some (NFile i)"
    by (cases n) auto
  have form: "read_footer C i (st_fs s) = (Inr (meta, of_nat n), st_fs s)"
    if "entry_form C (fs_data (st_fs s) i) n meta" for n meta
    by (rule read_footer_form [OF assms(1,3) that])
  consider (bad) e where "read_footer C i (st_fs s) = (Inl e, st_fs s)" "kind e = InvalidData"
    | (good) meta body_len where "read_footer C i (st_fs s) = (Inr (meta, body_len), st_fs s)"
        "entry_form C (fs_data (st_fs s) i) (unat body_len) meta"
    using read_footer_any [OF assms(1,3), of C i] by blast
  then show ?thesis
  proof cases
    case bad
    then have "\<not> entry_form C (fs_data (st_fs s) i) n meta" for n meta
      using form by auto
    then show ?thesis
      using bad by (auto simp: load_file [OF assms(1) i] i)
  next
    case good
    have "entry = \<lparr>entry_file = i, entry_body_len = body_len, entry_meta = meta\<rparr>"
      if "entry_file entry = i" "entry_form C (fs_data (st_fs s) i) (unat (entry_body_len entry)) (entry_meta entry)" for entry
      using form [OF that(2)] good(1) that(1) by (cases entry) simp
    then show ?thesis
      using good by (auto simp: load_file [OF assms(1) i] i)
  qed
qed

text \<open>A cache directory with an entry whose footer is in order and whose metadata does not parse.\<close>

definition damaged_store :: store where
  "damaged_store =
     empty_store
       \<lparr>fs_nodes = [([take 2 sample_key, sample_key], NFile 0), ([take 2 sample_key], NDir)],
        fs_data = (\<lambda>_. [])(0 := ''body'' @ ''not json'' @ [CHR 0x00, CHR 0x00, CHR 0x00, CHR 0x08]),
        fs_pending = (\<lambda>_. []), fs_mtime = (\<lambda>_. 0),
        fs_next = 1, fs_clock = 5, fs_marker_locked = True, fs_faults = []\<rparr> 100 4"

lemma load_tolerates_corruption_witness:
  "fs_lookup (st_fs damaged_store) (paths_body (paths_for sample_key)) = Some (NFile 0)
   \<and> fs_data (st_fs damaged_store) 0 = ''body'' @ ''not json'' @ [CHR 0x00, CHR 0x00, CHR 0x00, CHR 0x08]
   \<and> load sample_codec sample_key damaged_store = (Inr None, damaged_store)"
proof -
  let ?bytes = "''body'' @ ''not json'' @ [CHR 0x00, CHR 0x00, CHR 0x00, CHR 0x08]"
  have lookup: "fs_lookup (st_fs damaged_store) (paths_body (paths_for sample_key)) = Some (NFile 0)"
    by code_simp
  have data: "fs_data (st_fs damaged_store) 0 = ?bytes"
    by (simp add: damaged_store_def empty_store_def)
  have small: "length (fs_data (st_fs damaged_store) i) < 2 ^ 64" for i
    by (simp add: damaged_store_def empty_store_def)
  have none: "\<not> entry_form sample_codec ?bytes n meta" for n meta
  proof
    assume "entry_form sample_codec ?bytes n meta"
    then obtain body mb where "?bytes = body @ mb @ to_be_bytes (of_nat (length mb))" "mb = ''{etag:1}''"
      unfolding entry_form_def by (auto simp: sample_codec_def split: if_splits)
    then have "rev ?bytes = rev (to_be_bytes (of_nat (length mb))) @ rev mb @ rev body" "rev mb = rev ''{etag:1}''"
      by simp_all
    then show False
      by (simp add: to_be_bytes_def)
  qed
  obtain r where r: "load sample_codec sample_key damaged_store = (Inr r, damaged_store)"
    and iff: "\<forall>entry. r = Some entry \<longleftrightarrow>
         fs_lookup (st_fs damaged_store) (paths_body (paths_for sample_key)) = Some (NFile (entry_file entry))
         \<and> entry_form sample_codec (fs_data (st_fs damaged_store) (entry_file entry)) (unat (entry_body_len entry)) (entry_meta entry)"
    using load_tolerates_corruption [of damaged_store sample_key sample_codec] lookup small
    by (auto simp: damaged_store_def empty_store_def)
  have "r = None"
  proof (cases r)
    case (Some entry)
    then have "fs_lookup (st_fs damaged_store) (paths_body (paths_for sample_key)) = Some (NFile (entry_file entry))"
      "entry_form sample_codec (fs_data (st_fs damaged_store) (entry_file entry)) (unat (entry_body_len entry)) (entry_meta entry)"
      using iff by blast+
    then show ?thesis
      using lookup none unfolding data [symmetric] by simp
  qed simp
  then show ?thesis
    using r lookup data by simp
qed

subsection \<open>Pins\<close>

text \<open>The bookkeeping of publications: identities are new, and a key's pin is its own.\<close>

definition pins_wf :: "store \<Rightarrow> bool" where
  "pins_wf s \<longleftrightarrow>
     (\<forall>k i. st_pins s k = Some i \<longrightarrow> i < st_next_pin s)
     \<and> (\<forall>k k' i. st_pins s k = Some i \<longrightarrow> st_pins s k' = Some i \<longrightarrow> k = k')
     \<and> (\<forall>i. st_next_pin s \<le> i \<longrightarrow> st_pin_refs s i = 0)"

lemma request_eviction_fields [simp]:
  "st_pins (request_eviction s) = st_pins s" "st_pin_refs (request_eviction s) = st_pin_refs s"
  "st_next_pin (request_eviction s) = st_next_pin s" "st_fs (request_eviction s) = st_fs s"
  by (simp_all add: request_eviction_def)

lemma pins_wf_pin: "pins_wf s \<Longrightarrow> pins_wf (snd (pin key s))"
  unfolding pins_wf_def pin_def by (auto simp: Let_def less_Suc_eq)

lemma pins_wf_clone: "pins_wf s \<Longrightarrow> pub_pin p < st_next_pin s \<Longrightarrow> pins_wf (clone_published p s)"
  by (auto simp: pins_wf_def clone_published_def)

lemma pins_wf_drop: "pins_wf s \<Longrightarrow> pins_wf (drop_published p s)"
  by (auto simp: pins_wf_def drop_published_def release_pin_def Let_def)

lemma is_pinned_fields [simp]:
  "fst (is_pinned key s) = live_pin s key"
  "st_fs (snd (is_pinned key s)) = st_fs s"
  "live_pin (snd (is_pinned key s)) = live_pin s"
  "st_max_cache_size (snd (is_pinned key s)) = st_max_cache_size s"
  by (auto simp: is_pinned_def live_pin_def Let_def fun_eq_iff split: option.split)

lemma live_pin_on_fs [simp]: "live_pin (s\<lparr>st_fs := f\<rparr>) = live_pin s"
  by (simp add: live_pin_def fun_eq_iff cong: option.case_cong)

lemma pins_wf_is_pinned: "pins_wf s \<Longrightarrow> pins_wf (snd (is_pinned key s))"
  unfolding pins_wf_def is_pinned_def by (simp add: Let_def)

lemma pin_live: "live_pin (snd (pin key s)) key"
  by (simp add: pin_def live_pin_def Let_def)

text \<open>
  A publication made by \<^verbatim>\<open>pin\<close> has one owner; a clone makes one more, and the publication that is the
  latest of its key loses its pin exactly with its last owner.
\<close>

definition latest :: "published_entry \<Rightarrow> store \<Rightarrow> bool" where
  "latest p s \<longleftrightarrow> st_pins s (pub_key p) = Some (pub_pin p)"

lemma drop_latest_live:
  assumes "pins_wf s" and "latest p s" and "0 < st_pin_refs s (pub_pin p)"
  shows "live_pin (drop_published p s) key \<longleftrightarrow>
    (if key = pub_key p then 1 < st_pin_refs s (pub_pin p) else live_pin s key)"
  using assms
  by (auto simp: drop_published_def release_pin_def live_pin_def latest_def pins_wf_def Let_def
      split: option.split)

subsection \<open>Permits\<close>

text \<open>
  What a counting semaphore promises its users, and what follows for any sequence of acquisitions and
  releases by any number of holders: the permits are conserved.
\<close>

datatype 'q pool_op = Open_holder | Acquire nat 'q | Release nat

primrec pool_step ::
  "('q \<Rightarrow> 'r \<Rightarrow> ('s, 'r) io) \<Rightarrow> ('r \<Rightarrow> 's \<Rightarrow> 's) \<Rightarrow> 'r \<Rightarrow> 'q pool_op \<Rightarrow> 's \<times> 'r list \<Rightarrow> 's \<times> 'r list"
where
  "pool_step acquire release fresh Open_holder st = (fst st, snd st @ [fresh])"
| "pool_step acquire release fresh (Acquire i q) st =
     (if i < length (snd st)
      then
        (case acquire q (snd st ! i) (fst st) of
           (Inr r, s) \<Rightarrow> (s, (snd st)[i := r])
         | (Inl _, s) \<Rightarrow> (s, snd st))
      else st)"
| "pool_step acquire release fresh (Release i) st =
     (if i < length (snd st) then (release (snd st ! i) (fst st), (snd st)[i := fresh]) else st)"

abbreviation pool_run ::
  "('q \<Rightarrow> 'r \<Rightarrow> ('s, 'r) io) \<Rightarrow> ('r \<Rightarrow> 's \<Rightarrow> 's) \<Rightarrow> 'r \<Rightarrow> 'q pool_op list \<Rightarrow> 's \<times> 'r list \<Rightarrow> 's \<times> 'r list"
where
  "pool_run acquire release fresh ops \<equiv> fold (pool_step acquire release fresh) ops"

locale permit_pool =
  fixes available :: "'s \<Rightarrow> nat"
    and held_by :: "'r \<Rightarrow> nat"
    and acquire :: "'q \<Rightarrow> 'r \<Rightarrow> ('s, 'r) io"
    and release :: "'r \<Rightarrow> 's \<Rightarrow> 's"
    and fresh :: 'r
  assumes fresh_empty: "held_by fresh = 0"
    and acquire_conserves:
      "acquire q r s = (Inr r', s') \<Longrightarrow> available s' + held_by r' = available s + held_by r"
    and acquire_refuses: "acquire q r s = (Inl e, s') \<Longrightarrow> available s' = available s"
    and release_returns: "available (release r s) = available s + held_by r"
begin

lemma step_conserves:
  "available (fst (pool_step acquire release fresh act st)) +
     sum_list (map held_by (snd (pool_step acquire release fresh act st))) =
   available (fst st) + sum_list (map held_by (snd st))"
proof -
  have upd: "sum_list (map held_by (rs[i := r])) + held_by (rs ! i) = sum_list (map held_by rs) + held_by r"
    if "i < length rs" for rs i r
  proof -
    have "held_by (rs ! i) \<le> sum_list (map held_by rs)"
      using that elem_le_sum_list [of i "map held_by rs"] by simp
    then show ?thesis
      using that by (simp add: map_update sum_list_update)
  qed
  show ?thesis
  proof (cases act)
    case Open_holder
    then show ?thesis by (simp add: fresh_empty)
  next
    case (Acquire i q)
    obtain r s where res: "acquire q (snd st ! i) (fst st) = (r, s)"
      by force
    show ?thesis
    proof (cases "i < length (snd st)")
      case True
      then show ?thesis
        using acquire_conserves [of q "snd st ! i" "fst st"] acquire_refuses [of q "snd st ! i" "fst st"]
          upd [OF True, of "projr r"] res Acquire
        by (cases r) auto
    qed (simp add: Acquire)
  next
    case (Release i)
    then show ?thesis
      using release_returns [of "snd st ! i" "fst st"] upd [of i "snd st" fresh]
      by (auto simp: fresh_empty)
  qed
qed

lemma run_conserves:
  "available (fst (pool_run acquire release fresh ops st)) +
     sum_list (map held_by (snd (pool_run acquire release fresh ops st))) =
   available (fst st) + sum_list (map held_by (snd st))"
  by (induction ops arbitrary: st) (simp_all add: step_conserves)

end

definition mib_needed :: "usize \<Rightarrow> nat" where
  "mib_needed bytes = unat (max (div_ceil bytes MIB) 1)"

lemma reserve_unfold:
  "reserve bytes r s =
     (if mib_needed bytes \<le> held r then (Inr r, s)
      else if 2 ^ 32 \<le> mib_needed bytes - held r \<or> st_memory_permits s < mib_needed bytes - held r
      then (Inl memory_exhausted, s)
      else (Inr (Some (mib_needed bytes)),
            s\<lparr>st_memory_permits := st_memory_permits s - (mib_needed bytes - held r)\<rparr>))"
  unfolding reserve_def mib_needed_def [symmetric] Let_def by simp

lemma reserve_Inr:
  assumes "reserve bytes r s = (Inr r', s')"
  shows "mib_needed bytes \<le> held r'"
    and "st_memory_permits s' + held r' = st_memory_permits s + held r"
  using assms by (auto simp: reserve_unfold held_def split: if_splits)

lemma reserve_Inl:
  assumes "reserve bytes r s = (Inl e, s')"
  shows "s' = s" and "e = memory_exhausted"
    and "st_memory_permits s + held r < mib_needed bytes \<or> held r + 2 ^ 32 \<le> mib_needed bytes"
  using assms by (auto simp: reserve_unfold split: if_splits)

interpretation memory: permit_pool st_memory_permits held reserve release_reservation None
  by unfold_locales
    (auto simp: held_def release_reservation_def dest: reserve_Inl(1) reserve_Inr(2))

text \<open>A leader of a fetch holds one permit: acquiring is only asked of a task that holds none.\<close>

definition acquire_upstream :: "unit \<Rightarrow> bool \<Rightarrow> (store, bool) io" where
  "acquire_upstream _ has = (if has then io_return True else io_bind try_acquire_upstream_permit (\<lambda>_. io_return True))"

definition drop_upstream :: "bool \<Rightarrow> store \<Rightarrow> store" where
  "drop_upstream has s = (if has then release_upstream_permit s else s)"

interpretation upstream: permit_pool st_upstream_permits of_bool acquire_upstream drop_upstream False
  by unfold_locales
    (auto simp: acquire_upstream_def drop_upstream_def try_acquire_upstream_permit_def io_simps
      io_bind_def release_upstream_permit_def split: if_splits)

lemma div_ceil_MIB_covers: "unat bytes \<le> mib_needed bytes * unat MIB"
proof -
  have "unat MIB = 1048576"
    by (simp add: MIB_def)
  moreover from this have "unat (div_ceil bytes MIB) = (unat bytes + 1048576 - 1) div 1048576"
    by (simp add: unat_div_ceil)
  moreover have "a \<le> (a + 1048576 - 1) div 1048576 * 1048576" for a :: nat
    by linarith
  moreover have "mib_needed bytes = max (unat (div_ceil bytes MIB)) 1"
    by (simp add: mib_needed_def unat_word_max)
  ultimately show ?thesis
    by (metis le_trans max.cobounded1 mult_le_mono1)
qed

text \<open>
  The memory budget for metadata is never exceeded.  Starting from a new store, after any sequence
  of opened, grown and dropped reservations the permits that are left and those that are held add up
  to 1024, and a reservation that was granted for a number of bytes holds enough permits for them.
\<close>

lemma memory_budget_conserved:
  assumes "pool_run reserve release_reservation None ops (empty_store f max_size fetches, []) = (s, rs)"
    and "i < length rs"
  shows "st_memory_permits s + sum_list (map held rs) = METADATA_MEMORY_BUDGET_MIB
    \<and> (case reserve bytes (rs ! i) s of
         (Inr r, t) \<Rightarrow> unat bytes \<le> held r * unat MIB \<and> held r \<le> METADATA_MEMORY_BUDGET_MIB
       | (Inl e, t) \<Rightarrow> t = s \<and> e = memory_exhausted
                      \<and> st_memory_permits s + held (rs ! i) < mib_needed bytes)"
proof -
  have sum: "st_memory_permits s + sum_list (map held rs) = METADATA_MEMORY_BUDGET_MIB"
    using memory.run_conserves [of ops "(empty_store f max_size fetches, [])"] assms(1)
    by (simp add: empty_store_def)
  have "held (rs ! i) \<le> sum_list (map held rs)"
    using assms(2) elem_le_sum_list [of i "map held rs"] by simp
  with sum have bound: "st_memory_permits s + held (rs ! i) \<le> METADATA_MEMORY_BUDGET_MIB"
    by linarith
  obtain res t where res: "reserve bytes (rs ! i) s = (res, t)"
    by force
  show ?thesis
  proof (cases res)
    case (Inl e)
    with res bound show ?thesis
      using sum reserve_Inl [OF res [unfolded Inl]] by (auto simp: METADATA_MEMORY_BUDGET_MIB_def)
  next
    case (Inr r)
    note granted = res [unfolded Inr]
    have "unat bytes \<le> held r * unat MIB"
      using reserve_Inr(1) [OF granted] div_ceil_MIB_covers [of bytes]
      by (meson le_trans mult_le_mono1)
    moreover have "held r \<le> METADATA_MEMORY_BUDGET_MIB"
      using reserve_Inr(2) [OF granted] bound by linarith
    ultimately show ?thesis
      using sum granted by simp
  qed
qed

end
