(* ===== verification/Eviction.thy ===== *)
theory Eviction
  imports Cache
begin

text \<open>
  \<^verbatim>\<open>src/cache.rs\<close>, eviction: the scan of the shard directories and the removal of the oldest entries
  that are not pinned, until the cache is within its bound.
\<close>

section \<open>Scanning the cache directory\<close>

text \<open>
  \<^verbatim>\<open>next_entry\<close> can fail at every entry and at the end of the directory; so can the two calls on an entry.
\<close>

definition next_entry :: "(fs, unit) io" where
  "next_entry = fs_op (\<lambda>s. (Inr (), s))"

definition entry_is_dir :: "node \<Rightarrow> (fs, bool) io" where
  "entry_is_dir n = fs_op (\<lambda>s. (Inr (n = NDir), s))"

definition entry_is_file :: "node \<Rightarrow> (fs, bool) io" where
  "entry_is_file n = fs_op (\<lambda>s. (Inr (n \<noteq> NDir), s))"

definition entry_metadata :: "node \<Rightarrow> (fs, nat \<times> u64) io" where
  "entry_metadata n = fs_op (\<lambda>s.
     case n of
       NFile i \<Rightarrow> (Inr (fs_mtime s i, of_nat (length (fs_data s i))), s)
     | NDir \<Rightarrow> (Inl is_a_directory_error, s))"

fun shard_directories_loop ::
  "(bytes \<times> node) list \<Rightarrow> (string \<times> path) list \<Rightarrow> (fs, (string \<times> path) list) io" where
  "shard_directories_loop [] out = io_bind next_entry (\<lambda>_. io_return out)"
| "shard_directories_loop ((name, n) # entries) out =
     io_bind next_entry (\<lambda>_.
     io_bind (entry_is_dir n) (\<lambda>is_dir.
     if \<not> is_dir then shard_directories_loop entries out
     else
       (case to_str name of
          Some shard \<Rightarrow>
            if valid_hex shard 2 then shard_directories_loop entries (out @ [(shard, [name])])
            else shard_directories_loop entries out
        | None \<Rightarrow> shard_directories_loop entries out)))"

definition shard_directories :: "(fs, (string \<times> path) list) io" where
  "shard_directories =
     io_try (read_dir []) (\<lambda>r.
     case r of
       Inl e \<Rightarrow> if kind e = NotFound then io_return [] else io_fail e
     | Inr entries \<Rightarrow> shard_directories_loop entries [])"

record completed_entry =
  ce_key :: string
  ce_body :: path
  ce_modified :: nat
  ce_size :: u64

fun collect_entries ::
  "string \<Rightarrow> path \<Rightarrow> (bytes \<times> node) list \<Rightarrow> completed_entry list \<Rightarrow> (fs, completed_entry list) io" where
  "collect_entries shard dir [] out = io_bind next_entry (\<lambda>_. io_return out)"
| "collect_entries shard dir ((name, n) # entries) out =
     io_bind next_entry (\<lambda>_.
     io_try (entry_is_file n) (\<lambda>r.
     case r of
       Inl e \<Rightarrow> if kind e = NotFound then collect_entries shard dir entries out else io_fail e
     | Inr is_file \<Rightarrow>
         if \<not> is_file then collect_entries shard dir entries out
         else
           (case to_str name of
              None \<Rightarrow> collect_entries shard dir entries out
            | Some key \<Rightarrow>
                if \<not> valid_key key shard then collect_entries shard dir entries out
                else
                  io_try (entry_metadata n) (\<lambda>r.
                  case r of
                    Inl e \<Rightarrow>
                      if kind e = NotFound then collect_entries shard dir entries out else io_fail e
                  | Inr (modified, len) \<Rightarrow>
                      collect_entries shard dir entries
                        (out @ [\<lparr>ce_key = key, ce_body = dir @ [name], ce_modified = modified,
                                 ce_size = len\<rparr>])))))"

fun completed_entries_loop ::
  "(string \<times> path) list \<Rightarrow> completed_entry list \<Rightarrow> (fs, completed_entry list) io" where
  "completed_entries_loop [] out = io_return out"
| "completed_entries_loop ((shard, dir) # shards) out =
     io_bind (read_dir dir) (\<lambda>entries.
     io_bind (collect_entries shard dir entries out) (\<lambda>out'.
     completed_entries_loop shards out'))"

definition completed_entries_at :: "(fs, completed_entry list) io" where
  "completed_entries_at = io_bind shard_directories (\<lambda>shards. completed_entries_loop shards [])"

section \<open>Eviction\<close>

fun evict_loop :: "u64 \<Rightarrow> u64 \<Rightarrow> completed_entry list \<Rightarrow> (store, unit) io" where
  "evict_loop max_cache_size used [] = io_return ()"
| "evict_loop max_cache_size used (entry # entries) =
     (if used \<le> max_cache_size then io_return ()
      else (\<lambda>s.
        case is_pinned (ce_key entry) s of
          (True, t) \<Rightarrow> evict_loop max_cache_size used entries t
        | (False, t) \<Rightarrow>
            io_try (on_fs (remove_file (ce_body entry))) (\<lambda>r.
            case r of
              Inr _ \<Rightarrow> evict_loop max_cache_size (saturating_sub used (ce_size entry)) entries
            | Inl e \<Rightarrow>
                if kind e = NotFound
                then evict_loop max_cache_size (saturating_sub used (ce_size entry)) entries
                else evict_loop max_cache_size used entries) t))"

text \<open>The sum wraps around as in a release build; \<^verbatim>\<open>sort_by_key\<close> is a stable sort.\<close>

definition evict_files_to_bound :: "(store, unit) io" where
  "evict_files_to_bound =
     io_bind (on_fs completed_entries_at) (\<lambda>entries s.
     (let used = sum_list (map ce_size entries); max_cache_size = st_max_cache_size s in
      if used \<le> max_cache_size then (Inr (), s)
      else evict_loop max_cache_size used (sort_key ce_modified entries) s))"

section \<open>Reference notions\<close>

text \<open>The committed entries of a directory, read off the names.\<close>

definition entry_at :: "fs \<Rightarrow> string \<Rightarrow> path \<Rightarrow> bytes \<Rightarrow> node \<Rightarrow> completed_entry option" where
  "entry_at s shard dir name n =
     (case n of
        NDir \<Rightarrow> None
      | NFile i \<Rightarrow>
          if utf8_valid name \<and> valid_key name shard
          then Some \<lparr>ce_key = name, ce_body = dir @ [name], ce_modified = fs_mtime s i,
                     ce_size = of_nat (length (fs_data s i))\<rparr>
          else None)"

definition entries_in :: "fs \<Rightarrow> path \<Rightarrow> string \<Rightarrow> completed_entry list" where
  "entries_in s dir shard =
     List.map_filter
       (\<lambda>(p, n). if p \<noteq> [] \<and> butlast p = dir then entry_at s shard dir (last p) n else None)
       (fs_nodes s)"

definition shards_of :: "fs \<Rightarrow> (string \<times> path) list" where
  "shards_of s =
     List.map_filter
       (\<lambda>(p, n). if n = NDir \<and> length p = 1 \<and> utf8_valid (last p) \<and> valid_hex (last p) 2
                 then Some (last p, p) else None)
       (fs_nodes s)"

definition entries_of :: "fs \<Rightarrow> completed_entry list" where
  "entries_of s = concat (map (\<lambda>(shard, dir). entries_in s dir shard) (shards_of s))"

text \<open>The size in bytes of a list of entries, without wrap-around.\<close>

definition total_size :: "completed_entry list \<Rightarrow> nat" where
  "total_size es = sum_list (map (\<lambda>e. unat (ce_size e)) es)"

text \<open>Which entries an eviction pass over a list removes when nothing fails.\<close>

fun victims :: "(string \<Rightarrow> bool) \<Rightarrow> u64 \<Rightarrow> u64 \<Rightarrow> completed_entry list \<Rightarrow> completed_entry list" where
  "victims pinned max_size used [] = []"
| "victims pinned max_size used (e # es) =
     (if used \<le> max_size then []
      else if pinned (ce_key e) then victims pinned max_size used es
      else e # victims pinned max_size (saturating_sub used (ce_size e)) es)"

section \<open>Lemmas\<close>

subsection \<open>The scan\<close>

lemma dir_ops_no_faults:
  assumes "fs_faults s = []"
  shows "next_entry s = (Inr (), s)" and "entry_is_dir n s = (Inr (n = NDir), s)"
    and "entry_is_file n s = (Inr (n \<noteq> NDir), s)"
    and "entry_metadata (NFile i) s = (Inr (fs_mtime s i, of_nat (length (fs_data s i))), s)"
  using assms
  by (simp_all add: next_entry_def entry_is_dir_def entry_is_file_def entry_metadata_def fs_op_no_faults)

lemmas run_simps = io_bind_def io_try_def io_simps dir_ops_no_faults

lemma map_filter_map_filter:
  "List.map_filter f (map g (filter P xs)) = List.map_filter (\<lambda>x. if P x then f (g x) else None) xs"
  by (induction xs) (auto simp: List.map_filter_simps split: option.split)

lemma map_filter_cong_fun: "(\<And>x. f x = g x) \<Longrightarrow> List.map_filter f xs = List.map_filter g xs"
  by (simp add: List.map_filter_def)

lemma shard_directories_loop_result:
  "fs_faults s = [] \<Longrightarrow>
     shard_directories_loop xs out s =
       (Inr (out @ List.map_filter (\<lambda>(name, n).
          if n = NDir \<and> utf8_valid name \<and> valid_hex name 2 then Some (name, [name]) else None) xs), s)"
  by (induction xs out rule: shard_directories_loop.induct)
    (auto simp: run_simps List.map_filter_simps to_str_def)

lemma single_path: "p \<noteq> [] \<Longrightarrow> butlast p = [] \<Longrightarrow> [last p] = p"
  by (cases p) (auto split: if_splits)

lemma shard_directories_result:
  assumes "fs_faults s = []"
  shows "shard_directories s = (Inr (shards_of s), s)"
proof -
  have "(if p \<noteq> [] \<and> butlast p = []
      then if n = NDir \<and> utf8_valid (last p) \<and> valid_hex (last p) 2 then Some (last p, [last p]) else None
      else None) =
     (if n = NDir \<and> length p = 1 \<and> utf8_valid (last p) \<and> valid_hex (last p) 2
      then Some (last p, p) else None)" for p :: path and n
    by (cases p rule: rev_cases) auto
  then show ?thesis
    using assms
    by (auto simp: shard_directories_def io_try_def read_dir_def fs_op_no_faults
        shard_directories_loop_result map_filter_map_filter shards_of_def intro!: map_filter_cong_fun)
qed

lemma collect_entries_result:
  "fs_faults s = [] \<Longrightarrow>
     collect_entries shard dir xs out s =
       (Inr (out @ List.map_filter (\<lambda>(name, n). entry_at s shard dir name n) xs), s)"
  by (induction shard dir xs out rule: collect_entries.induct)
    (auto simp: run_simps List.map_filter_simps to_str_def entry_at_def split: node.split)

lemma completed_entries_loop_result:
  assumes "fs_faults s = []"
  shows "\<forall>(shard, dir)\<in>set shards. fs_lookup s dir = Some NDir \<Longrightarrow>
     completed_entries_loop shards out s =
       (Inr (out @ concat (map (\<lambda>(shard, dir). entries_in s dir shard) shards)), s)"
proof (induction shards out rule: completed_entries_loop.induct)
  case (1 out)
  then show ?case by (simp add: io_simps)
next
  case (2 shard dir shards out)
  have "List.map_filter (\<lambda>(name, n). entry_at s shard dir name n)
      (map (\<lambda>(p, n). (last p, n)) (filter (\<lambda>(p, n). p \<noteq> [] \<and> butlast p = dir) (fs_nodes s)))
    = entries_in s dir shard"
    unfolding entries_in_def map_filter_map_filter by (rule map_filter_cong_fun) (simp add: split_beta)
  then show ?case
    using 2 assms
    by (simp add: io_bind_def read_dir_def fs_op_no_faults collect_entries_result)
qed

lemma set_map_filter: "y \<in> set (List.map_filter f xs) \<longleftrightarrow> (\<exists>x\<in>set xs. f x = Some y)"
  by (induction xs) (auto simp: List.map_filter_simps split: option.split)

lemma fs_lookup_node: "wf_fs s \<Longrightarrow> (p, n) \<in> set (fs_nodes s) \<Longrightarrow> p \<noteq> [] \<Longrightarrow> fs_lookup s p = Some n"
  unfolding wf_fs_def by (simp only: fs_lookup_def map_of_is_SomeI if_False)

lemma completed_entries_result:
  assumes "fs_faults s = []" and "wf_fs s"
  shows "completed_entries_at s = (Inr (entries_of s), s)"
proof -
  have "\<forall>(shard, dir)\<in>set (shards_of s). fs_lookup s dir = Some NDir"
    by (auto simp: shards_of_def set_map_filter split: if_splits
        intro!: fs_lookup_node [OF assms(2)])
  then show ?thesis
    using assms
    by (simp add: completed_entries_at_def io_bind_def shard_directories_result
        completed_entries_loop_result entries_of_def)
qed

subsection \<open>Names of entries\<close>

lemma map_filter_images:
  assumes "\<And>x y. f x = Some y \<Longrightarrow> h y = g x"
  shows "map h (List.map_filter f xs) = map g (filter (\<lambda>x. f x \<noteq> None) xs)"
  by (induction xs) (auto simp: List.map_filter_simps assms split: option.split)

lemma filter_map_filter:
  assumes "\<And>x y. f x = Some y \<Longrightarrow> Q y = P x"
  shows "List.map_filter f (filter P xs) = filter Q (List.map_filter f xs)"
  by (induction xs) (auto simp: List.map_filter_simps assms split: option.split)

lemma entry_at_Some:
  "entry_at s shard dir name n = Some e \<Longrightarrow>
     ce_body e = dir @ [name] \<and> ce_key e = name \<and> valid_key name shard \<and> n \<noteq> NDir"
  by (auto simp: entry_at_def split: node.splits if_splits)

lemma entries_in_body:
  "e \<in> set (entries_in s dir shard) \<Longrightarrow>
     \<exists>i. (ce_body e, NFile i) \<in> set (fs_nodes s) \<and> ce_body e = dir @ [ce_key e] \<and> valid_key (ce_key e) shard"
  by (auto simp: entries_in_def set_map_filter entry_at_def split: if_splits node.splits) blast+

lemma shards_of_dir: "(shard, dir) \<in> set (shards_of s) \<Longrightarrow> dir = [shard] \<and> valid_hex shard 2"
  by (auto simp: shards_of_def set_map_filter single_path length_Suc_conv split: if_splits)

text \<open>The form of a committed entry: its key is a valid key of the shard it is filed under.\<close>

definition entry_ok :: "completed_entry \<Rightarrow> bool" where
  "entry_ok e \<longleftrightarrow> (case ce_body e of
     [shard, name] \<Rightarrow> name = ce_key e \<and> valid_hex shard 2 \<and> valid_key name shard
   | _ \<Rightarrow> False)"

lemma entry_ok_length: "entry_ok e \<Longrightarrow> length (ce_body e) = 2"
  by (auto simp: entry_ok_def split: list.splits)

lemma entries_of_ok:
  assumes "e \<in> set (entries_of s)"
  shows "entry_ok e" and "\<exists>i. (ce_body e, NFile i) \<in> set (fs_nodes s)"
proof -
  from assms obtain shard dir where "(shard, dir) \<in> set (shards_of s)" "e \<in> set (entries_in s dir shard)"
    by (auto simp: entries_of_def)
  with entries_in_body [of e s dir shard] shards_of_dir [of shard dir s]
  show "entry_ok e" and "\<exists>i. (ce_body e, NFile i) \<in> set (fs_nodes s)"
    by (auto simp: entry_ok_def)
qed

lemma distinct_shard_dirs:
  assumes "distinct (map fst (fs_nodes s))"
  shows "distinct (map snd (shards_of s))"
proof -
  let ?f = "\<lambda>(p, n). if n = NDir \<and> length p = 1 \<and> utf8_valid (last p) \<and> valid_hex (last p) 2
                 then Some (last p, p) else None"
  have "map snd (shards_of s) = map fst (filter (\<lambda>x. ?f x \<noteq> None) (fs_nodes s))"
    unfolding shards_of_def by (rule map_filter_images) (auto split: if_splits)
  with assms show ?thesis
    by (simp add: distinct_map_filter)
qed

lemma distinct_entries_in:
  assumes "distinct (map fst (fs_nodes s))"
  shows "distinct (map ce_body (entries_in s dir shard))"
proof -
  let ?f = "\<lambda>(p, n). if p \<noteq> [] \<and> butlast p = dir then entry_at s shard dir (last p) n else None"
  have "map ce_body (entries_in s dir shard) = map fst (filter (\<lambda>x. ?f x \<noteq> None) (fs_nodes s))"
    unfolding entries_in_def
    by (rule map_filter_images) (auto split: if_splits dest!: entry_at_Some)
  with assms show ?thesis
    by (simp add: distinct_map_filter)
qed

lemma distinct_entries_of:
  assumes "distinct (map fst (fs_nodes s))"
  shows "distinct (map ce_body (entries_of s))"
proof -
  have "distinct (map snd shards) \<Longrightarrow>
      distinct (map ce_body (concat (map (\<lambda>(shard, dir). entries_in s dir shard) shards)))" for shards
  proof (induction shards)
    case Nil
    then show ?case by simp
  next
    case (Cons sd shards)
    have "ce_body e \<noteq> ce_body e'" if "e \<in> set (entries_in s (snd sd) (fst sd))"
      "e' \<in> set (entries_in s dir shard)" "(shard, dir) \<in> set shards" for e e' shard dir
    proof -
      have "butlast (ce_body e) = snd sd" "butlast (ce_body e') = dir"
        using entries_in_body that(1,2) by fastforce+
      moreover have "snd sd \<noteq> dir"
        using Cons.prems that(3) by (auto simp: image_iff)
      ultimately show ?thesis by auto
    qed
    then have "ce_body ` set (entries_in s (snd sd) (fst sd)) \<inter>
        ce_body ` set (concat (map (\<lambda>(shard, dir). entries_in s dir shard) shards)) = {}"
      by fastforce
    then show ?case
      using Cons distinct_entries_in [OF assms, of "snd sd" "fst sd"] by (simp add: split_beta)
  qed
  then show ?thesis
    unfolding entries_of_def using distinct_shard_dirs [OF assms] .
qed

lemma map_filter_drop:
  assumes "\<And>x. \<not> P x \<Longrightarrow> f x = None"
  shows "List.map_filter f (filter P xs) = List.map_filter f xs"
  by (induction xs) (auto simp: List.map_filter_simps assms split: option.split)

lemma entries_of_unlink:
  assumes "length p = 2"
  shows "entries_of (fs_unlink p s) = filter (\<lambda>e. ce_body e \<noteq> p) (entries_of s)"
proof -
  have shards: "shards_of (fs_unlink p s) = shards_of s"
    unfolding shards_of_def fs_unlink_fields by (rule map_filter_drop) (use assms in auto)
  have "entries_in (fs_unlink p s) dir shard = filter (\<lambda>e. ce_body e \<noteq> p) (entries_in s dir shard)" for dir shard
    unfolding entries_in_def fs_unlink_fields entry_at_def
    by (subst filter_map_filter [symmetric, where P = "\<lambda>(q, _). q \<noteq> p"])
      (auto split: if_splits node.splits)
  then show ?thesis
    unfolding entries_of_def shards by (simp add: filter_concat comp_def case_prod_unfold)
qed

lemma entries_of_unlinks:
  "\<forall>p\<in>set ps. length p = 2 \<Longrightarrow>
     entries_of (fold fs_unlink ps s) = filter (\<lambda>e. ce_body e \<notin> set ps) (entries_of s)"
  by (induction ps arbitrary: s) (auto simp: entries_of_unlink intro: filter_cong)

subsection \<open>Entries as seen in the tree\<close>

lemma hexdigit_ascii: "is_ascii_digit c \<or> between (CHR ''a'') (CHR ''f'') c \<Longrightarrow> in_range 0 0x7F c"
  by (auto simp: in_range_def is_ascii_digit_iff less_eq_char_def)

lemma valid_hex_utf8: "valid_hex v n \<Longrightarrow> utf8_valid v"
  unfolding valid_hex_def
proof (elim conjE)
  assume "list_all (\<lambda>b. is_ascii_digit b \<or> between (CHR ''a'') (CHR ''f'') b) v"
  then show "utf8_valid v"
    by (induction v) (use hexdigit_ascii in auto)
qed

lemma entries_of_iff:
  assumes "wf_fs s"
  shows "e \<in> set (entries_of s) \<longleftrightarrow>
    (\<exists>shard key i. fs_lookup s [shard] = Some NDir \<and> fs_lookup s [shard, key] = Some (NFile i)
       \<and> valid_hex shard 2 \<and> valid_key key shard
       \<and> e = \<lparr>ce_key = key, ce_body = [shard, key], ce_modified = fs_mtime s i,
              ce_size = of_nat (length (fs_data s i))\<rparr>)"
proof
  assume "e \<in> set (entries_of s)"
  then obtain shard dir p n where sd: "(shard, dir) \<in> set (shards_of s)" and p: "(p, n) \<in> set (fs_nodes s)"
    "p \<noteq> []" "butlast p = dir" "entry_at s shard dir (last p) n = Some e"
    by (fastforce simp: entries_of_def entries_in_def set_map_filter split: if_splits)
  from sd have "fs_lookup s [shard] = Some NDir" "valid_hex shard 2" "dir = [shard]"
    using shards_of_dir [OF sd] fs_lookup_node [OF assms, of "[shard]" NDir]
    by (auto simp: shards_of_def set_map_filter length_Suc_conv split: if_splits)
  moreover have "fs_lookup s p = Some n" "p = [shard, last p]"
    using fs_lookup_node [OF assms p(1,2)] append_butlast_last_id [OF p(2)] p(3) \<open>dir = [shard]\<close> by simp_all
  ultimately show "\<exists>shard key i. fs_lookup s [shard] = Some NDir \<and> fs_lookup s [shard, key] = Some (NFile i)
       \<and> valid_hex shard 2 \<and> valid_key key shard
       \<and> e = \<lparr>ce_key = key, ce_body = [shard, key], ce_modified = fs_mtime s i,
              ce_size = of_nat (length (fs_data s i))\<rparr>"
    using p(4) by (intro exI [of _ shard] exI [of _ "last p"]) (auto simp: entry_at_def split: node.splits if_splits)
next
  assume "\<exists>shard key i. fs_lookup s [shard] = Some NDir \<and> fs_lookup s [shard, key] = Some (NFile i)
       \<and> valid_hex shard 2 \<and> valid_key key shard
       \<and> e = \<lparr>ce_key = key, ce_body = [shard, key], ce_modified = fs_mtime s i,
              ce_size = of_nat (length (fs_data s i))\<rparr>"
  then obtain shard key i where e: "fs_lookup s [shard] = Some NDir" "fs_lookup s [shard, key] = Some (NFile i)"
    "valid_hex shard 2" "valid_key key shard"
    "e = \<lparr>ce_key = key, ce_body = [shard, key], ce_modified = fs_mtime s i,
           ce_size = of_nat (length (fs_data s i))\<rparr>"
    by blast
  have utf8: "utf8_valid shard" "utf8_valid key"
    using e(3,4) by (auto simp: valid_key_def dest: valid_hex_utf8)
  have "([shard], NDir) \<in> set (fs_nodes s)" "([shard, key], NFile i) \<in> set (fs_nodes s)"
    using e(1,2) by (auto simp: fs_lookup_def dest: map_of_SomeD)
  then have "(shard, [shard]) \<in> set (shards_of s)" "e \<in> set (entries_in s [shard] shard)"
    using e(3-5) utf8 by (force simp: shards_of_def entries_in_def set_map_filter entry_at_def)+
  then show "e \<in> set (entries_of s)"
    by (force simp: entries_of_def)
qed

text \<open>The names of committed entries in a tree, and the bytes they take.\<close>

definition committed :: "(path \<Rightarrow> tnode option) \<Rightarrow> path set" where
  "committed v = {p. \<exists>shard key b. p = [shard, key] \<and> v [shard] = Some Dir \<and> v p = Some (File b)
     \<and> valid_hex shard 2 \<and> valid_key key shard}"

definition size_at :: "(path \<Rightarrow> tnode option) \<Rightarrow> path \<Rightarrow> nat" where
  "size_at v p = (case v p of Some (File b) \<Rightarrow> unat (of_nat (length b) :: u64) | _ \<Rightarrow> 0)"

lemma view_file: "fs_lookup s p = Some (NFile i) \<Longrightarrow> view s p = Some (File (fs_data s i))"
  by (simp add: view_def)

lemma view_File: "view s p = Some (File b) \<longleftrightarrow> (\<exists>i. fs_lookup s p = Some (NFile i) \<and> b = fs_data s i)"
  by (auto simp: view_def split: option.splits node.splits)

lemma committed_entries:
  assumes "wf_fs s"
  shows "committed (view s) = ce_body ` set (entries_of s)"
proof (rule set_eqI)
  fix p
  have eq: "p \<in> ce_body ` set (entries_of s) \<longleftrightarrow>
      (\<exists>shard key i. p = [shard, key] \<and> fs_lookup s [shard] = Some NDir \<and> fs_lookup s [shard, key] = Some (NFile i)
         \<and> valid_hex shard 2 \<and> valid_key key shard)"
    unfolding image_iff Bex_def entries_of_iff [OF assms] by fastforce
  show "p \<in> committed (view s) \<longleftrightarrow> p \<in> ce_body ` set (entries_of s)"
    unfolding eq committed_def mem_Collect_eq view_File view_Dir by blast
qed

lemma entry_size_at: "wf_fs s \<Longrightarrow> e \<in> set (entries_of s) \<Longrightarrow> size_at (view s) (ce_body e) = unat (ce_size e)"
  by (auto simp: entries_of_iff size_at_def view_file)

subsection \<open>The choice of victims\<close>

lemma victims_unpinned: "e \<in> set (victims pinned m used es) \<Longrightarrow> e \<in> set es \<and> \<not> pinned (ce_key e)"
  by (induction es arbitrary: used) (auto split: if_splits)

lemma distinct_victims: "distinct es \<Longrightarrow> distinct (victims pinned m used es)"
  by (induction es arbitrary: used) (auto dest: victims_unpinned)

lemma total_size_simps [simp]:
  "total_size [] = 0" "total_size (e # es) = unat (ce_size e) + total_size es"
  "total_size (xs @ ys) = total_size xs + total_size ys"
  by (simp_all add: total_size_def)

lemma victims_enough:
  "unat used - total_size (victims pinned m used es) \<le> unat m
   \<or> (\<forall>e\<in>set es. pinned (ce_key e) \<or> e \<in> set (victims pinned m used es))"
proof (induction es arbitrary: used)
  case Nil
  then show ?case by simp
next
  case (Cons e es)
  then show ?case
    using Cons.IH [of used] Cons.IH [of "saturating_sub used (ce_size e)"]
    by (auto simp: word_le_nat_alt word_sat)
qed

lemma victims_needed:
  "victims pinned m used es = us @ v # ws \<Longrightarrow> unat m < unat used - total_size us"
proof (induction es arbitrary: used us)
  case Nil
  then show ?case by simp
next
  case (Cons e es)
  show ?case
  proof (cases us)
    case Nil
    with Cons show ?thesis
      by (auto simp: word_le_nat_alt word_sat split: if_splits dest: Cons.IH)
  next
    case (Cons u us')
    with Cons.prems Cons.IH [of _ us] Cons.IH [of "saturating_sub used (ce_size e)" us'] show ?thesis
      by (auto simp: word_sat split: if_splits)
  qed
qed

lemma victims_oldest:
  assumes "sorted (map ce_modified es)" and "v \<in> set (victims pinned m used es)"
    and "e \<in> set es" and "e \<notin> set (victims pinned m used es)" and "\<not> pinned (ce_key e)"
  shows "ce_modified v \<le> ce_modified e"
  using assms
proof (induction es arbitrary: used)
  case Nil
  then show ?case by simp
next
  case (Cons x es)
  then show ?case
    by (fastforce split: if_splits dest: victims_unpinned)
qed

subsection \<open>The loop without failures\<close>

lemma fs_unlink_missing: "fs_lookup s p = None \<Longrightarrow> fs_unlink p s = s"
proof -
  assume "fs_lookup s p = None"
  then have "p \<notin> fst ` set (fs_nodes s)"
    by (auto simp: fs_lookup_def map_of_eq_None_iff split: if_splits)
  then have "filter (\<lambda>(q, _). q \<noteq> p) (fs_nodes s) = fs_nodes s"
    by (intro filter_True) (auto simp: image_iff)
  then show ?thesis
    by (simp add: fs_unlink_def)
qed

lemma remove_file_result:
  assumes "fs_faults s = []" and "fs_lookup s p \<noteq> Some NDir"
  shows "remove_file p s = (if fs_lookup s p = None then Inl not_found_error else Inr (), fs_unlink p s)"
  using assms
  by (auto simp: remove_file_def fs_op_no_faults fs_unlink_missing split: option.split node.split)

lemma evict_loop_victims:
  assumes "fs_faults (st_fs s) = []" and "\<forall>e\<in>set es. fs_lookup (st_fs s) (ce_body e) \<noteq> Some NDir"
  shows "\<exists>t. evict_loop m used es s = (Inr (), t) \<and> live_pin t = live_pin s
    \<and> st_fs t = fold fs_unlink (map ce_body (victims (live_pin s) m used es)) (st_fs s)"
  using assms
proof (induction es arbitrary: used s)
  case Nil
  then show ?case by (simp add: io_simps)
next
  case (Cons e es)
  obtain t where p: "is_pinned (ce_key e) s = (live_pin s (ce_key e), t)"
    by (cases "is_pinned (ce_key e) s") (use is_pinned_fields(1) [of "ce_key e" s] in simp)
  have t: "st_fs t = st_fs s" "live_pin t = live_pin s"
    using is_pinned_fields(2,3) [of "ce_key e" s] p by simp_all
  show ?case
  proof (cases "used \<le> m \<or> live_pin s (ce_key e)")
    case True
    then show ?thesis
      using Cons.IH [of t used] Cons.prems p t by (auto simp: io_simps)
  next
    case False
    let ?u = "t\<lparr>st_fs := fs_unlink (ce_body e) (st_fs s)\<rparr>"
    have "live_pin ?u = live_pin s"
      using t(2) by simp
    moreover have "evict_loop m used (e # es) s = evict_loop m (saturating_sub used (ce_size e)) es ?u"
      using False Cons.prems p t remove_file_result [of "st_fs s" "ce_body e"]
      by (auto simp: io_try_def io_simps not_found_error_def)
    ultimately show ?thesis
      using Cons.IH [of ?u "saturating_sub used (ce_size e)"] Cons.prems False
      by (auto simp: fs_lookup_unlink)
  qed
qed

lemma unat_sum_list:
  "sum_list (map (\<lambda>e. unat (f e)) es) < 2 ^ 64 \<Longrightarrow>
     unat (sum_list (map f es) :: u64) = sum_list (map (\<lambda>e. unat (f e)) es)"
  by (induction es) (auto simp: unat_word_ariths)

lemma total_size_filter:
  "total_size (filter P es) + total_size (filter (\<lambda>e. \<not> P e) es) = total_size es"
  by (induction es) auto

lemma total_size_set: "distinct es \<Longrightarrow> total_size es = (\<Sum>e\<in>set es. unat (ce_size e))"
  by (simp add: total_size_def sum_list_distinct_conv_sum_set)

lemma total_size_removed:
  assumes "distinct es" and "distinct vs" and "set vs \<subseteq> set es"
  shows "total_size (filter (\<lambda>e. e \<notin> set vs) es) + total_size vs = total_size es"
proof -
  have "total_size vs = total_size (filter (\<lambda>e. \<not> e \<notin> set vs) es)"
    using assms by (auto simp: total_size_set intro!: sum.cong)
  then show ?thesis
    using total_size_filter [of "\<lambda>e. e \<notin> set vs" es] by linarith
qed

lemma total_size_view:
  assumes "wf_fs s"
  shows "total_size (entries_of s) = (\<Sum>p\<in>committed (view s). size_at (view s) p)"
    and "finite (committed (view s))"
proof -
  have d: "distinct (map ce_body (entries_of s))"
    by (rule distinct_entries_of [OF wf_fs_distinct [OF assms]])
  then have "total_size (entries_of s) = (\<Sum>e\<in>set (entries_of s). size_at (view s) (ce_body e))"
    using entry_size_at [OF assms] by (simp add: total_size_set distinct_map)
  also have "\<dots> = (\<Sum>p\<in>ce_body ` set (entries_of s). size_at (view s) p)"
    using d by (simp add: sum.reindex distinct_map)
  finally show "total_size (entries_of s) = (\<Sum>p\<in>committed (view s). size_at (view s) p)"
    by (simp add: committed_entries [OF assms])
  show "finite (committed (view s))"
    by (simp add: committed_entries [OF assms])
qed

lemma evict_within_bound:
  assumes "fs_faults (st_fs s) = []" and "wf_fs (st_fs s)"
    and "total_size (entries_of (st_fs s)) \<le> unat (st_max_cache_size s)"
  shows "evict_files_to_bound s = (Inr (), s)"
proof -
  let ?es = "entries_of (st_fs s)"
  have "total_size ?es < 2 ^ 64"
    using assms(3) unat_less_2p [of "st_max_cache_size s"] by simp
  then have "unat (sum_list (map ce_size ?es)) = total_size ?es"
    by (simp add: total_size_def unat_sum_list)
  then show ?thesis
    using completed_entries_result [OF assms(1,2)] assms(3)
    by (simp add: evict_files_to_bound_def io_bind_def io_simps word_le_nat_alt)
qed

definition eviction_victims :: "store \<Rightarrow> completed_entry list" where
  "eviction_victims s =
     (let es = entries_of (st_fs s)
      in victims (live_pin s) (st_max_cache_size s) (sum_list (map ce_size es)) (sort_key ce_modified es))"

lemma entries_of_distinct: "wf_fs s \<Longrightarrow> distinct (map ce_body (entries_of s))"
  by (rule distinct_entries_of) (simp only: wf_fs_def)

lemma eviction_victims_entries:
  "v \<in> set (eviction_victims s) \<Longrightarrow> v \<in> set (entries_of (st_fs s)) \<and> \<not> live_pin s (ce_key v)"
  by (auto simp: eviction_victims_def Let_def dest: victims_unpinned)

lemma eviction_result:
  assumes "fs_faults (st_fs s) = []" and "wf_fs (st_fs s)"
  obtains t where "evict_files_to_bound s = (Inr (), t)" and "live_pin t = live_pin s"
    and "st_fs t = fold fs_unlink (map ce_body (eviction_victims s)) (st_fs s)"
proof -
  let ?es = "entries_of (st_fs s)"
  let ?used = "sum_list (map ce_size ?es)"
  have scan: "on_fs completed_entries_at s = (Inr ?es, s)"
    using completed_entries_result [OF assms] by (simp add: io_simps)
  have "fs_lookup (st_fs s) (ce_body e) \<noteq> Some NDir" if e: "e \<in> set ?es" for e
  proof -
    obtain i where "(ce_body e, NFile i) \<in> set (fs_nodes (st_fs s))"
      using entries_of_ok(2) [OF e] by blast
    then show ?thesis
      using fs_lookup_node [OF assms(2), of "ce_body e"] entry_ok_length [OF entries_of_ok(1) [OF e]]
      by fastforce
  qed
  then obtain t where loop: "evict_loop (st_max_cache_size s) ?used (sort_key ce_modified ?es) s = (Inr (), t)"
    and t: "live_pin t = live_pin s"
      "st_fs t = fold fs_unlink (map ce_body (eviction_victims s)) (st_fs s)"
    using evict_loop_victims [OF assms(1), of "sort_key ce_modified ?es" "st_max_cache_size s" ?used]
    by (auto simp: eviction_victims_def Let_def)
  show thesis
  proof (cases "?used \<le> st_max_cache_size s")
    case True
    then have "eviction_victims s = []"
      by (cases "sort_key ce_modified ?es") (simp_all add: eviction_victims_def Let_def)
    with True scan show ?thesis
      by (intro that [of s]) (simp_all add: evict_files_to_bound_def io_bind_def Let_def)
  next
    case False
    with scan loop t show ?thesis
      by (intro that [of t]) (simp_all add: evict_files_to_bound_def io_bind_def Let_def)
  qed
qed

lemma eviction_remaining:
  assumes "wf_fs (st_fs s)"
    and "st_fs t = fold fs_unlink (map ce_body (eviction_victims s)) (st_fs s)"
  shows "entries_of (st_fs t) = filter (\<lambda>e. e \<notin> set (eviction_victims s)) (entries_of (st_fs s))"
    and "total_size (entries_of (st_fs t)) + total_size (eviction_victims s) = total_size (entries_of (st_fs s))"
proof -
  let ?es = "entries_of (st_fs s)" and ?vs = "eviction_victims s"
  have inj: "distinct (map ce_body ?es)"
    using assms(1) by (rule entries_of_distinct)
  have sub: "set ?vs \<subseteq> set ?es"
    using eviction_victims_entries by blast
  have "length p = 2" if "p \<in> set (map ce_body ?vs)" for p
    using that sub entries_of_ok(1) [THEN entry_ok_length] by auto
  then have "entries_of (st_fs t) = filter (\<lambda>e. ce_body e \<notin> set (map ce_body ?vs)) ?es"
    unfolding assms(2) by (intro entries_of_unlinks) blast
  also have "\<dots> = filter (\<lambda>e. e \<notin> set ?vs) ?es"
    using inj sub by (intro filter_cong) (auto simp: distinct_map inj_on_def)
  finally show eq: "entries_of (st_fs t) = filter (\<lambda>e. e \<notin> set ?vs) ?es" .
  have "distinct ?vs"
    using inj by (simp add: eviction_victims_def Let_def distinct_victims distinct_map)
  with inj sub show "total_size (entries_of (st_fs t)) + total_size ?vs = total_size ?es"
    unfolding eq by (intro total_size_removed) (auto simp: distinct_map)
qed

lemma evict_bound:
  assumes "fs_faults (st_fs s) = []" and "wf_fs (st_fs s)"
    and "total_size (entries_of (st_fs s)) < 2 ^ 64"
  shows "\<exists>t. evict_files_to_bound s = (Inr (), t)
    \<and> (total_size (entries_of (st_fs t)) \<le> unat (st_max_cache_size s)
       \<or> (\<forall>e\<in>set (entries_of (st_fs t)). live_pin s (ce_key e)))
    \<and> (\<forall>e\<in>set (entries_of (st_fs s)). live_pin s (ce_key e) \<longrightarrow> e \<in> set (entries_of (st_fs t)))"
proof -
  let ?es = "entries_of (st_fs s)" and ?vs = "eviction_victims s"
  obtain t where t: "evict_files_to_bound s = (Inr (), t)"
    "st_fs t = fold fs_unlink (map ce_body ?vs) (st_fs s)"
    using eviction_result [OF assms(1,2)] by blast
  have used: "unat (sum_list (map ce_size ?es)) = total_size ?es"
    using assms(3) by (simp add: total_size_def unat_sum_list)
  note left = eviction_remaining [OF assms(2) t(2)]
  have "total_size (entries_of (st_fs t)) \<le> unat (st_max_cache_size s)
      \<or> (\<forall>e\<in>set (entries_of (st_fs t)). live_pin s (ce_key e))"
    using victims_enough [of "sum_list (map ce_size ?es)" "live_pin s" "st_max_cache_size s"
        "sort_key ce_modified ?es"] left used
    by (auto simp: eviction_victims_def Let_def)
  then show ?thesis
    using t(1) left(1) eviction_victims_entries [of _ s] by auto
qed

text \<open>
  C26: Eviction brings the cache within its bound.  When the operating system reports no failure and the
  sizes of the entries do not overflow 64 bits, a pass succeeds, every entry with a live pin is still
  there, and the entries that are left add up to at most \<^verbatim>\<open>max_cache_size\<close> bytes, unless all that is
  left is pinned.
\<close>

theorem evict_to_bound_spec:
  assumes "fs_faults (st_fs s) = []" and "wf_fs (st_fs s)"
    and "total_size (entries_of (st_fs s)) < 2 ^ 64"
  shows "\<exists>t. evict_files_to_bound s = (Inr (), t)
    \<and> (total_size (entries_of (st_fs t)) \<le> unat (st_max_cache_size s)
       \<or> (\<forall>e\<in>set (entries_of (st_fs t)). live_pin s (ce_key e)))
    \<and> (\<forall>e\<in>set (entries_of (st_fs s)). live_pin s (ce_key e) \<longrightarrow> e \<in> set (entries_of (st_fs t)))"
  using assms by (rule evict_bound)

text \<open>
  C27: Eviction is least-recently-written first and takes no more than it has to.  No entry that is removed
  is newer than an unpinned entry that is kept, and before each removal the bound was still exceeded.
\<close>

theorem evict_oldest_first:
  assumes "fs_faults (st_fs s) = []" and "wf_fs (st_fs s)"
    and "total_size (entries_of (st_fs s)) < 2 ^ 64"
  shows "\<exists>t vs. evict_files_to_bound s = (Inr (), t)
    \<and> entries_of (st_fs t) = filter (\<lambda>e. e \<notin> set vs) (entries_of (st_fs s))
    \<and> (\<forall>v\<in>set vs. \<forall>e\<in>set (entries_of (st_fs t)).
         \<not> live_pin s (ce_key e) \<longrightarrow> ce_modified v \<le> ce_modified e)
    \<and> (\<forall>us v ws. vs = us @ v # ws \<longrightarrow>
         unat (st_max_cache_size s) < total_size (entries_of (st_fs s)) - total_size us)"
proof -
  let ?es = "entries_of (st_fs s)" and ?vs = "eviction_victims s"
  obtain t where t: "evict_files_to_bound s = (Inr (), t)"
    "st_fs t = fold fs_unlink (map ce_body ?vs) (st_fs s)"
    using eviction_result [OF assms(1,2)] by blast
  have used: "unat (sum_list (map ce_size ?es)) = total_size ?es"
    using assms(3) by (simp add: total_size_def unat_sum_list)
  note left = eviction_remaining(1) [OF assms(2) t(2)]
  have "ce_modified v \<le> ce_modified e"
    if "v \<in> set ?vs" "e \<in> set (entries_of (st_fs t))" "\<not> live_pin s (ce_key e)" for v e
    using that left
    by (intro victims_oldest [of "sort_key ce_modified ?es" v "live_pin s" "st_max_cache_size s"
          "sum_list (map ce_size ?es)" e]) (auto simp: eviction_victims_def Let_def)
  moreover have "unat (st_max_cache_size s) < total_size ?es - total_size us" if "?vs = us @ v # ws" for us v ws
    using victims_needed [OF that [unfolded eviction_victims_def Let_def]] used by simp
  ultimately show ?thesis
    using t(1) left by blast
qed

text \<open>A cache of three entries, the oldest of them pinned, with a bound that only two of them meet.\<close>

definition third_key :: string where
  "third_key = concat (replicate 16 ''ab23'')"

definition busy_store :: store where
  "busy_store =
     snd (pin sample_key (empty_store
       \<lparr>fs_nodes = [([take 2 sample_key, sample_key], NFile 0), ([take 2 other_key, other_key], NFile 1),
                    ([take 2 third_key, third_key], NFile 2), ([take 2 sample_key], NDir),
                    ([take 2 other_key], NDir), ([CACHE_MARKER], NFile 3)],
        fs_data = (\<lambda>_. [])(0 := ''12345'', 1 := ''1234567'', 2 := ''1234''), fs_pending = (\<lambda>_. []),
        fs_mtime = (\<lambda>_. 9)(0 := 1, 1 := 2, 2 := 3), fs_next = 4, fs_clock = 5,
        fs_marker_locked = True, fs_faults = []\<rparr> 10 4))"

lemma busy_store_ok:
  "fs_faults (st_fs busy_store) = []" "wf_fs (st_fs busy_store)"
  "total_size (entries_of (st_fs busy_store)) < 2 ^ 64"
proof -
  show "fs_faults (st_fs busy_store) = []"
    by code_simp
  have "total_size (entries_of (st_fs busy_store)) = 16"
    by code_simp
  then show "total_size (entries_of (st_fs busy_store)) < 2 ^ 64"
    by simp
  show "wf_fs (st_fs busy_store)"
    by (rule wf_fs_check) code_simp+
qed

lemma evict_to_bound_spec_witness:
  "\<exists>t. evict_files_to_bound busy_store = (Inr (), t)
     \<and> (total_size (entries_of (st_fs t)) \<le> unat (st_max_cache_size busy_store)
        \<or> (\<forall>e\<in>set (entries_of (st_fs t)). live_pin busy_store (ce_key e)))
     \<and> unat (st_max_cache_size busy_store) < total_size (entries_of (st_fs busy_store))"
proof -
  have "unat (st_max_cache_size busy_store) < total_size (entries_of (st_fs busy_store))"
    by code_simp
  then show ?thesis
    using evict_to_bound_spec [OF busy_store_ok] by blast
qed

lemma evict_oldest_first_witness:
  "\<exists>t vs. evict_files_to_bound busy_store = (Inr (), t)
     \<and> entries_of (st_fs t) = filter (\<lambda>e. e \<notin> set vs) (entries_of (st_fs busy_store))
     \<and> live_pin busy_store sample_key \<and> \<not> live_pin busy_store third_key"
proof -
  have "live_pin busy_store sample_key \<and> \<not> live_pin busy_store third_key"
    by code_simp
  then show ?thesis
    using evict_oldest_first [OF busy_store_ok] by blast
qed

subsection \<open>Eviction when operations fail\<close>

lemma read_only_dir_ops [intro, simp]:
  "read_only next_entry" "read_only (entry_is_dir n)" "read_only (entry_is_file n)"
  "read_only (entry_metadata n)"
  unfolding next_entry_def entry_is_dir_def entry_is_file_def entry_metadata_def
  by (auto split: node.split)

lemma read_only_shard_directories_loop: "read_only (shard_directories_loop xs out)"
  by (induction xs out rule: shard_directories_loop.induct) (auto intro!: read_only_bind split: option.split)

lemma read_only_collect_entries: "read_only (collect_entries shard dir xs out)"
  by (induction shard dir xs out rule: collect_entries.induct)
    (auto intro!: read_only_try read_only_bind split: sum.split option.split)

lemma read_only_completed_entries_loop: "read_only (completed_entries_loop xs out)"
  by (induction xs out rule: completed_entries_loop.induct)
    (auto intro!: read_only_bind simp: read_only_collect_entries)

lemma read_only_shard_directories: "read_only shard_directories"
  unfolding shard_directories_def
  by (auto simp: read_only_shard_directories_loop split: sum.split)

lemma read_only_completed_entries_at: "read_only completed_entries_at"
  unfolding completed_entries_at_def
  by (auto simp: read_only_shard_directories read_only_completed_entries_loop)

text \<open>The scan returns committed entries only, whatever fails on the way.\<close>

lemma shard_directories_loop_yields:
  "\<forall>(shard, dir)\<in>set out. dir = [shard] \<and> valid_hex shard 2 \<Longrightarrow>
     yields (list_all (\<lambda>(shard, dir). dir = [shard] \<and> valid_hex shard 2)) (shard_directories_loop xs out)"
  by (induction xs out rule: shard_directories_loop.induct)
    (auto intro!: yields_bind [OF yields_any] yields_return simp: list_all_iff to_str_def)

lemma shard_directories_yields:
  "yields (list_all (\<lambda>(shard, dir). dir = [shard] \<and> valid_hex shard 2)) shard_directories"
  unfolding shard_directories_def
  by (auto intro!: yields_try yields_return shard_directories_loop_yields split: sum.split)

lemma collect_entries_yields:
  "list_all entry_ok out \<Longrightarrow> valid_hex shard 2 \<Longrightarrow> dir = [shard] \<Longrightarrow>
     yields (list_all entry_ok) (collect_entries shard dir xs out)"
  by (induction shard dir xs out rule: collect_entries.induct)
    (auto intro!: yields_bind [OF yields_any] yields_try yields_return
      simp: entry_ok_def to_str_def split: sum.split)

lemma completed_entries_loop_yields:
  "list_all (\<lambda>(shard, dir). dir = [shard] \<and> valid_hex shard 2) xs \<Longrightarrow> list_all entry_ok out \<Longrightarrow>
     yields (list_all entry_ok) (completed_entries_loop xs out)"
proof (induction xs out rule: completed_entries_loop.induct)
  case (2 shard dir shards out)
  then show ?case
    by simp (rule yields_bind [OF yields_any], rule yields_bind [OF collect_entries_yields], auto)
qed auto

lemma completed_entries_at_yields: "yields (list_all entry_ok) completed_entries_at"
  unfolding completed_entries_at_def
  by (rule yields_bind [OF shard_directories_yields]) (simp add: completed_entries_loop_yields)

text \<open>What an eviction pass may do to a store.\<close>

definition evictable :: "store \<Rightarrow> path \<Rightarrow> bool" where
  "evictable s p \<longleftrightarrow>
     (case p of [shard, key] \<Rightarrow> valid_hex shard 2 \<and> valid_key key shard \<and> \<not> live_pin s key | _ \<Rightarrow> False)"

definition only_evicts :: "store \<Rightarrow> store \<Rightarrow> bool" where
  "only_evicts s t \<longleftrightarrow>
     (\<forall>p. fs_lookup (st_fs t) p = fs_lookup (st_fs s) p \<or> fs_lookup (st_fs t) p = None \<and> evictable s p)
     \<and> fs_data (st_fs t) = fs_data (st_fs s) \<and> fs_pending (st_fs t) = fs_pending (st_fs s)
     \<and> fs_mtime (st_fs t) = fs_mtime (st_fs s) \<and> fs_next (st_fs t) = fs_next (st_fs s)
     \<and> live_pin t = live_pin s \<and> st_inflight t = st_inflight s \<and> st_outcomes t = st_outcomes s
     \<and> st_upstream_permits t = st_upstream_permits s \<and> st_memory_permits t = st_memory_permits s
     \<and> fs_marker_locked (st_fs t) = fs_marker_locked (st_fs s)
     \<and> (wf_fs (st_fs s) \<longrightarrow> wf_fs (st_fs t))"

lemma evictable_cong: "live_pin t = live_pin s \<Longrightarrow> evictable t = evictable s"
  by (simp add: evictable_def [abs_def])

lemma only_evicts_refl: "only_evicts s s"
  by (simp add: only_evicts_def)

lemma only_evicts_trans: "only_evicts s t \<Longrightarrow> only_evicts t u \<Longrightarrow> only_evicts s u"
  unfolding only_evicts_def using evictable_cong [of t s] by auto metis+

lemma only_evicts_faults:
  "only_evicts s (s\<lparr>st_fs := (st_fs s)\<lparr>fs_faults := fl\<rparr>\<rparr>)"
  by (simp add: only_evicts_def)

lemma only_evicts_is_pinned: "only_evicts s (snd (is_pinned key s))"
  by (simp add: only_evicts_def) (simp add: is_pinned_def Let_def)

lemma only_evicts_remove:
  assumes "evictable s p"
  shows "only_evicts s (snd (on_fs (remove_file p) s))"
proof -
  obtain r f where d: "draw (st_fs s) = (r, f)" and f: "f = (st_fs s)\<lparr>fs_faults := fs_faults f\<rparr>"
    by (rule draw_cases)
  note same = faults_same(2-10) [OF f]
  show ?thesis
    using d same assms
    by (auto simp: only_evicts_def io_simps remove_file_def fs_op_def fs_lookup_unlink wf_fs_unlink
        split: option.split node.split)
qed

lemma evict_loop_only_evicts:
  "list_all entry_ok es \<Longrightarrow> only_evicts s (snd (evict_loop m used es s))"
proof (induction es arbitrary: used s)
  case Nil
  then show ?case by (simp add: io_simps only_evicts_refl)
next
  case (Cons e es)
  obtain t where p: "is_pinned (ce_key e) s = (live_pin s (ce_key e), t)"
    by (cases "is_pinned (ce_key e) s") (use is_pinned_fields(1) [of "ce_key e" s] in simp)
  have st: "only_evicts s t" and live: "live_pin t = live_pin s"
    using only_evicts_is_pinned [of s "ce_key e"] is_pinned_fields(3) [of "ce_key e" s] p by simp_all
  show ?case
  proof (cases "used \<le> m \<or> live_pin s (ce_key e)")
    case True
    then show ?thesis
      using Cons.IH [of t used] Cons.prems p st
      by (auto simp: io_simps only_evicts_refl intro: only_evicts_trans)
  next
    case False
    then have "evictable t (ce_body e)"
      using Cons.prems live by (auto simp: evictable_def entry_ok_def split: list.splits)
    then have "only_evicts t (snd (on_fs (remove_file (ce_body e)) t))"
      by (rule only_evicts_remove)
    then have "only_evicts t (snd (evict_loop m used' es (snd (on_fs (remove_file (ce_body e)) t))))" for used'
      using Cons by (auto intro: only_evicts_trans)
    with False p st show ?thesis
      by (auto simp: io_try_def split: prod.split sum.split intro: only_evicts_trans)
  qed
qed

lemma evict_only_unpinned: "only_evicts s (snd (evict_files_to_bound s))"
proof -
  obtain r f where scan: "completed_entries_at (st_fs s) = (r, f)"
    by force
  let ?t = "s\<lparr>st_fs := f\<rparr>"
  have t: "only_evicts s ?t"
    using read_onlyD [OF read_only_completed_entries_at scan] only_evicts_faults by metis
  show ?thesis
  proof (cases r)
    case (Inl e)
    with scan t show ?thesis
      by (simp add: evict_files_to_bound_def io_bind_def io_simps)
  next
    case (Inr es)
    have "list_all entry_ok (sort_key ce_modified es)"
      using yieldsD [OF completed_entries_at_yields] scan Inr by (simp add: list_all_iff)
    with evict_loop_only_evicts t Inr scan show ?thesis
      by (auto simp: evict_files_to_bound_def io_bind_def io_simps Let_def intro: only_evicts_trans)
  qed
qed

text \<open>
  C5: Eviction never touches anything else.  Whatever failures the operating system injects, and
  whatever else the directory holds, a pass changes nothing but the names of committed entries without
  a live pin, which it may remove: temp files, the marker, foreign files, pinned entries, the bytes of
  every file (also of removed entries that a reader still has open) and the requests in flight stay.
\<close>

theorem evict_only_unpinned_entries:
  "let t = snd (evict_files_to_bound s) in
   (\<forall>p. fs_lookup (st_fs t) p = fs_lookup (st_fs s) p
      \<or> fs_lookup (st_fs t) p = None
         \<and> (\<exists>shard key. p = [shard, key] \<and> valid_hex shard 2 \<and> valid_key key shard \<and> \<not> live_pin s key))
   \<and> fs_data (st_fs t) = fs_data (st_fs s) \<and> live_pin t = live_pin s
   \<and> st_inflight t = st_inflight s \<and> st_outcomes t = st_outcomes s"
proof -
  have "evictable s p \<longleftrightarrow>
      (\<exists>shard key. p = [shard, key] \<and> valid_hex shard 2 \<and> valid_key key shard \<and> \<not> live_pin s key)" for p
    by (auto simp: evictable_def split: list.split)
  then show ?thesis
    using evict_only_unpinned [of s] by (simp add: only_evicts_def Let_def)
qed

end
