(* ===== verification/Publish.thy ===== *)
theory Publish
  imports Eviction
begin

text \<open>
  \<^verbatim>\<open>src/cache.rs\<close>, publishing: an entry is written to a temp file and renamed to its final name.
\<close>

section \<open>Publishing\<close>

definition next_temp_path :: "path \<Rightarrow> (store, path) io" where
  "next_temp_path p = (\<lambda>s.
     (Inr (unique_temp_path (st_temp_counter s) p), s\<lparr>st_temp_counter := st_temp_counter s + 1\<rparr>))"

text \<open>\<^verbatim>\<open>MetadataTempCleanup\<close>: unless it was disarmed, the guard removes the temp file.\<close>

definition with_temp_cleanup :: "path \<Rightarrow> (store, 'a) io \<Rightarrow> (store, 'a) io" where
  "with_temp_cleanup p m = (\<lambda>s.
     case m s of
       (Inr x, t) \<Rightarrow> (Inr x, t)
     | (Inl e, t) \<Rightarrow> (Inl e, snd (on_fs (remove_file p) t)))"

definition write_and_rename :: "path \<Rightarrow> path \<Rightarrow> bytes \<Rightarrow> bytes \<Rightarrow> u32 \<Rightarrow> (fs, unit) io" where
  "write_and_rename temp_path body_path body meta_bytes meta_len =
     io_bind (create_file temp_path) (\<lambda>file.
     io_bind (write_all file body) (\<lambda>_.
     io_bind (write_all file meta_bytes) (\<lambda>_.
     io_bind (write_all file (to_be_bytes meta_len)) (\<lambda>_.
     io_bind (flush_file file) (\<lambda>_.
     rename_file temp_path body_path)))))"

definition store_metadata ::
  "meta_codec \<Rightarrow> string \<Rightarrow> bytes \<Rightarrow> stored_response_meta \<Rightarrow> (store, unit) io" where
  "store_metadata C key body meta =
     (let paths = paths_for key in
      io_bind (on_fs (create_dir_all (butlast (paths_body paths)))) (\<lambda>_.
      io_bind (next_temp_path (paths_temp paths)) (\<lambda>temp_path.
      io_bind (io_lift (serialize_meta C meta)) (\<lambda>meta_bytes.
      io_bind (io_lift (meta_len_u32 meta_bytes)) (\<lambda>meta_len.
      io_bind
        (with_temp_cleanup temp_path
          (on_fs (write_and_rename temp_path (paths_body paths) body meta_bytes meta_len))) (\<lambda>_.
      evict_files_to_bound))))))"

text \<open>
  \<^verbatim>\<open>commit_artifact\<close> appends metadata and footer to the temp file, pins the key and renames.  The
  appended bytes are not flushed.  If the rename fails the publication is dropped on the way out.
\<close>

definition commit_artifact ::
  "meta_codec \<Rightarrow> string \<Rightarrow> stored_response_meta \<Rightarrow> path \<Rightarrow> (store, published_entry) io" where
  "commit_artifact C key meta temp_path =
     (let paths = paths_for key in
      io_bind (io_lift (serialize_meta C meta)) (\<lambda>meta_bytes.
      io_bind (io_lift (meta_len_u32 meta_bytes)) (\<lambda>meta_len.
      io_bind (on_fs (open_file temp_path)) (\<lambda>file.
      io_bind (on_fs (write_all file meta_bytes)) (\<lambda>_.
      io_bind (on_fs (write_all file (to_be_bytes meta_len))) (\<lambda>_ s.
      (case pin key s of
         (published, t) \<Rightarrow>
           io_try (on_fs (rename_file temp_path (paths_body paths))) (\<lambda>r.
           case r of
             Inr _ \<Rightarrow> io_return published
           | Inl e \<Rightarrow> (\<lambda>u. (Inl e, drop_published published u))) t)))))))"

section \<open>Lemmas\<close>

lemma ends_on_fs:
  "ends (\<lambda>e f. E e (s\<lparr>st_fs := f\<rparr>)) (\<lambda>x f. Q x (s\<lparr>st_fs := f\<rparr>)) m (st_fs s) \<Longrightarrow> ends E Q (on_fs m) s"
  by (auto simp: ends_def on_fs_def split: prod.splits sum.splits)

text \<open>Writing a file under a temp name and renaming it is atomic, wherever it fails.\<close>

lemma write_and_rename_atomic:
  assumes "wf_fs s" and "temp \<noteq> dest" and "temp \<noteq> []" and "dest \<noteq> []"
  shows "ends (\<lambda>_ t. changes_at temp s t)
    (\<lambda>_ t. wf_fs t \<and> view t = (view s)(temp := None, dest \<mapsto> File (body @ mb @ to_be_bytes ml))
       \<and> view s dest \<noteq> Some Dir)
    (write_and_rename temp dest body mb ml) s"
proof -
  let ?E = "\<lambda>_ t. changes_at temp s t"
  let ?Q = "\<lambda>_ t. wf_fs t \<and> view t = (view s)(temp := None, dest \<mapsto> File (body @ mb @ to_be_bytes ml))
       \<and> view s dest \<noteq> Some Dir"
  let ?W = "\<lambda>i bs t. changes_at temp s t \<and> writing temp i bs t"
  have written: "ends ?E (\<lambda>_. ?W i (bs @ new)) (write_all i new) t" if "?W i bs t" for i bs new t
    using write_all_view [of temp i bs t new] that
    by (intro endsI) (auto split: sum.splits intro: changes_at_trans)
  have create: "ends ?E (\<lambda>i. ?W i []) (create_file temp) s"
    using create_file_view [OF assms(1,3)] by (intro endsI) (auto split: sum.splits)
  have flush: "ends ?E (\<lambda>_ u. changes_at temp s u \<and> view u temp = Some (File bs)) (flush_file i) t"
    if "?W i bs t" for i bs t
    using flush_file_view [of temp i bs t] that
    by (intro endsI) (auto split: sum.splits intro: changes_at_trans)
  have rename: "ends ?E ?Q (rename_file temp dest) t"
    if "changes_at temp s t \<and> view t temp = Some (File (((([] @ body) @ mb) @ to_be_bytes ml)))" for t
  proof (rule endsI)
    fix r u
    assume u: "rename_file temp dest t = (r, u)"
    from that have t: "wf_fs t" "view t temp = Some (File (((([] @ body) @ mb) @ to_be_bytes ml)))"
      and tv: "view t dest = view s dest" "\<exists>x. view t = (view s)(temp := x)"
      using assms(2) by (auto simp: changes_at_def)
    show "case r of Inl e \<Rightarrow> ?E e u | Inr x \<Rightarrow> ?Q x u"
      using rename_file_view [OF t assms(2-4) u] that tv
      by (cases r) (auto intro: changes_at_trans changes_at_same)
  qed
  show ?thesis
    unfolding write_and_rename_def
    by (rule ends_bind [OF create], rule ends_bind [OF written], assumption,
        rule ends_bind [OF written], assumption, rule ends_bind [OF written], assumption,
        rule ends_bind [OF flush], assumption) (rule rename)
qed

subsection \<open>Names\<close>

text \<open>A key as \<^verbatim>\<open>hash_key\<close> makes it.\<close>

definition key_ok :: "string \<Rightarrow> bool" where
  "key_ok key \<longleftrightarrow> valid_hex key 64"

abbreviation body_path :: "string \<Rightarrow> path" where
  "body_path key \<equiv> paths_body (paths_for key)"

abbreviation shard_path :: "string \<Rightarrow> path" where
  "shard_path key \<equiv> [take 2 key]"

abbreviation metadata_temp_path :: "store \<Rightarrow> string \<Rightarrow> path" where
  "metadata_temp_path s key \<equiv> unique_temp_path (st_temp_counter s) (paths_temp (paths_for key))"

lemma body_path_eq: "body_path key = [take 2 key, key]"
  by (simp add: paths_for_def Let_def)

lemma butlast_body_path: "butlast (body_path key) = shard_path key"
  by (simp add: body_path_eq)

lemma temp_path_eq:
  "paths_temp (paths_for key) = [take 2 key, key @ ''.part'']"
  "unique_temp_path n [take 2 key, key @ ''.part''] = [take 2 key, key @ ''.part.'' @ decimal (unat n) @ ''.part'']"
  by (simp_all add: paths_for_def unique_temp_path_def Let_def)

lemma temp_not_committed:
  "\<not> evictable s (unique_temp_path n (paths_temp (paths_for key)))"
  "\<not> evictable s (paths_temp (paths_for key))"
  unfolding temp_path_eq evictable_def
  by (auto dest!: valid_key_no_dot)

lemma temp_neq_body:
  "unique_temp_path n (paths_temp (paths_for key)) \<noteq> body_path key'" if "key_ok key'"
  using that digest_chars_no_dot [of key' 64]
  by (auto simp: temp_path_eq body_path_eq key_ok_def)

lemma only_evicts_view:
  "only_evicts s t \<Longrightarrow>
     view (st_fs t) p = view (st_fs s) p \<or> view (st_fs t) p = None \<and> evictable s p"
proof -
  assume t: "only_evicts s t"
  then have "fs_lookup (st_fs t) p = fs_lookup (st_fs s) p \<or> fs_lookup (st_fs t) p = None \<and> evictable s p"
    and "fs_data (st_fs t) = fs_data (st_fs s)"
    by (simp_all add: only_evicts_def)
  then show ?thesis
    by (elim disjE conjE) (simp_all add: view_def split: option.split node.split)
qed

text \<open>
  What a request to store metadata may have done to the tree when it ends, whatever it returns: \<open>packed\<close> is
  the complete entry.
\<close>

definition store_effect :: "store \<Rightarrow> string \<Rightarrow> bytes \<Rightarrow> store \<Rightarrow> bool" where
  "store_effect s key packed t \<longleftrightarrow>
     wf_fs (st_fs t) \<and> live_pin t = live_pin s
     \<and> (\<forall>p. p \<notin> {body_path key, shard_path key, metadata_temp_path s key} \<longrightarrow>
          view (st_fs t) p = view (st_fs s) p \<or> view (st_fs t) p = None \<and> evictable s p)
     \<and> view (st_fs t) (body_path key)
        \<in> {view (st_fs s) (body_path key), Some (File packed)} \<union> (if live_pin s key then {} else {None})"

lemma store_effect_fs:
  assumes "wf_fs f" and "live_pin t = live_pin s"
    and "\<forall>p. p \<notin> {body_path key, shard_path key, metadata_temp_path s key} \<longrightarrow> view f p = view (st_fs s) p"
    and "view f (body_path key) \<in> {view (st_fs s) (body_path key), Some (File packed)}"
    and "st_fs t = f"
  shows "store_effect s key packed t"
  using assms by (auto simp: store_effect_def)

lemma store_effect_evict:
  assumes "store_effect s key packed t"
  shows "store_effect s key packed (snd (evict_files_to_bound t))"
proof -
  let ?u = "snd (evict_files_to_bound t)"
  have u: "only_evicts t ?u"
    by (rule evict_only_unpinned)
  have live: "live_pin t = live_pin s" "live_pin ?u = live_pin s"
    using assms u by (simp_all add: store_effect_def only_evicts_def)
  note ev = only_evicts_view [OF u, unfolded evictable_cong [OF live(1)]]
  have body: "\<not> evictable s (body_path key)" if "live_pin s key"
    using that by (simp add: evictable_def body_path_eq)
  have "wf_fs (st_fs ?u)"
    using assms u by (simp add: store_effect_def only_evicts_def)
  moreover have "view (st_fs ?u) p = view (st_fs s) p \<or> view (st_fs ?u) p = None \<and> evictable s p"
    if "p \<notin> {body_path key, shard_path key, metadata_temp_path s key}" for p
    using assms that ev [of p] unfolding store_effect_def by metis
  moreover have "view (st_fs ?u) (body_path key)
      \<in> {view (st_fs s) (body_path key), Some (File packed)} \<union> (if live_pin s key then {} else {None})"
  proof (cases "live_pin s key")
    case True
    then show ?thesis
      using assms ev [of "body_path key"] body by (simp add: store_effect_def)
  next
    case False
    then show ?thesis
      using assms ev [of "body_path key"] unfolding store_effect_def by auto
  qed
  ultimately show ?thesis
    unfolding store_effect_def using live by blast
qed

text \<open>A bind whose continuation runs after success only: both ends in one relation.\<close>

lemma store_metadata_ends:
  assumes "wf_fs (st_fs s)" and "key_ok key" and "pack_footer C body meta = Inr packed"
  shows "ends (\<lambda>_ t. store_effect s key packed t)
    (\<lambda>_ t. store_effect s key packed t
       \<and> view (st_fs t) (body_path key) \<in> {Some (File packed)} \<union> (if live_pin s key then {} else {None})
       \<and> view (st_fs t) (metadata_temp_path s key) = None)
    (store_metadata C key body meta) s"
proof -
  let ?E = "\<lambda>_ t. store_effect s key packed t"
  let ?dest = "body_path key" and ?temp = "metadata_temp_path s key" and ?shard = "shard_path key"
  obtain mb where mb: "serialize_meta C meta = Inr mb" "meta_len_u32 mb = Inr (of_nat (length mb))"
    and packed: "packed = body @ mb @ to_be_bytes (of_nat (length mb))"
    using assms(3) by (auto simp: format_defs split: sum.splits if_splits)
  let ?D = "\<lambda>t. wf_fs (st_fs t) \<and> live_pin t = live_pin s \<and> st_temp_counter t = st_temp_counter s
    \<and> (\<forall>p. p \<noteq> ?shard \<longrightarrow> view (st_fs t) p = view (st_fs s) p)"
  have mkdir: "ends ?E (\<lambda>_. ?D) (on_fs (create_dir_all ?shard)) s"
  proof (rule ends_on_fs, rule endsI)
    fix r f assume "create_dir_all ?shard (st_fs s) = (r, f)"
    from create_dir_all_view [OF assms(1) this]
    have "wf_fs f" "\<forall>p. p \<noteq> ?shard \<longrightarrow> view f p = view (st_fs s) p"
      by auto
    then show "case r of
         Inl e \<Rightarrow> store_effect s key packed (s\<lparr>st_fs := f\<rparr>)
       | Inr x \<Rightarrow> ?D (s\<lparr>st_fs := f\<rparr>)"
      by (cases r) (auto simp: body_path_eq intro!: store_effect_fs [of f])
  qed
  have neq: "?temp \<noteq> ?dest" "?temp \<noteq> []" "?dest \<noteq> []" "?dest \<noteq> ?shard" "?temp \<noteq> ?shard"
    using temp_neq_body [OF assms(2)] by (simp_all add: temp_path_eq body_path_eq)
  have publish: "ends ?E (\<lambda>_ u. store_effect s key packed u \<and> view (st_fs u) ?dest = Some (File packed)
        \<and> view (st_fs u) ?temp = None)
      (with_temp_cleanup ?temp (on_fs (write_and_rename ?temp ?dest body mb (of_nat (length mb))))) t"
    if t: "wf_fs (st_fs t) \<and> live_pin t = live_pin s \<and> (\<forall>p. p \<noteq> ?shard \<longrightarrow> view (st_fs t) p = view (st_fs s) p)" for t
  proof (cases "write_and_rename ?temp ?dest body mb (of_nat (length mb)) (st_fs t)")
    case (Pair r f)
    have res: "case r of
        Inl _ \<Rightarrow> changes_at ?temp (st_fs t) f
      | Inr _ \<Rightarrow> wf_fs f \<and> view f = (view (st_fs t))(?temp := None, ?dest \<mapsto> File packed)"
      using endsD [OF write_and_rename_atomic Pair] t neq packed by (auto split: sum.splits)
    show ?thesis
    proof (cases r)
      case (Inl e)
      let ?g = "snd (remove_file ?temp f)"
      have "changes_at ?temp (st_fs t) ?g"
        using res Inl remove_file_changes [of f ?temp] neq by (auto simp: changes_at_def intro: changes_at_trans)
      then have "wf_fs ?g" "\<And>p. p \<noteq> ?temp \<Longrightarrow> view ?g p = view (st_fs t) p"
        by (auto simp: changes_at_def)
      then have "store_effect s key packed (t\<lparr>st_fs := ?g\<rparr>)"
        using t neq by (intro store_effect_fs [of ?g]) auto
      with Pair Inl show ?thesis
        by (simp add: ends_def with_temp_cleanup_def io_simps)
    next
      case (Inr x)
      then have "store_effect s key packed (t\<lparr>st_fs := f\<rparr>)"
        using t res neq by (intro store_effect_fs [of f]) auto
      with Pair Inr res neq show ?thesis
        by (simp add: ends_def with_temp_cleanup_def io_simps)
    qed
  qed
  have evict: "ends ?E (\<lambda>_ u. store_effect s key packed u
       \<and> view (st_fs u) ?dest \<in> {Some (File packed)} \<union> (if live_pin s key then {} else {None})
       \<and> view (st_fs u) ?temp = None) evict_files_to_bound t"
    if t: "store_effect s key packed t \<and> view (st_fs t) ?dest = Some (File packed) \<and> view (st_fs t) ?temp = None" for t
  proof -
    have live: "live_pin t = live_pin s"
      using t by (simp add: store_effect_def)
    note ev = only_evicts_view [OF evict_only_unpinned [of t], unfolded evictable_cong [OF live]]
    have "live_pin s key \<Longrightarrow> \<not> evictable s ?dest"
      by (simp add: evictable_def body_path_eq)
    moreover have "store_effect s key packed (snd (evict_files_to_bound t))"
      using t by (intro store_effect_evict) blast
    ultimately show ?thesis
      using t ev [of ?dest] ev [of ?temp] temp_not_committed(1) [of s "st_temp_counter s" key]
      by (intro endsI) (auto split: sum.split)
  qed
  have rest: "ends ?E (\<lambda>_ u. store_effect s key packed u
       \<and> view (st_fs u) ?dest \<in> {Some (File packed)} \<union> (if live_pin s key then {} else {None})
       \<and> view (st_fs u) ?temp = None)
      (io_bind (next_temp_path (paths_temp (paths_for key))) (\<lambda>temp_path.
       io_bind (io_lift (serialize_meta C meta)) (\<lambda>meta_bytes.
       io_bind (io_lift (meta_len_u32 meta_bytes)) (\<lambda>meta_len.
       io_bind (with_temp_cleanup temp_path
          (on_fs (write_and_rename temp_path ?dest body meta_bytes meta_len))) (\<lambda>_.
       evict_files_to_bound))))) t" if t: "?D t" for t
  proof -
    have next_path: "next_temp_path (paths_temp (paths_for key)) t
        = (Inr ?temp, t\<lparr>st_temp_counter := st_temp_counter t + 1\<rparr>)"
      using t by (simp add: next_temp_path_def)
    have "live_pin (t\<lparr>st_temp_counter := n\<rparr>) = live_pin t" for n
      by (simp add: live_pin_def fun_eq_iff cong: option.case_cong)
    then have "ends ?E (\<lambda>_ u. store_effect s key packed u
       \<and> view (st_fs u) ?dest \<in> {Some (File packed)} \<union> (if live_pin s key then {} else {None})
       \<and> view (st_fs u) ?temp = None)
      (io_bind (with_temp_cleanup ?temp (on_fs (write_and_rename ?temp ?dest body mb (of_nat (length mb))))) (\<lambda>_.
       evict_files_to_bound)) (t\<lparr>st_temp_counter := st_temp_counter t + 1\<rparr>)"
      using t by (intro ends_bind [OF publish evict]) auto
    then show ?thesis
      using next_path mb by (simp add: ends_def io_bind_def io_lift_def)
  qed
  show ?thesis
    unfolding store_metadata_def Let_def butlast_body_path by (rule ends_bind [OF mkdir rest])
qed

text \<open>
  C3: Publishing metadata is atomic.  Wherever \<^verbatim>\<open>store_metadata\<close> fails or stops, the entry's name
  holds what it held before, or the complete packed entry, or (only when no publication of the key is
  pinned) nothing because eviction removed it; no other name changes but those of the shard directory,
  of the temp file and of evicted entries.  When it reports success the temp file is gone.
\<close>

theorem store_metadata_atomic:
  assumes "wf_fs (st_fs s)" and "key_ok key" and "pack_footer C body meta = Inr packed"
    and "store_metadata C key body meta s = (r, t)"
  shows "view (st_fs t) (body_path key)
      \<in> {view (st_fs s) (body_path key), Some (File packed)} \<union> (if live_pin s key then {} else {None})
    \<and> (\<forall>p. p \<notin> {body_path key, shard_path key, metadata_temp_path s key} \<longrightarrow>
         view (st_fs t) p = view (st_fs s) p \<or> view (st_fs t) p = None \<and> evictable s p)
    \<and> (r = Inr () \<longrightarrow> view (st_fs t) (metadata_temp_path s key) = None
         \<and> view (st_fs t) (body_path key) \<in> {Some (File packed)} \<union> (if live_pin s key then {} else {None}))"
  using endsD [OF store_metadata_ends [OF assms(1-3)] assms(4)]
  by (cases r) (simp_all add: store_effect_def)

section \<open>Publishing without failures\<close>

lemma write_and_rename_succeeds:
  assumes "fs_faults s = []" and "temp = [d, a]" and "dest = [d, b]" and "a \<noteq> b"
    and "fs_lookup s [d] = Some NDir" and "fs_lookup s temp \<noteq> Some NDir" and "fs_lookup s dest \<noteq> Some NDir"
  shows "\<exists>t. write_and_rename temp dest body mb ml s = (Inr (), t) \<and> fs_faults t = []"
proof -
  have writes: "write_all i bs u = (Inr (), (settle i u)\<lparr>fs_pending := (fs_pending (settle i u))(i := bs)\<rparr>)"
    "flush_file i u = (Inr (), settle i u)" if "fs_faults u = []" for i bs u
    using that by (simp_all add: write_all_def flush_file_def draw_no_faults Let_def)
  have settle: "fs_faults (settle i u) = fs_faults u" "fs_lookup (settle i u) = fs_lookup u" for i u
    by (simp_all add: settle_def)
  obtain i u where create: "create_file temp s = (Inr i, u)"
  proof (cases "fst (create_file temp s)")
    case (Inl e)
    then show ?thesis
      using assms by (auto simp: create_file_def fs_op_no_faults Let_def split: option.splits node.splits)
  next
    case (Inr i)
    then show ?thesis
      by (intro that) (simp add: prod_eq_iff)
  qed
  then have u: "fs_faults u = []" "fs_lookup u temp = Some (NFile i)" "fs_lookup u dest \<noteq> Some NDir"
    "fs_lookup u [d] = Some NDir"
    using assms
    by (auto simp: create_file_def fs_op_no_faults Let_def fs_lookup_link
        split: option.splits node.splits if_splits)
  show ?thesis
    using create u assms(2-4)
    by (auto simp: write_and_rename_def io_bind_def writes settle rename_file_def fs_op_no_faults
        split: option.split node.split)
qed

lemma create_dir_all_succeeds:
  "fs_faults s = [] \<Longrightarrow> fs_lookup s [d] = None \<or> fs_lookup s [d] = Some NDir \<Longrightarrow>
     \<exists>t. create_dir_all [d] s = (Inr (), t) \<and> fs_faults t = [] \<and> fs_lookup t [d] = Some NDir
       \<and> (\<forall>p. p \<noteq> [d] \<longrightarrow> fs_lookup t p = fs_lookup s p)"
  by (auto simp: create_dir_all_def fs_op_no_faults fs_lookup_link)

text \<open>What a new entry adds to the size of the cache.\<close>

lemma total_size_added:
  assumes "wf_fs s" and "wf_fs t"
    and "\<And>p. p \<notin> {[d], dest, temp} \<Longrightarrow> view t p = view s p" and "view t temp = None"
    and "view t dest = Some (File packed)" and "length packed < 2 ^ 64"
    and "view s [d] = Some Dir \<or> (\<forall>name. view s [d, name] = None)" and "dest = [d, name]"
  shows "total_size (entries_of t) \<le> total_size (entries_of s) + length packed"
proof -
  have sub: "committed (view t) \<subseteq> insert dest (committed (view s))"
  proof
    fix p assume p: "p \<in> committed (view t)"
    then obtain shard key b where k: "p = [shard, key]" "view t [shard] = Some Dir" "view t p = Some (File b)"
      "valid_hex shard 2" "valid_key key shard"
      by (auto simp: committed_def)
    show "p \<in> insert dest (committed (view s))"
    proof (cases "p = dest")
      case False
      have "p \<noteq> temp"
        using k(3) assms(4) by auto
      with False k have v: "view s p = Some (File b)"
        using assms(3) [of p] by auto
      have "view s [shard] = Some Dir"
      proof (cases "[shard] \<in> {[d], dest, temp}")
        case True
        then show ?thesis
          using k(1,2) v assms(4,7,8) by (auto simp: view_None view_File)
      next
        case False
        then show ?thesis
          using k(2) assms(3) [of "[shard]"] by simp
      qed
      then show ?thesis
        using k v by (auto simp: committed_def)
    qed simp
  qed
  have same: "size_at (view t) p = size_at (view s) p" if "p \<in> committed (view t)" "p \<noteq> dest" for p
  proof -
    have "p \<notin> {[d], dest, temp}"
      using that assms(4) by (auto simp: committed_def)
    then show ?thesis
      using assms(3) by (simp add: size_at_def)
  qed
  have "total_size (entries_of t) = (\<Sum>p\<in>committed (view t). size_at (view t) p)"
    using assms(2) by (rule total_size_view)
  also have "\<dots> \<le> size_at (view t) dest + (\<Sum>p\<in>committed (view t) - {dest}. size_at (view t) p)"
    using total_size_view(2) [OF assms(2)]
    by (cases "dest \<in> committed (view t)") (simp_all add: sum.remove [symmetric])
  also have "(\<Sum>p\<in>committed (view t) - {dest}. size_at (view t) p)
      = (\<Sum>p\<in>committed (view t) - {dest}. size_at (view s) p)"
    using same by (intro sum.cong) auto
  also have "\<dots> \<le> (\<Sum>p\<in>committed (view s). size_at (view s) p)"
    using sub total_size_view(2) [OF assms(1)] by (intro sum_mono2) auto
  finally show ?thesis
    using assms(5,6) total_size_view(1) [OF assms(1)] by (simp add: size_at_def u64_len)
qed

lemma load_packed:
  assumes "fs_faults (st_fs s) = []" and "view (st_fs s) (body_path key) = Some (File packed)"
    and "length packed < 2 ^ 64" and "pack_footer C body meta = Inr packed" and "codec_round_trip C meta"
  shows "\<exists>entry. load C key s = (Inr (Some entry), s) \<and> entry_meta entry = meta
    \<and> read_body entry (st_fs s) = (Inr body, st_fs s)"
proof -
  obtain i where i: "fs_lookup (st_fs s) (body_path key) = Some (NFile i)" "fs_data (st_fs s) i = packed"
    using assms(2) by (auto simp: view_File)
  obtain rest where packed: "packed = body @ rest"
    using assms(4) by (auto simp: pack_footer_Inr)
  have footer: "read_footer C i (st_fs s) = (Inr (meta, of_nat (length body)), st_fs s)"
    using read_footer_packed [OF assms(1) i(2) assms(3-5)] .
  let ?entry = "\<lparr>entry_file = i, entry_body_len = of_nat (length body), entry_meta = meta\<rparr>"
  have "load C key s = (Inr (Some ?entry), s)"
    using load_file [OF assms(1) i(1)] footer by simp
  moreover have "read_body ?entry (st_fs s) = (Inr body, st_fs s)"
    using assms(1,3) i(2) packed by (intro read_body_packed) auto
  ultimately show ?thesis
    by force
qed

lemma store_metadata_run:
  assumes "wf_fs (st_fs s)" and "fs_faults (st_fs s) = []" and "key_ok key"
    and "pack_footer C body meta = Inr packed" and "length packed < 2 ^ 64"
    and "view (st_fs s) (shard_path key) = Some Dir
      \<or> view (st_fs s) (shard_path key) = None \<and> (\<forall>name. view (st_fs s) [take 2 key, name] = None)"
    and "view (st_fs s) (body_path key) \<noteq> Some Dir" and "view (st_fs s) (metadata_temp_path s key) \<noteq> Some Dir"
    and "total_size (entries_of (st_fs s)) + length packed \<le> unat (st_max_cache_size s)"
  obtains t where "store_metadata C key body meta s = (Inr (), t)" and "fs_faults (st_fs t) = []"
    and "view (st_fs t) (body_path key) = Some (File packed)" and "wf_fs (st_fs t)"
proof -
  let ?dest = "body_path key" and ?temp = "metadata_temp_path s key" and ?shard = "shard_path key"
  obtain mb where mb: "serialize_meta C meta = Inr mb" "meta_len_u32 mb = Inr (of_nat (length mb))"
    and packed: "packed = body @ mb @ to_be_bytes (of_nat (length mb))"
    using assms(4) by (auto simp: format_defs split: sum.splits if_splits)
  have neq: "?temp \<noteq> ?dest" "?temp \<noteq> []" "?dest \<noteq> []" "?temp \<noteq> ?shard" "?dest \<noteq> ?shard"
    using temp_neq_body [OF assms(3)] by (simp_all add: temp_path_eq body_path_eq)
  obtain f where mkdir: "create_dir_all ?shard (st_fs s) = (Inr (), f)" and f: "fs_faults f = []"
    "fs_lookup f ?shard = Some NDir" "\<And>p. p \<noteq> ?shard \<Longrightarrow> fs_lookup f p = fs_lookup (st_fs s) p"
    using create_dir_all_succeeds [OF assms(2), of "take 2 key"] assms(6) by (auto simp: view_None)
  have wf: "wf_fs f" and fv: "\<And>p. p \<noteq> ?shard \<Longrightarrow> view f p = view (st_fs s) p"
    using create_dir_all_view [OF assms(1) mkdir] by auto
  obtain g where pub: "write_and_rename ?temp ?dest body mb (of_nat (length mb)) f = (Inr (), g)"
    and g: "fs_faults g = []"
  proof -
    let ?name = "key @ ''.part.'' @ decimal (unat (st_temp_counter s)) @ ''.part''"
    have temp: "?temp = [take 2 key, ?name]"
      by (simp add: temp_path_eq)
    have "fs_lookup f ?temp \<noteq> Some NDir" "fs_lookup f ?dest \<noteq> Some NDir"
      using assms(7,8) f(3) neq(4,5) by simp_all
    then show ?thesis
      using write_and_rename_succeeds [OF f(1) temp body_path_eq _ f(2), of body mb "of_nat (length mb)"] that
      by auto
  qed
  have gv: "wf_fs g" "view g = (view f)(?temp := None, ?dest \<mapsto> File packed)"
    using endsD [OF write_and_rename_atomic [OF wf neq(1-3)] pub] packed by auto
  have "total_size (entries_of g) \<le> total_size (entries_of (st_fs s)) + length packed"
    by (rule total_size_added [OF assms(1) gv(1), of "take 2 key" ?dest ?temp])
      (use gv(2) fv neq assms(5,6) in \<open>auto simp: body_path_eq\<close>)
  then have "total_size (entries_of g) \<le> unat (st_max_cache_size s)"
    using assms(9) by linarith
  then have "evict_files_to_bound (s\<lparr>st_temp_counter := st_temp_counter s + 1, st_fs := g\<rparr>)
      = (Inr (), s\<lparr>st_temp_counter := st_temp_counter s + 1, st_fs := g\<rparr>)"
    using evict_within_bound [of "s\<lparr>st_temp_counter := st_temp_counter s + 1, st_fs := g\<rparr>"] g gv(1)
    by simp
  then have "store_metadata C key body meta s
      = (Inr (), s\<lparr>st_temp_counter := st_temp_counter s + 1, st_fs := g\<rparr>)"
    using mkdir pub mb butlast_body_path [of key]
    by (simp add: store_metadata_def Let_def io_bind_def io_simps next_temp_path_def with_temp_cleanup_def)
  then show thesis
    by (rule that) (use g gv neq in auto)
qed

text \<open>
  C25: What is stored is what is loaded.  When nothing fails and the entry fits in the cache, storing a
  body with its metadata succeeds, and loading the key then gives the same metadata and a file from
  which the same body is read.
\<close>

theorem store_load_roundtrip:
  assumes "wf_fs (st_fs s)" and "fs_faults (st_fs s) = []" and "key_ok key"
    and "pack_footer C body meta = Inr packed" and "length packed < 2 ^ 64" and "codec_round_trip C meta"
    and "view (st_fs s) (shard_path key) = Some Dir
      \<or> view (st_fs s) (shard_path key) = None \<and> (\<forall>name. view (st_fs s) [take 2 key, name] = None)"
    and "view (st_fs s) (body_path key) \<noteq> Some Dir" and "view (st_fs s) (metadata_temp_path s key) \<noteq> Some Dir"
    and "total_size (entries_of (st_fs s)) + length packed \<le> unat (st_max_cache_size s)"
  shows "\<exists>t entry. store_metadata C key body meta s = (Inr (), t)
    \<and> load C key t = (Inr (Some entry), t) \<and> entry_meta entry = meta
    \<and> read_body entry (st_fs t) = (Inr body, st_fs t)"
proof -
  obtain t where "store_metadata C key body meta s = (Inr (), t)" "fs_faults (st_fs t) = []"
    "view (st_fs t) (body_path key) = Some (File packed)"
    using store_metadata_run [OF assms(1-5,7-10)] by blast
  with load_packed [of t key packed C body meta] assms(4-6) show ?thesis
    by blast
qed

text \<open>A store whose cache directory is empty, and one with a finished download in a temp file.\<close>

definition fresh_store :: store where
  "fresh_store =
     empty_store
       \<lparr>fs_nodes = [([CACHE_MARKER], NFile 0)], fs_data = (\<lambda>_. [])(0 := ''v1''), fs_pending = (\<lambda>_. []),
        fs_mtime = (\<lambda>_. 0), fs_next = 1, fs_clock = 5, fs_marker_locked = True, fs_faults = []\<rparr> 100 4"

definition downloaded_store :: store where
  "downloaded_store =
     fresh_store\<lparr>st_fs := (st_fs fresh_store)
       \<lparr>fs_nodes := [([take 2 sample_key, sample_key @ ''.part''], NFile 1), ([take 2 sample_key], NDir),
                      ([CACHE_MARKER], NFile 0)],
        fs_data := (\<lambda>_. [])(0 := ''v1'', 1 := ''tarball''), fs_next := 2\<rparr>\<rparr>"

lemma fresh_store_wf: "wf_fs (st_fs fresh_store)"
  by (rule wf_fs_check) code_simp+

lemma downloaded_store_wf: "wf_fs (st_fs downloaded_store)"
  by (rule wf_fs_check) code_simp+

lemma sample_packed:
  "pack_footer sample_codec ''body'' sample_meta = Inr (''body'' @ ''{etag:1}'' @ [CHR 0x00, CHR 0x00, CHR 0x00, CHR 0x08])"
proof -
  have "to_be_bytes (8 :: u32) = map char_of [0, 0, 0, 8 :: nat]"
    by (simp add: to_be_bytes_def)
  moreover have "map char_of [0, 0, 0, 8 :: nat] = [CHR 0x00, CHR 0x00, CHR 0x00, CHR 0x08]"
    by code_simp
  ultimately show ?thesis
    by (simp add: format_defs sample_codec_def MAX_META_LEN_def)
qed

lemma sample_key_ok: "key_ok sample_key"
  by code_simp

text \<open>The same store when the third file operation fails with an injected error after two bytes.\<close>

lemma store_metadata_atomic_witness:
  "let s = fresh_store\<lparr>st_fs := (st_fs fresh_store)
             \<lparr>fs_faults := [None, None, Some (IoError (OtherKind 28) ''disk full'', 2)]\<rparr>\<rparr>;
       t = snd (store_metadata sample_codec sample_key ''body'' sample_meta s)
   in view (st_fs t) (body_path sample_key)
        \<in> {view (st_fs s) (body_path sample_key),
           Some (File (''body'' @ ''{etag:1}'' @ [CHR 0x00, CHR 0x00, CHR 0x00, CHR 0x08])), None}"
proof -
  let ?s = "fresh_store\<lparr>st_fs := (st_fs fresh_store)
             \<lparr>fs_faults := [None, None, Some (IoError (OtherKind 28) ''disk full'', 2)]\<rparr>\<rparr>"
  have "wf_fs (st_fs ?s)"
    using fresh_store_wf by simp
  from store_metadata_atomic [OF this sample_key_ok sample_packed,
      of "fst (store_metadata sample_codec sample_key ''body'' sample_meta ?s)"
         "snd (store_metadata sample_codec sample_key ''body'' sample_meta ?s)"]
  show ?thesis
    unfolding Let_def by (auto split: if_splits)
qed

abbreviation sample_bytes :: bytes where
  "sample_bytes \<equiv> ''body'' @ ''{etag:1}'' @ [CHR 0x00, CHR 0x00, CHR 0x00, CHR 0x08]"

lemma fresh_store_facts:
  "fs_faults (st_fs fresh_store) = []"
  "view (st_fs fresh_store) (shard_path sample_key) = Some Dir
   \<or> view (st_fs fresh_store) (shard_path sample_key) = None
      \<and> (\<forall>name. view (st_fs fresh_store) [take 2 sample_key, name] = None)"
  "view (st_fs fresh_store) (body_path sample_key) \<noteq> Some Dir"
  "view (st_fs fresh_store) (metadata_temp_path fresh_store sample_key) \<noteq> Some Dir"
  "total_size (entries_of (st_fs fresh_store)) + length sample_bytes \<le> unat (st_max_cache_size fresh_store)"
proof -
  show "fs_faults (st_fs fresh_store) = []"
    by code_simp
  have "view (st_fs fresh_store) (shard_path sample_key) = None"
    by code_simp
  moreover have "view (st_fs fresh_store) [take 2 sample_key, name] = None" for name
    by (simp add: view_def fs_lookup_def fresh_store_def empty_store_def)
  ultimately show "view (st_fs fresh_store) (shard_path sample_key) = Some Dir
      \<or> view (st_fs fresh_store) (shard_path sample_key) = None
         \<and> (\<forall>name. view (st_fs fresh_store) [take 2 sample_key, name] = None)"
    by blast
  show "view (st_fs fresh_store) (body_path sample_key) \<noteq> Some Dir"
    "view (st_fs fresh_store) (metadata_temp_path fresh_store sample_key) \<noteq> Some Dir"
    by code_simp+
  have "total_size (entries_of (st_fs fresh_store)) = 0"
    by code_simp
  moreover have "unat (st_max_cache_size fresh_store) = 100"
    by (simp add: fresh_store_def empty_store_def)
  ultimately show "total_size (entries_of (st_fs fresh_store)) + length sample_bytes
      \<le> unat (st_max_cache_size fresh_store)"
    by simp
qed

lemma store_load_roundtrip_witness:
  "\<exists>t entry. store_metadata sample_codec sample_key ''body'' sample_meta fresh_store = (Inr (), t)
     \<and> load sample_codec sample_key t = (Inr (Some entry), t) \<and> entry_meta entry = sample_meta
     \<and> read_body entry (st_fs t) = (Inr ''body'', st_fs t)"
  by (rule store_load_roundtrip [OF fresh_store_wf fresh_store_facts(1) sample_key_ok sample_packed _
      sample_codec_round_trip fresh_store_facts(2-5)]) simp

section \<open>Committing an artifact\<close>

lemma commit_artifact_run:
  assumes "wf_fs (st_fs s)" and "fs_faults (st_fs s) = []" and "key_ok key"
    and "codec_to_vec C meta = Inr mb" and "length mb \<le> MAX_META_LEN"
    and "fs_lookup (st_fs s) (shard_path key) = Some NDir"
    and "fs_lookup (st_fs s) (body_path key) \<noteq> Some NDir"
    and "fs_lookup (st_fs s) (paths_temp (paths_for key)) = Some (NFile i)"
    and "fs_data (st_fs s) i = body" and "fs_pending (st_fs s) i = []"
  obtains p t where "commit_artifact C key meta (paths_temp (paths_for key)) s = (Inr p, t)"
    and "live_pin t key" and "wf_fs (st_fs t)" and "fs_faults (st_fs t) = []"
    and "fs_lookup (st_fs t) (body_path key) = Some (NFile i)"
    and "fs_lookup (st_fs t) (paths_temp (paths_for key)) = None"
    and "fs_data (st_fs t) i = body @ mb" and "fs_pending (st_fs t) i = to_be_bytes (of_nat (length mb))"
proof -
  let ?temp = "paths_temp (paths_for key)" and ?dest = "body_path key"
  have neq: "?temp \<noteq> ?dest" "?temp \<noteq> []" "?dest \<noteq> []"
    by (simp_all add: temp_path_eq body_path_eq)
  define f where "f = (let u = settle i ((settle i (st_fs s))\<lparr>fs_pending := (fs_pending (settle i (st_fs s)))(i := mb)\<rparr>)
     in u\<lparr>fs_pending := (fs_pending u)(i := to_be_bytes (of_nat (length mb)))\<rparr>)"
  have f: "fs_faults f = []" "fs_lookup f = fs_lookup (st_fs s)" "fs_data f i = body @ mb"
    "fs_pending f i = to_be_bytes (of_nat (length mb))" "fs_nodes f = fs_nodes (st_fs s)" "fs_next f = fs_next (st_fs s)"
    using assms(2,9,10) by (simp_all add: f_def Let_def settle_def)
  have wf: "wf_fs f"
    using assms(1) f(5,6) by (rule wf_fs_cong)
  define g where "g = fs_link ?dest (NFile i) (fs_unlink ?temp f)"
  have rename: "rename_file ?temp ?dest f = (Inr (), g)"
    using f assms(6-8) neq butlast_body_path [of key]
    by (auto simp: rename_file_def fs_op_no_faults g_def split: option.splits node.splits)
  have "view f ?temp = Some (File (body @ mb))"
    using f assms(8) by (simp add: view_File)
  from rename_file_view [OF wf this neq rename] have "wf_fs g"
    by simp
  have run: "commit_artifact C key meta ?temp s =
      (Inr \<lparr>pub_key = key, pub_pin = st_next_pin s\<rparr>, (snd (pin key (s\<lparr>st_fs := f\<rparr>)))\<lparr>st_fs := g\<rparr>)"
    using assms(2,4,5,8) rename
    by (simp add: commit_artifact_def Let_def io_bind_def io_try_def io_simps format_defs MAX_META_LEN_def
        open_file_def fs_op_no_faults write_all_def draw_no_faults f_def settle_def pin_def)
  show thesis
  proof (rule that [OF run])
    show "live_pin ((snd (pin key (s\<lparr>st_fs := f\<rparr>)))\<lparr>st_fs := g\<rparr>) key"
      using pin_live [of key "s\<lparr>st_fs := f\<rparr>"] by simp
  qed (use \<open>wf_fs g\<close> f neq in \<open>simp_all add: g_def fs_lookup_link fs_lookup_unlink\<close>)
qed

lemma faults_unlinks: "fs_faults (fold fs_unlink ps f) = fs_faults f"
  by (induction ps arbitrary: f) simp_all

text \<open>An entry that is pinned, its last write still pending, survives an eviction pass and loads.\<close>

lemma published_survives:
  assumes "live_pin t key" and "fs_faults (st_fs t) = []" and "writing (body_path key) i packed (st_fs t)"
    and "pack_footer C body meta = Inr packed" and "codec_round_trip C meta" and "length packed < 2 ^ 64"
  obtains u entry where "evict_files_to_bound (t\<lparr>st_fs := settle i (st_fs t)\<rparr>) = (Inr (), u)"
    and "load C key u = (Inr (Some entry), u)" and "entry_meta entry = meta"
    and "read_body entry (st_fs u) = (Inr body, st_fs u)"
proof -
  let ?v = "t\<lparr>st_fs := settle i (st_fs t)\<rparr>"
  have v: "fs_faults (st_fs ?v) = []" "wf_fs (st_fs ?v)" "view (st_fs ?v) (body_path key) = Some (File packed)"
    using writing_settle(2,3) [OF assms(3)] assms(2,3) by (simp_all add: writing_def)
  obtain u where evict: "evict_files_to_bound ?v = (Inr (), u)"
    and u: "st_fs u = fold fs_unlink (map ce_body (eviction_victims ?v)) (st_fs ?v)"
    using eviction_result [OF v(1,2)] by blast
  have "view (st_fs u) (body_path key) = Some (File packed)"
    using only_evicts_view [OF evict_only_unpinned [of ?v], of "body_path key"] evict assms(1) v(3)
    by (simp add: evictable_def body_path_eq)
  moreover have "fs_faults (st_fs u) = []"
    using u v(1) by (simp add: faults_unlinks)
  ultimately show thesis
    using load_packed [of u key packed C body meta] assms(4-6) evict that by blast
qed

text \<open>
  Committing a finished download renames it to the entry's name and pins the key; once its last write has
  reached the file, the entry loads with the same metadata and body, also after an eviction pass under
  any bound, as long as the publication is held.
\<close>

lemma commit_artifact_publishes:
  assumes "wf_fs (st_fs s)" and "fs_faults (st_fs s) = []" and "key_ok key"
    and "codec_to_vec C meta = Inr mb" and "length mb \<le> MAX_META_LEN" and "codec_round_trip C meta"
    and "length body + length mb + FOOTER_LEN < 2 ^ 64"
    and "fs_lookup (st_fs s) (shard_path key) = Some NDir"
    and "fs_lookup (st_fs s) (body_path key) \<noteq> Some NDir"
    and "fs_lookup (st_fs s) (paths_temp (paths_for key)) = Some (NFile i)"
    and "fs_data (st_fs s) i = body" and "fs_pending (st_fs s) i = []"
  shows "\<exists>p t u entry. commit_artifact C key meta (paths_temp (paths_for key)) s = (Inr p, t)
    \<and> live_pin t key
    \<and> evict_files_to_bound (t\<lparr>st_fs := settle i (st_fs t)\<rparr>) = (Inr (), u)
    \<and> load C key u = (Inr (Some entry), u) \<and> entry_meta entry = meta
    \<and> read_body entry (st_fs u) = (Inr body, st_fs u)"
proof -
  let ?packed = "body @ mb @ to_be_bytes (of_nat (length mb))"
  obtain p t where commit: "commit_artifact C key meta (paths_temp (paths_for key)) s = (Inr p, t)"
    and t: "live_pin t key" "wf_fs (st_fs t)" "fs_faults (st_fs t) = []"
      "fs_lookup (st_fs t) (body_path key) = Some (NFile i)"
      "fs_data (st_fs t) i = body @ mb" "fs_pending (st_fs t) i = to_be_bytes (of_nat (length mb))"
    using commit_artifact_run [OF assms(1-5,8-12)] by blast
  have "writing (body_path key) i ?packed (st_fs t)" "pack_footer C body meta = Inr ?packed" "length ?packed < 2 ^ 64"
    using t assms(4,5,7) by (simp_all add: writing_def pack_footer_Inr FOOTER_LEN_def)
  from published_survives [OF t(1,3) this(1,2) assms(6) this(3)] show ?thesis
    using commit t(1) by metis
qed

lemma downloaded_store_facts:
  "fs_faults (st_fs downloaded_store) = []" "fs_lookup (st_fs downloaded_store) (shard_path sample_key) = Some NDir"
  "fs_lookup (st_fs downloaded_store) (body_path sample_key) \<noteq> Some NDir"
  "fs_lookup (st_fs downloaded_store) (paths_temp (paths_for sample_key)) = Some (NFile 1)"
  "fs_data (st_fs downloaded_store) 1 = ''tarball''" "fs_pending (st_fs downloaded_store) 1 = []"
  "codec_to_vec sample_codec sample_meta = Inr ''{etag:1}''"
  by code_simp+

text \<open>
  C31: The name of a committed artifact is visible before the entry is complete.  \<^verbatim>\<open>commit_artifact\<close> does
  not flush the footer before it renames: at the moment it returns, the file under the entry's name can
  still lack its footer, and a reader who opens it then (the last four bytes of the metadata read as
  a length above the sanity cap) takes the entry for corrupt and reports a miss.
\<close>

theorem commit_artifact_unflushed:
  assumes "wf_fs (st_fs s)" and "fs_faults (st_fs s) = []" and "key_ok key"
    and "codec_to_vec C meta = Inr mb" and "length mb \<le> MAX_META_LEN"
    and "length body + length mb < 2 ^ 64"
    and "fs_lookup (st_fs s) (shard_path key) = Some NDir"
    and "fs_lookup (st_fs s) (body_path key) \<noteq> Some NDir"
    and "fs_lookup (st_fs s) (paths_temp (paths_for key)) = Some (NFile i)"
    and "fs_data (st_fs s) i = body" and "fs_pending (st_fs s) i = []"
    and "FOOTER_LEN \<le> length mb"
    and "MAX_META_LEN < unat (ucast (from_be_bytes (drop (length mb - FOOTER_LEN) mb)) :: usize)"
  shows "\<exists>p t. commit_artifact C key meta (paths_temp (paths_for key)) s = (Inr p, t)
    \<and> view (st_fs t) (body_path key) = Some (File (body @ mb)) \<and> load C key t = (Inr None, t)"
proof -
  obtain p t where commit: "commit_artifact C key meta (paths_temp (paths_for key)) s = (Inr p, t)"
    and t: "fs_faults (st_fs t) = []" "fs_lookup (st_fs t) (body_path key) = Some (NFile i)"
      "fs_data (st_fs t) i = body @ mb"
    using commit_artifact_run [OF assms(1-5,7-11)] by blast
  let ?f = "st_fs t" and ?len = "length body + length mb"
  let ?size = "of_nat ?len :: u64"
  have size: "unat ?size = ?len"
    using assms(6) by (intro u64_len) simp
  have pos: "unat (?size - of_nat FOOTER_LEN) = ?len - FOOTER_LEN"
    using size assms(12) by (simp add: unat_sub word_le_nat_alt FOOTER_LEN_def)
  have "read_exact_at i (?size - of_nat FOOTER_LEN) FOOTER_LEN ?f = (Inr (drop (length mb - FOOTER_LEN) mb), ?f)"
    unfolding read_exact_at_no_faults [OF t(1)] pos t(3) using assms(12) by simp
  moreover have "footer_geometry ?size (drop (length mb - FOOTER_LEN) mb)
      = Inl (invalid_data ''cache entry metadata length exceeds sanity cap'')"
    using assms(13) by (simp add: footer_geometry_def Let_def)
  ultimately have "read_footer C i ?f = (Inl (invalid_data ''cache entry metadata length exceeds sanity cap''), ?f)"
    using t size assms(12)
    by (simp add: read_footer_def io_bind_def file_len_no_faults io_simps del: of_nat_add)
  then have "load C key t = (Inr None, t)"
    using load_file [OF t(1,2), of C] by (simp add: invalid_data_def)
  then show ?thesis
    using commit t(2,3) by (auto simp: view_File)
qed

lemma commit_artifact_unflushed_witness:
  "\<exists>p t. commit_artifact sample_codec sample_key sample_meta (paths_temp (paths_for sample_key)) downloaded_store
       = (Inr p, t)
     \<and> view (st_fs t) (body_path sample_key) = Some (File (''tarball'' @ ''{etag:1}''))
     \<and> load sample_codec sample_key t = (Inr None, t)"
proof (rule commit_artifact_unflushed [OF downloaded_store_wf downloaded_store_facts(1) sample_key_ok
      downloaded_store_facts(7) _ _ downloaded_store_facts(2-6)])
  have "MAX_META_LEN < unat (ucast (1731867005 :: u32) :: usize)"
    by (simp add: MAX_META_LEN_def unsigned_ucast_eq)
  moreover have "from_be_bytes ''g:1}'' = 1731867005"
    by (simp add: from_be_bytes_def)
  ultimately show "MAX_META_LEN < unat (ucast (from_be_bytes (drop (length ''{etag:1}'' - FOOTER_LEN) ''{etag:1}'')) :: usize)"
    by (simp add: FOOTER_LEN_def)
qed (simp_all add: MAX_META_LEN_def FOOTER_LEN_def)

end
