(* ===== verification/Inflight.thy ===== *)
theory Inflight
  imports Publish
begin

text \<open>
  \<^verbatim>\<open>src/cache.rs\<close>, the in-flight table: one fetch per key at a time, whose outcome all requests for the
  key share.  An \<^verbatim>\<open>Inflight\<close> object is its identity, a number; its outcome is in the store.  Each
  definition is one critical section of the code, or a sequence of them; how they interleave is the
  subject of \<open>Flights\<close>.
\<close>

section \<open>Outcomes\<close>

text \<open>
  \<^verbatim>\<open>complete\<close>: the first outcome wins.  The flag says whether waiters are to be notified; an outcome that
  comes too late is dropped.
\<close>

definition drop_outcome :: "inflight_outcome \<Rightarrow> store \<Rightarrow> store" where
  "drop_outcome outcome s = (case outcome of Cached p \<Rightarrow> drop_published p s | _ \<Rightarrow> s)"

definition complete :: "nat \<Rightarrow> inflight_outcome \<Rightarrow> store \<Rightarrow> bool \<times> store" where
  "complete i outcome s =
     (if st_outcomes s i \<noteq> None then (False, drop_outcome outcome s)
      else (True, s\<lparr>st_outcomes := (st_outcomes s)(i \<mapsto> outcome)\<rparr>))"

definition finish_cached :: "nat \<Rightarrow> published_entry \<Rightarrow> store \<Rightarrow> bool \<times> store" where
  "finish_cached i entry = complete i (Cached entry)"

definition finish_response :: "nat \<Rightarrow> stored_response_meta \<Rightarrow> bytes \<Rightarrow> store \<Rightarrow> bool \<times> store" where
  "finish_response i meta body = complete i (Response meta body)"

definition fail_inflight :: "nat \<Rightarrow> error_kind \<Rightarrow> string \<Rightarrow> store \<Rightarrow> bool \<times> store" where
  "fail_inflight i k msg = complete i (Failed k msg)"

section \<open>The table\<close>

record artifact_leader =
  al_inflight :: nat
  al_key :: string
  al_paths :: cache_paths

datatype artifact_lookup =
    ArtifactHit stored_entry
  | ArtifactJoin nat
  | ArtifactLead artifact_leader

record metadata_leader =
  ml_inflight :: nat
  ml_key :: string

datatype metadata_lookup =
    MetadataJoin nat
  | MetadataLead metadata_leader

definition find_inflight :: "string \<Rightarrow> (store, nat option) io" where
  "find_inflight key = (\<lambda>s. (Inr (st_inflight s key), s))"

definition new_inflight :: "string \<Rightarrow> (store, nat) io" where
  "new_inflight key = (\<lambda>s.
     let i = st_next_inflight s in
     (Inr i, s\<lparr>st_inflight := (st_inflight s)(key \<mapsto> i), st_outcomes := (st_outcomes s)(i := None),
               st_next_inflight := Suc i\<rparr>))"

text \<open>The section under the second lock: join, or take a permit and become the leader.\<close>

definition join_or_lead :: "string \<Rightarrow> (store, nat + nat) io" where
  "join_or_lead key =
     io_bind (find_inflight key) (\<lambda>existing.
     case existing of
       Some i \<Rightarrow> io_return (Inl i)
     | None \<Rightarrow>
         io_bind try_acquire_upstream_permit (\<lambda>_.
         io_bind (new_inflight key) (\<lambda>i. io_return (Inr i))))"

definition make_shard :: "string \<Rightarrow> (store, unit) io" where
  "make_shard key = on_fs (create_dir_all (butlast (paths_body (paths_for key))))"

definition lookup_or_start_artifact :: "meta_codec \<Rightarrow> string \<Rightarrow> (store, artifact_lookup) io" where
  "lookup_or_start_artifact C key =
     io_bind (find_inflight key) (\<lambda>existing.
     case existing of
       Some i \<Rightarrow> io_return (ArtifactJoin i)
     | None \<Rightarrow>
         io_bind (load C key) (\<lambda>hit.
         case hit of
           Some entry \<Rightarrow> io_return (ArtifactHit entry)
         | None \<Rightarrow>
             io_bind (make_shard key) (\<lambda>_.
             io_bind (join_or_lead key) (\<lambda>r.
             io_return
               (case r of
                  Inl i \<Rightarrow> ArtifactJoin i
                | Inr i \<Rightarrow> ArtifactLead \<lparr>al_inflight = i, al_key = key, al_paths = paths_for key\<rparr>)))))"

definition lookup_or_start_metadata :: "string \<Rightarrow> (store, metadata_lookup) io" where
  "lookup_or_start_metadata key =
     io_bind (join_or_lead key) (\<lambda>r.
     io_return
       (case r of
          Inl i \<Rightarrow> MetadataJoin i
        | Inr i \<Rightarrow> MetadataLead \<lparr>ml_inflight = i, ml_key = key\<rparr>))"

definition finish_inflight :: "string \<Rightarrow> store \<Rightarrow> store" where
  "finish_inflight key s = s\<lparr>st_inflight := (st_inflight s)(key := None)\<rparr>"

section \<open>Lemmas\<close>

named_theorems flight_simps \<open>the effect of store operations on the in-flight table and the permits\<close>

lemma drop_published_flight [flight_simps]:
  "st_inflight (drop_published p s) = st_inflight s" "st_outcomes (drop_published p s) = st_outcomes s"
  "st_next_inflight (drop_published p s) = st_next_inflight s"
  "st_upstream_permits (drop_published p s) = st_upstream_permits s"
  "st_memory_permits (drop_published p s) = st_memory_permits s" "st_fs (drop_published p s) = st_fs s"
  by (simp_all add: drop_published_def release_pin_def request_eviction_def Let_def)

lemma drop_outcome_flight [flight_simps]:
  "st_inflight (drop_outcome q s) = st_inflight s" "st_outcomes (drop_outcome q s) = st_outcomes s"
  "st_next_inflight (drop_outcome q s) = st_next_inflight s"
  "st_upstream_permits (drop_outcome q s) = st_upstream_permits s"
  "st_memory_permits (drop_outcome q s) = st_memory_permits s" "st_fs (drop_outcome q s) = st_fs s"
  by (simp_all add: drop_outcome_def flight_simps split: inflight_outcome.split)

lemma complete_flight [flight_simps]:
  "st_inflight (snd (complete i q s)) = st_inflight s"
  "st_next_inflight (snd (complete i q s)) = st_next_inflight s"
  "st_upstream_permits (snd (complete i q s)) = st_upstream_permits s"
  "st_memory_permits (snd (complete i q s)) = st_memory_permits s"
  "st_fs (snd (complete i q s)) = st_fs s"
  by (simp_all add: complete_def flight_simps)

lemma complete_outcome [flight_simps]:
  "st_outcomes (snd (complete i q s)) =
     (case st_outcomes s i of None \<Rightarrow> (st_outcomes s)(i \<mapsto> q) | Some _ \<Rightarrow> st_outcomes s)"
  "fst (complete i q s) \<longleftrightarrow> st_outcomes s i = None"
  by (auto simp: complete_def flight_simps split: option.split)

lemma finish_inflight_fields [flight_simps]:
  "st_inflight (finish_inflight key s) = (st_inflight s)(key := None)"
  "st_outcomes (finish_inflight key s) = st_outcomes s"
  "st_next_inflight (finish_inflight key s) = st_next_inflight s"
  "st_upstream_permits (finish_inflight key s) = st_upstream_permits s"
  "st_memory_permits (finish_inflight key s) = st_memory_permits s"
  "st_fs (finish_inflight key s) = st_fs s"
  by (simp_all add: finish_inflight_def)

lemma join_or_lead_run:
  "join_or_lead key s =
     (case st_inflight s key of
        Some i \<Rightarrow> (Inr (Inl i), s)
      | None \<Rightarrow>
          if st_upstream_permits s = 0 then (Inl (IoError WouldBlock ''upstream capacity exhausted''), s)
          else
            (Inr (Inr (st_next_inflight s)),
             s\<lparr>st_upstream_permits := st_upstream_permits s - 1,
               st_inflight := (st_inflight s)(key \<mapsto> st_next_inflight s),
               st_outcomes := (st_outcomes s)(st_next_inflight s := None),
               st_next_inflight := Suc (st_next_inflight s)\<rparr>))"
  by (simp add: join_or_lead_def find_inflight_def new_inflight_def try_acquire_upstream_permit_def
      io_simps io_bind_def Let_def split: option.split)

subsection \<open>What other operations leave alone\<close>

text \<open>An operation leaves a part of the state still, whatever it returns.\<close>

definition still :: "('s \<Rightarrow> 'b) \<Rightarrow> ('s \<Rightarrow> 'r \<times> 's) \<Rightarrow> bool" where
  "still f m \<longleftrightarrow> (\<forall>s. f (snd (m s)) = f s)"

lemma stillI: "(\<And>s. f (snd (m s)) = f s) \<Longrightarrow> still f m"
  by (simp add: still_def)

lemma stillD: "still f m \<Longrightarrow> m s = (r, t) \<Longrightarrow> f t = f s"
  unfolding still_def by (metis snd_conv)

lemma still_snd: "still f m \<Longrightarrow> f (snd (m s)) = f s"
  by (simp add: still_def)

lemma still_comp: "still f m \<Longrightarrow> still (\<lambda>s. g (f s)) m"
  by (simp add: still_def)

lemma still_return [intro, simp]: "still f (io_return x)"
  and still_fail [intro, simp]: "still f (io_fail e)"
  and still_lift [intro, simp]: "still f (io_lift r)"
  by (simp_all add: still_def io_simps)

lemma still_bind [intro]:
  assumes "still f m" and "\<And>x. still f (k x)"
  shows "still f (io_bind m k)"
proof (rule stillI)
  fix s
  obtain r t where "m s = (r, t)"
    by force
  with stillD [OF assms(1) this] assms(2) show "f (snd (io_bind m k s)) = f s"
    by (cases r) (simp_all add: io_bind_def still_def)
qed

lemma still_try [intro]:
  assumes "still f m" and "\<And>r. still f (k r)"
  shows "still f (io_try m k)"
proof (rule stillI)
  fix s
  obtain r t where "m s = (r, t)"
    by force
  with stillD [OF assms(1) this] assms(2) show "f (snd (io_try m k s)) = f s"
    by (simp add: io_try_def still_def)
qed

text \<open>The in-flight table with the permits of the upstream semaphore, and the same with the memory permits.\<close>

definition table :: "store \<Rightarrow> (string \<rightharpoonup> nat) \<times> (nat \<Rightarrow> inflight_outcome option) \<times> nat \<times> nat" where
  "table s = (st_inflight s, st_outcomes s, st_next_inflight s, st_upstream_permits s)"

definition tables ::
  "store \<Rightarrow> ((string \<rightharpoonup> nat) \<times> (nat \<Rightarrow> inflight_outcome option) \<times> nat \<times> nat) \<times> nat" where
  "tables s = (table s, st_memory_permits s)"

lemma still_table: "still tables m \<Longrightarrow> still table m"
  using still_comp [of tables m fst] by (simp add: tables_def)

lemma tables_drop_published [flight_simps]: "tables (drop_published p s) = tables s"
  by (simp add: tables_def table_def flight_simps)

lemma tables_pin [flight_simps]: "tables (snd (pin key s)) = tables s"
  by (simp add: tables_def table_def pin_def Let_def)

lemma still_on_fs [intro, simp]: "still tables (on_fs m)"
  by (simp add: still_def io_simps tables_def table_def)

lemma still_load [intro, simp]: "still tables (load C key)"
  unfolding load_def by (intro still_try still_on_fs) (auto split: sum.split)

lemma still_make_shard [intro, simp]: "still tables (make_shard key)"
  by (simp add: make_shard_def)

lemma still_evict_loop: "still tables (evict_loop m used es)"
proof (induction es arbitrary: used)
  case (Cons e es)
  have pinned: "tables (snd (is_pinned k s)) = tables s" for k s
    by (simp add: is_pinned_def tables_def table_def Let_def)
  have remove: "still tables (io_try (on_fs (remove_file p)) (\<lambda>r. case r of
              Inr _ \<Rightarrow> evict_loop m used' es
            | Inl x \<Rightarrow> if kind x = NotFound then evict_loop m used' es else evict_loop m used es))" for p used'
    by (intro still_try still_on_fs) (auto simp: Cons.IH split: sum.split)
  show ?case
  proof (rule stillI)
    fix s
    obtain b t where t: "is_pinned (ce_key e) s = (b, t)"
      by force
    with pinned [of "ce_key e" s] have "tables t = tables s"
      by simp
    then show "tables (snd (evict_loop m used (e # es) s)) = tables s"
      using t still_snd [OF Cons.IH] still_snd [OF remove] by (simp add: io_simps split: bool.split)
  qed
qed simp

lemma still_evict [intro, simp]: "still tables evict_files_to_bound"
  unfolding evict_files_to_bound_def
proof (intro still_bind still_on_fs)
  fix entries
  show "still tables (\<lambda>s. let used = sum_list (map ce_size entries); max_cache_size = st_max_cache_size s in
      if used \<le> max_cache_size then (Inr (), s)
      else evict_loop max_cache_size used (sort_key ce_modified entries) s)"
    by (rule stillI) (simp add: Let_def still_snd [OF still_evict_loop])
qed

lemma still_with_temp_cleanup: "still tables m \<Longrightarrow> still tables (with_temp_cleanup p m)"
  by (rule stillI) (auto simp: with_temp_cleanup_def still_snd [OF still_on_fs] dest: stillD split: prod.split sum.split)

lemma still_next_temp_path: "still tables (next_temp_path p)"
  by (simp add: still_def next_temp_path_def tables_def table_def)

lemma still_store_metadata [intro, simp]: "still tables (store_metadata C key body meta)"
  unfolding store_metadata_def Let_def
  by (intro still_bind still_on_fs still_lift still_evict still_with_temp_cleanup still_next_temp_path)

lemma still_commit_artifact [intro, simp]: "still tables (commit_artifact C key meta temp)"
proof -
  have "still tables (\<lambda>s. case pin key s of (published, t) \<Rightarrow>
      io_try (on_fs (rename_file temp (paths_body (paths_for key))))
        (\<lambda>r. case r of Inr _ \<Rightarrow> io_return published | Inl e \<Rightarrow> (\<lambda>u. (Inl e, drop_published published u))) t)"
  proof (rule stillI)
    fix s
    obtain p t where t: "pin key s = (p, t)"
      by force
    then have "tables t = tables s"
      using tables_pin [of key s] by simp
    moreover have "still tables (io_try (on_fs (rename_file temp (paths_body (paths_for key))))
        (\<lambda>r. case r of Inr _ \<Rightarrow> io_return p | Inl e \<Rightarrow> (\<lambda>u. (Inl e, drop_published p u))))"
      by (intro still_try still_on_fs) (auto simp: still_def flight_simps io_simps split: sum.split)
    ultimately show "tables (snd (case pin key s of (published, t) \<Rightarrow>
      io_try (on_fs (rename_file temp (paths_body (paths_for key))))
        (\<lambda>r. case r of Inr _ \<Rightarrow> io_return published | Inl e \<Rightarrow> (\<lambda>u. (Inl e, drop_published published u))) t)) = tables s"
      using t by (simp add: still_snd)
  qed
  then show ?thesis
    unfolding commit_artifact_def Let_def by (intro still_bind still_on_fs still_lift)
qed

end
