(* ===== verification/Http.thy ===== *)
theory Http
  imports CacheFormat
begin

text \<open>
  \<^verbatim>\<open>src/proxy.rs\<close>, the conversions between upstream responses, stored metadata and responses to clients.

  The crate \<^verbatim>\<open>http\<close> is not part of the repository.  What an upstream \<^verbatim>\<open>HeaderMap\<close> yields when it is
  iterated over is a list of names and values, in lower case as the crate makes them; \<^verbatim>\<open>get\<close> finds the first value
  of a name.  The headers of a response are only ever changed with \<^verbatim>\<open>insert\<close>, so they are a map.  The
  checks the crate makes on names, values and status codes are the fields of a parameter \<open>http_lib\<close>.
\<close>

record http_lib =
  name_from_bytes :: "bytes \<Rightarrow> string option"
  value_from_str :: "string \<Rightarrow> string option"
  value_to_str :: "bytes \<Rightarrow> string option"
  status_from_u16 :: "u16 \<Rightarrow> u16 option"

type_synonym header_list = "(string \<times> bytes) list"

record response =
  resp_status :: u16
  resp_headers :: "string \<rightharpoonup> string"
  resp_body :: bytes

text \<open>\<^verbatim>\<open>http::Uri\<close>: the request target of a client, by its parts.\<close>

record uri =
  uri_scheme :: "string option"
  uri_authority :: "string option"
  uri_path :: string
  uri_query :: "string option"

definition CONTENT_LENGTH :: string where "CONTENT_LENGTH = ''content-length''"
definition CONTENT_TYPE :: string where "CONTENT_TYPE = ''content-type''"
definition ETAG :: string where "ETAG = ''etag''"
definition LAST_MODIFIED :: string where "LAST_MODIFIED = ''last-modified''"

lemmas header_names = CONTENT_LENGTH_def CONTENT_TYPE_def ETAG_def LAST_MODIFIED_def

section \<open>Responses\<close>

definition simple_response :: "u16 \<Rightarrow> string \<Rightarrow> string \<Rightarrow> response" where
  "simple_response status content_type body =
     \<lparr>resp_status = status,
      resp_headers = [CONTENT_TYPE \<mapsto> content_type, CONTENT_LENGTH \<mapsto> decimal (length body)],
      resp_body = body\<rparr>"

definition hop_headers :: "string list" where
  "hop_headers =
     [''connection'', ''keep-alive'', ''proxy-authenticate'', ''proxy-authorization'', ''te'',
      ''trailer'', ''transfer-encoding'', ''upgrade'']"

definition is_hop_header :: "string \<Rightarrow> bool" where
  "is_hop_header name \<longleftrightarrow> list_ex (\<lambda>h. eq_ignore_ascii_case name h) hop_headers"

definition not_found :: response where
  "not_found = simple_response 404 ''text/plain; charset=utf-8'' ''not found''"

definition error_status :: "error_kind \<Rightarrow> u16" where
  "error_status k = (if k = WouldBlock then 503 else 502)"

text \<open>The failure is also logged; the log is not modelled.\<close>

definition request_failed_response :: "io_error \<Rightarrow> response" where
  "request_failed_response e =
     simple_response (error_status (kind e)) ''text/plain; charset=utf-8'' (message e)"

section \<open>Metadata of upstream responses\<close>

definition header_str :: "http_lib \<Rightarrow> header_list \<Rightarrow> string \<Rightarrow> string option" where
  "header_str H headers name =
     (case map_of headers name of None \<Rightarrow> None | Some v \<Rightarrow> value_to_str H v)"

fun stored_headers :: "http_lib \<Rightarrow> bool \<Rightarrow> header_list \<Rightarrow> (string \<times> string) list" where
  "stored_headers H has_length [] = []"
| "stored_headers H has_length ((name, value) # headers) =
     (if is_hop_header name then stored_headers H has_length headers
      else if has_length \<and> name = CONTENT_LENGTH then stored_headers H has_length headers
      else
        (case value_to_str H value of
           None \<Rightarrow> stored_headers H has_length headers
         | Some v \<Rightarrow> (name, v) # stored_headers H has_length headers))"

definition meta_from_upstream :: "http_lib \<Rightarrow> u16 \<Rightarrow> header_list \<Rightarrow> usize option \<Rightarrow> stored_response_meta" where
  "meta_from_upstream H status headers content_length =
     \<lparr>meta_headers =
        stored_headers H (content_length \<noteq> None) headers @
        (case content_length of None \<Rightarrow> [] | Some n \<Rightarrow> [(CONTENT_LENGTH, decimal (unat n))]),
      meta_last_modified = header_str H headers LAST_MODIFIED,
      meta_etag = header_str H headers ETAG,
      meta_status = status\<rparr>"

definition strip_header :: "string \<Rightarrow> (string \<times> string) list \<Rightarrow> (string \<times> string) list" where
  "strip_header name headers = filter (\<lambda>(header_name, _). \<not> eq_ignore_ascii_case header_name name) headers"

definition has_header :: "string \<Rightarrow> (string \<times> string) list \<Rightarrow> bool" where
  "has_header name headers \<longleftrightarrow> list_ex (\<lambda>(n, _). eq_ignore_ascii_case n name) headers"

definition meta_for_bytes :: "http_lib \<Rightarrow> u16 \<Rightarrow> header_list \<Rightarrow> usize \<Rightarrow> bool \<Rightarrow> stored_response_meta" where
  "meta_for_bytes H status headers content_length expose_upstream_validators =
     (let meta = meta_from_upstream H status headers (Some content_length);
          meta1 = (if expose_upstream_validators then meta
                   else meta\<lparr>meta_headers :=
                          strip_header LAST_MODIFIED (strip_header ETAG (meta_headers meta))\<rparr>)
      in if has_header CONTENT_TYPE (meta_headers meta1) then meta1
         else meta1\<lparr>meta_headers := meta_headers meta1 @ [(CONTENT_TYPE, ''application/octet-stream'')]\<rparr>)"

section \<open>Responses from metadata\<close>

fun apply_headers :: "http_lib \<Rightarrow> (string \<rightharpoonup> string) \<Rightarrow> (string \<times> string) list \<Rightarrow> (string \<rightharpoonup> string)" where
  "apply_headers H headers [] = headers"
| "apply_headers H headers ((name, value) # pairs) =
     (case name_from_bytes H name of
        None \<Rightarrow> apply_headers H headers pairs
      | Some n \<Rightarrow>
          (case value_from_str H value of
             None \<Rightarrow> apply_headers H headers pairs
           | Some v \<Rightarrow> apply_headers H (headers(n \<mapsto> v)) pairs))"

definition status_or_ok :: "http_lib \<Rightarrow> stored_response_meta \<Rightarrow> u16" where
  "status_or_ok H meta = (case status_from_u16 H (meta_status meta) of None \<Rightarrow> 200 | Some s \<Rightarrow> s)"

definition response_from_meta :: "http_lib \<Rightarrow> stored_response_meta \<Rightarrow> bytes \<Rightarrow> response" where
  "response_from_meta H meta body =
     \<lparr>resp_status = status_or_ok H meta, resp_headers = apply_headers H Map.empty (meta_headers meta),
      resp_body = body\<rparr>"

definition bytes_response :: "http_lib \<Rightarrow> stored_response_meta \<Rightarrow> bytes \<Rightarrow> response" where
  "bytes_response H meta body = response_from_meta H meta body"

definition empty_response_from_meta :: "http_lib \<Rightarrow> stored_response_meta \<Rightarrow> response" where
  "empty_response_from_meta H meta = response_from_meta H meta []"

definition response_without_body :: "response \<Rightarrow> response" where
  "response_without_body r = r\<lparr>resp_body := []\<rparr>"

text \<open>
  The body of a file response is streamed after the function returns; it is the first \<^verbatim>\<open>body_len\<close>
  bytes of the open file, which no later step changes (\<open>open_entry_stable\<close>).
\<close>

definition file_response :: "http_lib \<Rightarrow> stored_entry \<Rightarrow> (fs, response) io" where
  "file_response H entry = fs_op (\<lambda>s.
     (Inr (response_from_meta H (entry_meta entry)
             (take (unat (entry_body_len entry)) (fs_data s (entry_file entry)))), s))"

section \<open>Lemmas\<close>

text \<open>What the crate \<^verbatim>\<open>http\<close> documents of the names and values the proxy itself makes.\<close>

definition http_accepts :: "http_lib \<Rightarrow> bool" where
  "http_accepts H \<longleftrightarrow>
     (\<forall>name\<in>{CONTENT_LENGTH, CONTENT_TYPE, ETAG, LAST_MODIFIED}. name_from_bytes H name = Some name)
     \<and> (\<forall>n. value_from_str H (decimal n) = Some (decimal n))"

text \<open>Header names that come out of the crate are in lower case, and stay as they are.\<close>

definition lower_case :: "string \<Rightarrow> bool" where
  "lower_case s \<longleftrightarrow> map ascii_lower s = s"

lemma lower_case_names: "lower_case CONTENT_LENGTH" "lower_case CONTENT_TYPE" "lower_case ETAG" "lower_case LAST_MODIFIED"
  by code_simp+

lemma eq_ignore_lower: "lower_case a \<Longrightarrow> lower_case b \<Longrightarrow> eq_ignore_ascii_case a b \<longleftrightarrow> a = b"
  by (simp add: eq_ignore_ascii_case_def lower_case_def)

lemma eq_ignore_refl [simp]: "eq_ignore_ascii_case a a"
  by (simp add: eq_ignore_ascii_case_def)

lemma eq_ignore_names:
  "\<not> eq_ignore_ascii_case CONTENT_LENGTH ETAG" "\<not> eq_ignore_ascii_case CONTENT_LENGTH LAST_MODIFIED"
  "\<not> eq_ignore_ascii_case CONTENT_TYPE ETAG" "\<not> eq_ignore_ascii_case CONTENT_TYPE LAST_MODIFIED"
  "\<not> is_hop_header CONTENT_LENGTH" "\<not> is_hop_header CONTENT_TYPE" "CONTENT_LENGTH \<noteq> CONTENT_TYPE"
  "\<not> eq_ignore_ascii_case CONTENT_LENGTH CONTENT_TYPE"
  by code_simp+

lemma stored_headers_in:
  "(n, v) \<in> set (stored_headers H b headers) \<Longrightarrow>
     \<not> is_hop_header n \<and> (b \<longrightarrow> n \<noteq> CONTENT_LENGTH) \<and> (\<exists>raw. (n, raw) \<in> set headers \<and> value_to_str H raw = Some v)"
  by (induction H b headers rule: stored_headers.induct) (auto split: if_splits option.splits)

lemma strip_header_in: "(n, v) \<in> set (strip_header h headers) \<longleftrightarrow> (n, v) \<in> set headers \<and> \<not> eq_ignore_ascii_case n h"
  by (auto simp: strip_header_def)

lemma meta_for_bytes_headers:
  "\<exists>kept tail. meta_headers (meta_for_bytes H status headers len expose) = kept @ (CONTENT_LENGTH, decimal (unat len)) # tail
     \<and> (tail = [] \<or> tail = [(CONTENT_TYPE, ''application/octet-stream'')])"
  by (auto simp: meta_for_bytes_def meta_from_upstream_def Let_def strip_header_def eq_ignore_names)

text \<open>
  C35: What is stored of an upstream response is safe to replay.  For any upstream headers with names in
  lower case, the metadata kept for a body has no hop-by-hop header, exactly one content length,
  that of the body, some content type, and no upstream validator unless the body is the upstream's own;
  every other header it has comes from the upstream.
\<close>

theorem meta_for_bytes_spec:
  assumes "\<forall>(n, _)\<in>set headers. lower_case n" and "meta = meta_for_bytes H status headers len expose"
  shows "(\<forall>(n, v)\<in>set (meta_headers meta). \<not> is_hop_header n)
    \<and> filter (\<lambda>(n, _). eq_ignore_ascii_case n CONTENT_LENGTH) (meta_headers meta) = [(CONTENT_LENGTH, decimal (unat len))]
    \<and> has_header CONTENT_TYPE (meta_headers meta)
    \<and> (\<not> expose \<longrightarrow> \<not> has_header ETAG (meta_headers meta) \<and> \<not> has_header LAST_MODIFIED (meta_headers meta))
    \<and> (\<forall>(n, v)\<in>set (meta_headers meta). n \<noteq> CONTENT_LENGTH \<longrightarrow> (n, v) \<noteq> (CONTENT_TYPE, ''application/octet-stream'') \<longrightarrow>
         (\<exists>raw. (n, raw) \<in> set headers \<and> value_to_str H raw = Some v))
    \<and> meta_status meta = status"
proof -
  define base where "base = stored_headers H True headers"
  define kept where "kept = (if expose then base else strip_header LAST_MODIFIED (strip_header ETAG base))"
  define tail where "tail = (if has_header CONTENT_TYPE (kept @ [(CONTENT_LENGTH, decimal (unat len))]) then []
      else [(CONTENT_TYPE, ''application/octet-stream'')])"
  have strip: "strip_header LAST_MODIFIED (strip_header ETAG (base @ [(CONTENT_LENGTH, decimal (unat len))]))
      = strip_header LAST_MODIFIED (strip_header ETAG base) @ [(CONTENT_LENGTH, decimal (unat len))]"
    by (simp add: strip_header_def eq_ignore_names)
  have meta: "meta_headers meta = kept @ [(CONTENT_LENGTH, decimal (unat len))] @ tail"
    using strip by (simp add: assms(2) meta_for_bytes_def meta_from_upstream_def Let_def base_def kept_def tail_def)
  have kept: "(n, v) \<in> set base \<and> (\<not> expose \<longrightarrow> \<not> eq_ignore_ascii_case n ETAG \<and> \<not> eq_ignore_ascii_case n LAST_MODIFIED)"
    if "(n, v) \<in> set kept" for n v
    using that by (auto simp: kept_def strip_header_in split: if_splits)
  have base: "\<not> is_hop_header n" "\<not> eq_ignore_ascii_case n CONTENT_LENGTH"
      "\<exists>raw. (n, raw) \<in> set headers \<and> value_to_str H raw = Some v" if "(n, v) \<in> set kept" for n v
    using stored_headers_in [of n v H True headers] kept [OF that] assms(1) eq_ignore_lower [OF _ lower_case_names(1), of n]
    by (auto simp: base_def)
  have "filter (\<lambda>(n, _). eq_ignore_ascii_case n CONTENT_LENGTH) kept = []"
    using base(2) by (auto simp: filter_empty_conv)
  then have len: "filter (\<lambda>(n, _). eq_ignore_ascii_case n CONTENT_LENGTH) (meta_headers meta) = [(CONTENT_LENGTH, decimal (unat len))]"
    using eq_ignore_names(8) by (auto simp: meta tail_def eq_ignore_ascii_case_def)
  have ct: "has_header CONTENT_TYPE (meta_headers meta)"
    by (auto simp: meta tail_def has_header_def)
  have val: "\<not> expose \<longrightarrow> \<not> has_header ETAG (meta_headers meta) \<and> \<not> has_header LAST_MODIFIED (meta_headers meta)"
    using kept eq_ignore_names(1-4) by (auto simp: meta tail_def has_header_def list_ex_iff)
  have st: "meta_status meta = status"
    by (simp add: assms(2) meta_for_bytes_def meta_from_upstream_def Let_def)
  show ?thesis
    using len ct val st base(1,3) eq_ignore_names(5,6) by (auto simp: meta tail_def split: if_splits)
qed

lemma apply_headers_last:
  assumes "name_from_bytes H n = Some n" and "value_from_str H v = Some v"
    and "\<forall>(m, w)\<in>set post. name_from_bytes H m \<noteq> Some n"
  shows "apply_headers H headers (pre @ (n, v) # post) n = Some v"
proof -
  have post: "apply_headers H hs post n = hs n" for hs
    using assms(3) by (induction H hs post rule: apply_headers.induct) (auto split: option.split)
  show ?thesis
    using assms(1,2) post by (induction H headers pre rule: apply_headers.induct) (auto split: option.split)
qed

text \<open>A check that accepts everything, for instances.\<close>

definition lenient_http :: http_lib where
  "lenient_http = \<lparr>name_from_bytes = Some, value_from_str = Some, value_to_str = Some, status_from_u16 = Some\<rparr>"

lemma meta_for_bytes_spec_witness:
  "lower_case ''etag'' \<and> lower_case ''connection''
   \<and> meta_headers (meta_for_bytes lenient_http 200
        [(''etag'', ''1''), (''connection'', ''close''), (''content-length'', ''9''), (''x-a'', ''b'')] 5 False)
      = [(''x-a'', ''b''), (CONTENT_LENGTH, ''5''), (CONTENT_TYPE, ''application/octet-stream'')]
   \<and> \<not> has_header ETAG (meta_headers (meta_for_bytes lenient_http 200
        [(''etag'', ''1''), (''connection'', ''close''), (''content-length'', ''9''), (''x-a'', ''b'')] 5 False))"
proof -
  let ?headers = "[(''etag'', ''1''), (''connection'', ''close''), (''content-length'', ''9''), (''x-a'', ''b'')]"
  have "\<forall>(n, _)\<in>set ?headers. lower_case n"
    by code_simp
  moreover have "meta_headers (meta_for_bytes lenient_http 200 ?headers 5 False)
     = [(''x-a'', ''b''), (CONTENT_LENGTH, ''5''), (CONTENT_TYPE, ''application/octet-stream'')]"
    by code_simp
  moreover have "lower_case ''etag''" "lower_case ''connection''"
    by code_simp+
  ultimately show ?thesis
    using meta_for_bytes_spec [OF _ refl, of ?headers lenient_http 200 5 False] by blast
qed

text \<open>
  Responses are framed by their own body.  The response made from freshly built metadata announces the
  length of the body it carries, and the answer to a HEAD request has the same status and headers
  with an empty body.
\<close>

lemma bytes_response_framing:
  assumes "http_accepts H" and "length body < 2 ^ 64"
    and "meta = meta_for_bytes H status headers (of_nat (length body)) expose"
  shows "resp_headers (bytes_response H meta body) CONTENT_LENGTH = Some (decimal (length body))
    \<and> resp_body (bytes_response H meta body) = body
    \<and> empty_response_from_meta H meta = response_without_body (bytes_response H meta body)"
proof -
  let ?n = "decimal (length body)"
  obtain kept tail where shape: "meta_headers meta = kept @ (CONTENT_LENGTH, ?n) # tail"
    and tail: "tail = [] \<or> tail = [(CONTENT_TYPE, ''application/octet-stream'')]"
    using meta_for_bytes_headers [of H status headers "of_nat (length body)" expose] assms(2,3)
    by (auto simp: unat_of_nat)
  have "apply_headers H Map.empty (kept @ (CONTENT_LENGTH, ?n) # tail) CONTENT_LENGTH = Some ?n"
    using assms(1) tail eq_ignore_names(7) by (intro apply_headers_last) (auto simp: http_accepts_def)
  then show ?thesis
    by (simp add: bytes_response_def empty_response_from_meta_def response_from_meta_def
        response_without_body_def shape)
qed

lemma lenient_http_accepts: "http_accepts lenient_http"
  by (simp add: http_accepts_def lenient_http_def)

end
