(* ===== verification/Routes.thy ===== *)
theory Routes
  imports Prelude
begin

text \<open>
  \<^verbatim>\<open>src/routes.rs\<close>, the URL side: the canonical form of paths and segments, the construction of
  upstream URLs below a fixed registry origin, and the rewriting of one link.  The redirect policy
  of \<^verbatim>\<open>src/state.rs\<close> is here too, since it rests on the same origin comparison.

  The \<^verbatim>\<open>url\<close> crate is not part of the repository: a \<open>url\<close> is the record of what its accessors
  return, and the functions of the crate that compute (parsing, joining, the setters) are the fields
  of a parameter \<open>url_lib\<close>.  Nothing is assumed about them unless a theorem says so.
\<close>

named_theorems route_defs \<open>definitions of the URL builders\<close>

section \<open>URLs\<close>

record url =
  url_scheme :: string
  url_username :: string
  url_password :: "string option"
  url_host_str :: "string option"
  url_port :: "u16 option"
  url_path :: string
  url_query :: "string option"
  url_fragment :: "string option"

record url_lib =
  lib_parse :: "string \<Rightarrow> string + url"
  lib_join :: "url \<Rightarrow> string \<Rightarrow> url option"
  lib_as_str :: "url \<Rightarrow> string"
  lib_port_or_known_default :: "url \<Rightarrow> u16 option"
  lib_set_scheme :: "url \<Rightarrow> string \<Rightarrow> url"
  lib_set_host :: "url \<Rightarrow> string option \<Rightarrow> url"
  lib_set_port :: "url \<Rightarrow> u16 option \<Rightarrow> url"
  lib_set_query :: "url \<Rightarrow> string option \<Rightarrow> url"
  lib_query_pairs :: "url \<Rightarrow> (string \<times> string) list"
  lib_origin_ascii :: "url \<Rightarrow> string"

definition parse_ok :: "url_lib \<Rightarrow> string \<Rightarrow> url option" where
  "parse_ok L s = (case lib_parse L s of Inl _ \<Rightarrow> None | Inr u \<Rightarrow> Some u)"

record registry_origins =
  cargo_download :: url
  cargo_index :: url
  github :: url
  npm :: url
  pypi_files :: url
  pypi_simple :: url

text \<open>\<open>None\<close> stands for the panic of \<^verbatim>\<open>unwrap\<close> on a literal that does not parse.\<close>

definition default_origins :: "url_lib \<Rightarrow> registry_origins option" where
  "default_origins L =
     (case (parse_ok L ''https://static.crates.io/'', parse_ok L ''https://index.crates.io/'',
            parse_ok L ''https://github.com/'', parse_ok L ''https://registry.npmjs.org/'',
            parse_ok L ''https://files.pythonhosted.org/'', parse_ok L ''https://pypi.org/'') of
        (Some a, Some b, Some c, Some d, Some e, Some f) \<Rightarrow>
          Some \<lparr>cargo_download = a, cargo_index = b, github = c, npm = d, pypi_files = e,
                pypi_simple = f\<rparr>
      | _ \<Rightarrow> None)"

definition loopback_origins :: "url_lib \<Rightarrow> string \<Rightarrow> registry_origins option" where
  "loopback_origins L addr =
     map_option
       (\<lambda>origin. \<lparr>cargo_download = origin, cargo_index = origin, github = origin, npm = origin,
                  pypi_files = origin, pypi_simple = origin\<rparr>)
       (parse_ok L (''http://'' @ addr @ ''/''))"

definition matches_origin :: "url_lib \<Rightarrow> url \<Rightarrow> url \<Rightarrow> bool" where
  "matches_origin L u base \<longleftrightarrow>
     url_scheme u = url_scheme base
     \<and> url_host_str u = url_host_str base
     \<and> lib_port_or_known_default L u = lib_port_or_known_default L base"

definition normalize_url :: "url_lib \<Rightarrow> url \<Rightarrow> url \<Rightarrow> url" where
  "normalize_url L u base =
     (let u1 = lib_set_scheme L u (url_scheme base);
          u2 = lib_set_host L u1 (url_host_str base)
      in lib_set_port L u2 (url_port base))"

section \<open>Canonical paths\<close>

definition hex_value :: "byte \<Rightarrow> u8 option" where
  "hex_value b =
     (if between (CHR ''0'') (CHR ''9'') b then Some (of_char b - 48)
      else if between (CHR ''a'') (CHR ''f'') b then Some (of_char b - 97 + 10)
      else if between (CHR ''A'') (CHR ''F'') b then Some (of_char b - 65 + 10)
      else None)"

definition char_of_u8 :: "u8 \<Rightarrow> char" where
  "char_of_u8 w = char_of (unat w)"

definition lower_hex_letter :: "byte \<Rightarrow> bool" where
  "lower_hex_letter b \<longleftrightarrow> between (CHR ''a'') (CHR ''f'') b"

definition slash :: char where "slash = CHR ''/''"

definition backslash :: char where "backslash = CHR 0x5C"

text \<open>The loop of \<^verbatim>\<open>canonical_segment\<close> over the bytes from \<^verbatim>\<open>index\<close> on.\<close>

fun canonical_bytes :: "bytes \<Rightarrow> bool" where
  "canonical_bytes [] = True"
| "canonical_bytes (b # rest) =
     (if \<not> between (CHR 0x21) (CHR 0x7E) b \<or> b \<in> {CHR ''?'', CHR ''#'', backslash, slash} then False
      else if b \<noteq> CHR ''%'' then canonical_bytes rest
      else
        (case rest of
           h # l # rest' \<Rightarrow>
             (case (hex_value h, hex_value l) of
                (Some high, Some low) \<Rightarrow>
                  (if lower_hex_letter h \<or> lower_hex_letter l then False
                   else
                     (let decoded = char_of_u8 (high * 16 + low) in
                      if is_ascii_alphanumeric decoded
                         \<or> decoded \<in> {CHR ''-'', CHR ''.'', CHR ''_'', CHR ''~'', slash, backslash,
                                      CHR ''?'', CHR ''#''}
                      then False
                      else canonical_bytes rest'))
              | _ \<Rightarrow> False)
         | _ \<Rightarrow> False))"

definition canonical_segment :: "string \<Rightarrow> bool" where
  "canonical_segment segment \<longleftrightarrow>
     \<not> (segment = [] \<or> segment = ''.'' \<or> segment = ''..'' \<or> \<not> is_ascii segment)
     \<and> canonical_bytes segment"

text \<open>The \<^verbatim>\<open>while\<close> loop of \<^verbatim>\<open>canonical_path\<close>: an empty segment is allowed at the end only.\<close>

fun canonical_segments :: "string list \<Rightarrow> bool" where
  "canonical_segments [] = True"
| "canonical_segments (segment # rest) =
     (if segment = [] then rest = []
      else if \<not> canonical_segment segment then False
      else canonical_segments rest)"

definition canonical_path :: "string \<Rightarrow> bool" where
  "canonical_path p \<longleftrightarrow>
     \<not> (p = [] \<or> prefix [slash] p \<or> contains_str [slash, slash] p
        \<or> list_ex (\<lambda>c. c \<in> {CHR ''?'', CHR ''#'', backslash}) p)
     \<and> canonical_segments (split_char slash p)"

text \<open>\<^verbatim>\<open>char::from(u8)\<close> pushed on a \<^verbatim>\<open>String\<close>: a byte above 127 becomes two bytes of UTF-8.\<close>

definition push_char_from :: "byte \<Rightarrow> string" where
  "push_char_from b =
     (let n = of_char b :: nat in
      if n < 128 then [b] else [char_of (192 + n div 64), char_of (128 + n mod 64)])"

text \<open>\<^verbatim>\<open>char::from_digit(_, 16)\<close> followed by \<^verbatim>\<open>to_ascii_uppercase\<close>.\<close>

definition upper_hex_digit :: "u8 \<Rightarrow> char option" where
  "upper_hex_digit w =
     (let n = unat w in
      if n < 10 then Some (char_of (48 + n))
      else if n < 16 then Some (char_of (55 + n))
      else None)"

definition unreserved :: "char \<Rightarrow> bool" where
  "unreserved c \<longleftrightarrow> is_ascii_alphanumeric c \<or> c \<in> {CHR ''-'', CHR ''.'', CHR ''_'', CHR ''~''}"

fun rewrite_bytes :: "bytes \<Rightarrow> string option" where
  "rewrite_bytes [] = Some []"
| "rewrite_bytes (b # rest) =
     (if b \<noteq> CHR ''%'' then map_option (\<lambda>out. push_char_from b @ out) (rewrite_bytes rest)
      else
        (case rest of
           h # l # rest' \<Rightarrow>
             (case (hex_value h, hex_value l) of
                (Some high, Some low) \<Rightarrow>
                  (let decoded = char_of_u8 (high * 16 + low) in
                   if unreserved decoded
                   then map_option (\<lambda>out. push_char_from decoded @ out) (rewrite_bytes rest')
                   else
                     (case (upper_hex_digit high, upper_hex_digit low) of
                        (Some hi, Some lo) \<Rightarrow>
                          map_option (\<lambda>out. CHR ''%'' # hi # lo # out) (rewrite_bytes rest')
                      | _ \<Rightarrow> None))
              | _ \<Rightarrow> None)
         | _ \<Rightarrow> None))"

definition canonical_rewrite_path :: "string \<Rightarrow> string option" where
  "canonical_rewrite_path p =
     (case strip_prefix [slash] p of
        None \<Rightarrow> None
      | Some tail \<Rightarrow>
          (case rewrite_bytes tail of
             None \<Rightarrow> None
           | Some out \<Rightarrow> if canonical_path out then Some out else None))"

section \<open>Upstream URLs\<close>

definition build_url :: "url_lib \<Rightarrow> url \<Rightarrow> string \<Rightarrow> url option" where
  "build_url L base p =
     (if \<not> suffix [slash] (url_path base)
         \<or> url_username base \<noteq> []
         \<or> url_password base \<noteq> None
         \<or> url_query base \<noteq> None
         \<or> url_fragment base \<noteq> None
         \<or> parse_ok L p \<noteq> None
      then None
      else
        (case lib_join L base p of
           None \<Rightarrow> None
         | Some u \<Rightarrow>
             if matches_origin L u base
                \<and> url_path u = url_path base @ p
                \<and> url_query u = None
                \<and> url_fragment u = None
             then Some u else None))"

definition join_url :: "url_lib \<Rightarrow> url \<Rightarrow> string \<Rightarrow> url option" where
  "join_url L base p = (if \<not> canonical_path p then None else build_url L base p)"

definition cargo_index_url :: "url_lib \<Rightarrow> registry_origins \<Rightarrow> string \<Rightarrow> url option" where
  [route_defs]: "cargo_index_url L upstreams p = join_url L (cargo_index upstreams) p"

definition cargo_download_url ::
  "url_lib \<Rightarrow> registry_origins \<Rightarrow> string \<Rightarrow> string \<Rightarrow> url option" where
  [route_defs]: "cargo_download_url L upstreams crate_name version =
     join_url L (cargo_download upstreams)
       (''crates/'' @ crate_name @ ''/'' @ crate_name @ ''-'' @ version @ ''.crate'')"

definition pypi_simple_url :: "url_lib \<Rightarrow> registry_origins \<Rightarrow> string option \<Rightarrow> url option" where
  [route_defs]: "pypi_simple_url L upstreams project =
     (case project of
        None \<Rightarrow> join_url L (pypi_simple upstreams) ''simple/''
      | Some project \<Rightarrow>
          if canonical_segment project
          then join_url L (pypi_simple upstreams) (''simple/'' @ project @ ''/'')
          else None)"

definition pypi_file_url :: "url_lib \<Rightarrow> string \<Rightarrow> registry_origins \<Rightarrow> url option" where
  [route_defs]: "pypi_file_url L p upstreams = join_url L (pypi_files upstreams) p"

definition npm_tarball_url :: "url_lib \<Rightarrow> string \<Rightarrow> registry_origins \<Rightarrow> url option" where
  [route_defs]: "npm_tarball_url L p upstreams = join_url L (npm upstreams) p"

text \<open>The package part of \<^verbatim>\<open>npm_packument_url\<close>, before the URL is built.\<close>

definition npm_package_path :: "string \<Rightarrow> string option" where
  "npm_package_path package =
     (if prefix ''@'' package then
        (case (case find_str ''%2F'' package of
                 Some i \<Rightarrow> Some i
               | None \<Rightarrow> find_str ''%2f'' package) of
           None \<Rightarrow> None
         | Some separator \<Rightarrow>
             (let scope = take separator package;
                  name = drop (separator + 3) package
              in if length scope \<le> 1 \<or> \<not> canonical_segment scope \<or> \<not> canonical_segment name
                 then None
                 else Some (scope @ ''%2F'' @ name)))
      else if canonical_segment package then Some package
      else None)"

definition npm_packument_url :: "url_lib \<Rightarrow> registry_origins \<Rightarrow> string \<Rightarrow> url option" where
  [route_defs]: "npm_packument_url L upstreams package =
     (case npm_package_path package of
        None \<Rightarrow> None
      | Some package \<Rightarrow>
          if contains_str [slash] package then None
          else build_url L (npm upstreams) package)"

section \<open>Rewriting one link\<close>

definition clean_url :: "url \<Rightarrow> bool" where
  "clean_url u \<longleftrightarrow> \<not> (url_username u \<noteq> [] \<or> url_password u \<noteq> None \<or> url_query u \<noteq> None)"

definition rewrite_pypi_href :: "url_lib \<Rightarrow> registry_origins \<Rightarrow> string \<Rightarrow> string \<Rightarrow> string" where
  "rewrite_pypi_href L upstreams origin href =
     (case lib_parse L href of
        Inr u \<Rightarrow>
          if matches_origin L u (pypi_files upstreams)
             \<or> url_host_str u = Some ''files.pythonhosted.org''
          then
            (if \<not> clean_url u then href
             else
               (let fragment = (case url_fragment u of None \<Rightarrow> [] | Some f \<Rightarrow> ''#'' @ f);
                    normalized = normalize_url L u (pypi_files upstreams)
                in case canonical_rewrite_path (url_path normalized) of
                     None \<Rightarrow> href
                   | Some p \<Rightarrow> origin @ ''/pypi/files/'' @ p @ fragment))
          else if (matches_origin L u (pypi_simple upstreams)
                   \<or> url_host_str u = Some ''pypi.org'')
                  \<and> prefix ''/simple/'' (url_path u)
                  \<and> clean_url u
                  \<and> url_fragment u = None
          then
            (case canonical_rewrite_path (url_path u) of
               None \<Rightarrow> href
             | Some p \<Rightarrow> origin @ ''/pypi/'' @ p)
          else href
      | Inl _ \<Rightarrow>
          if prefix ''/simple/'' href
          then
            (case canonical_rewrite_path href of
               Some p \<Rightarrow> origin @ ''/pypi/'' @ p
             | None \<Rightarrow> href)
          else href)"

definition rewrite_npm_tarball ::
  "url_lib \<Rightarrow> registry_origins \<Rightarrow> string \<Rightarrow> string \<Rightarrow> string option" where
  "rewrite_npm_tarball L upstreams origin input =
     (case lib_parse L input of
        Inl _ \<Rightarrow> None
      | Inr u \<Rightarrow>
          if (\<not> matches_origin L u (npm upstreams) \<and> url_host_str u \<noteq> Some ''registry.npmjs.org'')
             \<or> \<not> clean_url u
             \<or> url_fragment u \<noteq> None
          then None
          else
            map_option (\<lambda>p. origin @ ''/npm/tarballs/'' @ p)
              (canonical_rewrite_path (url_path (normalize_url L u (npm upstreams)))))"

section \<open>Redirects\<close>

definition MAX_PACKAGE_REDIRECTS :: nat where
  "MAX_PACKAGE_REDIRECTS = 10"

definition package_redirect_allowed :: "url_lib \<Rightarrow> url \<Rightarrow> url list \<Rightarrow> bool" where
  "package_redirect_allowed L next_url previous \<longleftrightarrow>
     length previous \<le> MAX_PACKAGE_REDIRECTS
     \<and> (case previous of
          [] \<Rightarrow> False
        | original # _ \<Rightarrow>
            matches_origin L next_url original
            \<and> url_username next_url = []
            \<and> url_password next_url = None)"

text \<open>
  The chain of URLs a request visits: \<open>visited\<close> so far, and the targets still to come, each of
  which the policy allowed given the URLs before it.
\<close>

fun redirect_chain :: "url_lib \<Rightarrow> url list \<Rightarrow> url list \<Rightarrow> bool" where
  "redirect_chain L visited [] = True"
| "redirect_chain L visited (u # us) =
     (package_redirect_allowed L u visited \<and> redirect_chain L (visited @ [u]) us)"

section \<open>Reference notions\<close>

text \<open>Percent decoding, the meaning of a path in terms of bytes.\<close>

fun pct_decode :: "bytes \<Rightarrow> bytes option" where
  "pct_decode [] = Some []"
| "pct_decode (b # rest) =
     (if b \<noteq> CHR ''%'' then map_option (\<lambda>out. b # out) (pct_decode rest)
      else
        (case rest of
           h # l # rest' \<Rightarrow>
             (case (hex_value h, hex_value l) of
                (Some high, Some low) \<Rightarrow>
                  map_option (\<lambda>out. char_of_u8 (high * 16 + low) # out) (pct_decode rest')
              | _ \<Rightarrow> None)
         | _ \<Rightarrow> None))"

text \<open>A URL that stays below a base: same origin, the base's path extended, nothing after the path.\<close>

definition below :: "url_lib \<Rightarrow> url \<Rightarrow> string \<Rightarrow> url \<Rightarrow> bool" where
  "below L base p u \<longleftrightarrow>
     matches_origin L u base \<and> url_path u = url_path base @ p \<and> url_query u = None
     \<and> url_fragment u = None"

text \<open>A URL on the same registry as a base: same origin, below its path, nothing after the path.\<close>

definition stays_on :: "url_lib \<Rightarrow> url \<Rightarrow> url \<Rightarrow> bool" where
  "stays_on L base u \<longleftrightarrow>
     url_scheme u = url_scheme base \<and> url_host_str u = url_host_str base
     \<and> lib_port_or_known_default L u = lib_port_or_known_default L base
     \<and> prefix (url_path base) (url_path u) \<and> url_query u = None \<and> url_fragment u = None"

text \<open>
  A concrete \<open>url_lib\<close> for the witnesses: it joins by appending to the base's path and parses the
  URLs of the form \<^verbatim>\<open>https://host/path\<close> only.
\<close>

definition https_url :: "string \<Rightarrow> string \<Rightarrow> url" where
  "https_url host p =
     \<lparr>url_scheme = ''https'', url_username = [], url_password = None, url_host_str = Some host,
      url_port = None, url_path = p, url_query = None, url_fragment = None\<rparr>"

definition sample_lib :: url_lib where
  "sample_lib =
     \<lparr>lib_parse =
        (\<lambda>s. case strip_prefix ''https://'' s of
               None \<Rightarrow> Inl ''relative URL without a base''
             | Some rest \<Rightarrow>
                 (case split_once_char slash rest of
                    None \<Rightarrow> Inr (https_url rest ''/'')
                  | Some (host, p) \<Rightarrow> Inr (https_url host (slash # p)))),
      lib_join = (\<lambda>b p. Some (b\<lparr>url_path := url_path b @ p\<rparr>)),
      lib_as_str = (\<lambda>u. url_scheme u @ ''://'' @ the (url_host_str u) @ url_path u),
      lib_port_or_known_default = (\<lambda>u. case url_port u of None \<Rightarrow> Some 443 | Some p \<Rightarrow> Some p),
      lib_set_scheme = (\<lambda>u s. u\<lparr>url_scheme := s\<rparr>),
      lib_set_host = (\<lambda>u h. u\<lparr>url_host_str := h\<rparr>),
      lib_set_port = (\<lambda>u p. u\<lparr>url_port := p\<rparr>),
      lib_set_query = (\<lambda>u q. u\<lparr>url_query := q\<rparr>),
      lib_query_pairs = (\<lambda>u. []),
      lib_origin_ascii = (\<lambda>u. url_scheme u @ ''://'' @ the (url_host_str u))\<rparr>"

definition sample_origins :: registry_origins where
  "sample_origins = the (default_origins sample_lib)"

text \<open>A segment that names one entry of a directory, whatever is decoded on the way.\<close>

definition harmless_segment :: "string \<Rightarrow> bool" where
  "harmless_segment seg \<longleftrightarrow>
     (case pct_decode seg of
        None \<Rightarrow> False
      | Some d \<Rightarrow>
          d \<noteq> [] \<and> d \<noteq> ''.'' \<and> d \<noteq> ''..''
          \<and> list_all (\<lambda>c. c \<notin> {slash, backslash, CHR ''?'', CHR ''#''}) d)"

section \<open>Lemmas\<close>

subsection \<open>Hexadecimal digits\<close>

lemma of_char_less_256: "(of_char c :: nat) < 256"
  by (metis of_char_mod_256 mod_less_divisor zero_less_numeral)

lemma unat_of_char [simp]: "unat (of_char c :: u8) = of_char c"
proof -
  have "unat (of_nat (of_char c :: nat) :: u8) = of_char c"
    using of_char_less_256 [of c] by (subst unat_of_nat) simp
  then show ?thesis
    by (simp only: of_nat_of_char)
qed

lemma unat_u8_sub: "n \<le> of_char c \<Longrightarrow> n < 256 \<Longrightarrow> unat ((of_char c :: u8) - of_nat n) = of_char c - n"
  by (subst unat_sub) (simp_all add: word_le_nat_alt unat_of_nat)

lemma hex_value_cases:
  assumes "hex_value h = Some w"
  obtains (digit) "48 \<le> (of_char h :: nat)" "(of_char h :: nat) \<le> 57" "unat w = of_char h - 48"
    | (lower) "97 \<le> (of_char h :: nat)" "(of_char h :: nat) \<le> 102" "unat w = of_char h - 87"
    | (upper) "65 \<le> (of_char h :: nat)" "(of_char h :: nat) \<le> 70" "unat w = of_char h - 55"
  using assms unat_u8_sub [of 48 h] unat_u8_sub [of 87 h] unat_u8_sub [of 55 h]
  by (auto simp: hex_value_def less_eq_char_def split: if_splits)

lemma hex_value_less_16: "hex_value h = Some w \<Longrightarrow> unat w < 16"
  by (erule hex_value_cases) auto

lemma lower_hex_letter_iff:
  "lower_hex_letter b \<longleftrightarrow> 97 \<le> (of_char b :: nat) \<and> (of_char b :: nat) \<le> 102"
  by (simp add: lower_hex_letter_def less_eq_char_def)

lemma upper_hex_digit_hex_value:
  "hex_value h = Some w \<Longrightarrow> \<not> lower_hex_letter h \<Longrightarrow> upper_hex_digit w = Some h"
  by (erule hex_value_cases) (auto simp: upper_hex_digit_def lower_hex_letter_iff Let_def)

lemma upper_hex_digit_total: "hex_value h = Some w \<Longrightarrow> \<exists>c. upper_hex_digit w = Some c"
  by (drule hex_value_less_16) (auto simp: upper_hex_digit_def Let_def)

lemma hex_value_upper_hex_digit:
  assumes "upper_hex_digit w = Some c"
  shows "hex_value c = Some w" and "\<not> lower_hex_letter c"
proof -
  from assms have n: "unat w < 10 \<and> (of_char c :: nat) = 48 + unat w
      \<or> 10 \<le> unat w \<and> unat w < 16 \<and> (of_char c :: nat) = 55 + unat w"
    by (auto simp: upper_hex_digit_def Let_def of_char_of split: if_splits)
  then show "\<not> lower_hex_letter c"
    by (auto simp: lower_hex_letter_iff)
  have "(of_char c :: u8) = of_nat (of_char c :: nat)"
    by (simp only: of_nat_of_char)
  with n show "hex_value c = Some w"
    by (auto simp: hex_value_def less_eq_char_def)
qed

subsection \<open>Canonical bytes\<close>

lemma push_char_from_ascii: "(of_char b :: nat) < 128 \<Longrightarrow> push_char_from b = [b]"
  by (simp add: push_char_from_def)

lemma unreserved_ascii: "unreserved c \<Longrightarrow> (of_char c :: nat) < 128"
  by (auto simp: unreserved_def is_ascii_alphanumeric_def is_ascii_digit_def less_eq_char_def)

lemma unreserved_not_percent: "unreserved c \<Longrightarrow> c \<noteq> CHR ''%''"
  by (auto simp: unreserved_def is_ascii_alphanumeric_def is_ascii_digit_def)

text \<open>What a canonical byte sequence starts with: a plain byte or a canonical escape.\<close>

lemma canonical_bytes_ConsE:
  assumes "canonical_bytes (b # rest)"
  obtains (plain) "b \<noteq> CHR ''%''" "(of_char b :: nat) < 128" "b \<notin> {CHR ''?'', CHR ''#'', backslash, slash}"
      "canonical_bytes rest"
    | (escape) h l rest' high low where "b = CHR ''%''" "rest = h # l # rest'"
      "hex_value h = Some high" "hex_value l = Some low"
      "upper_hex_digit high = Some h" "upper_hex_digit low = Some l"
      "\<not> unreserved (char_of_u8 (high * 16 + low))"
      "char_of_u8 (high * 16 + low) \<notin> {slash, backslash, CHR ''?'', CHR ''#''}"
      "canonical_bytes rest'"
  using assms
  by (auto simp: less_eq_char_def Let_def unreserved_def upper_hex_digit_hex_value
      split: if_splits list.splits option.splits)

lemma rewrite_canonical_append:
  "canonical_bytes s \<Longrightarrow> rewrite_bytes (s @ t) = map_option (\<lambda>out. s @ out) (rewrite_bytes t)"
proof (induction s rule: length_induct)
  case (1 s)
  show ?case
  proof (cases s)
    case Nil
    then show ?thesis by (simp add: option.map_ident)
  next
    case (Cons b rest)
    from "1.prems" [unfolded Cons] show ?thesis
    proof (cases rule: canonical_bytes_ConsE)
      case plain
      then show ?thesis
        using "1.IH" by (simp add: Cons push_char_from_ascii option.map_comp comp_def)
    next
      case (escape h l rest' high low)
      then show ?thesis
        using "1.IH" by (simp add: Cons option.map_comp comp_def Let_def)
    qed
  qed
qed

lemma pct_decode_canonical:
  "canonical_bytes s \<Longrightarrow>
     \<exists>d. pct_decode s = Some d \<and> (s \<noteq> [] \<longrightarrow> d \<noteq> [])
        \<and> list_all (\<lambda>c. c \<notin> {slash, backslash, CHR ''?'', CHR ''#''}) d
        \<and> (list_all unreserved d \<longrightarrow> d = s)"
proof (induction s rule: length_induct)
  case (1 s)
  show ?case
  proof (cases s)
    case Nil
    then show ?thesis by simp
  next
    case (Cons b rest)
    from "1.prems" [unfolded Cons] show ?thesis
    proof (cases rule: canonical_bytes_ConsE)
      case plain
      with "1.IH" Cons obtain d where "pct_decode rest = Some d"
        "list_all (\<lambda>c. c \<notin> {slash, backslash, CHR ''?'', CHR ''#''}) d"
        "list_all unreserved d \<longrightarrow> d = rest"
        by (metis length_Cons lessI)
      with plain show ?thesis by (simp add: Cons)
    next
      case (escape h l rest' high low)
      with "1.IH" Cons obtain d where "pct_decode rest' = Some d"
        "list_all (\<lambda>c. c \<notin> {slash, backslash, CHR ''?'', CHR ''#''}) d"
        by (metis length_Cons less_Suc_eq)
      with escape show ?thesis by (simp add: Cons)
    qed
  qed
qed

lemma canonical_segment_bytes: "canonical_segment s \<Longrightarrow> canonical_bytes s"
  by (simp add: canonical_segment_def)

lemma canonical_segment_not_Nil: "canonical_segment s \<Longrightarrow> s \<noteq> []"
  by (simp add: canonical_segment_def)

lemma canonical_bytes_chars:
  "canonical_bytes s \<Longrightarrow> list_all (\<lambda>c. c \<notin> {slash, backslash, CHR ''?'', CHR ''#''}) s"
proof (induction s rule: length_induct)
  case (1 s)
  show ?case
  proof (cases s)
    case Nil
    then show ?thesis by simp
  next
    case (Cons b rest)
    from "1.prems" [unfolded Cons] show ?thesis
    proof (cases rule: canonical_bytes_ConsE)
      case plain
      with "1.IH" Cons have "list_all (\<lambda>c. c \<notin> {slash, backslash, CHR ''?'', CHR ''#''}) rest"
        by (metis length_Cons lessI)
      with plain show ?thesis by (simp add: Cons)
    next
      case (escape h l rest' high low)
    then have "h \<notin> {slash, backslash, CHR ''?'', CHR ''#''}" "l \<notin> {slash, backslash, CHR ''?'', CHR ''#''}"
      by (auto simp: hex_value_def slash_def backslash_def)
    moreover have "list_all (\<lambda>c. c \<notin> {slash, backslash, CHR ''?'', CHR ''#''}) rest'"
      using escape "1.IH" Cons by (metis length_Cons less_Suc_eq)
    ultimately show ?thesis
        using escape by (simp add: Cons slash_def backslash_def)
    qed
  qed
qed

lemma canonical_segment_harmless:
  assumes "canonical_segment s"
  shows "harmless_segment s"
proof -
  obtain d where d: "pct_decode s = Some d" "s \<noteq> [] \<longrightarrow> d \<noteq> []"
    "list_all (\<lambda>c. c \<notin> {slash, backslash, CHR ''?'', CHR ''#''}) d" "list_all unreserved d \<longrightarrow> d = s"
    using pct_decode_canonical [OF canonical_segment_bytes [OF assms]] by blast
  have "d \<noteq> ''.''" "d \<noteq> ''..''"
    using d(4) assms by (auto simp: canonical_segment_def unreserved_def)
  with d assms show ?thesis
    by (simp add: harmless_segment_def canonical_segment_def)
qed

subsection \<open>Canonical paths\<close>

lemma canonical_segments_mem:
  "canonical_segments segs \<Longrightarrow> seg \<in> set segs \<Longrightarrow> seg = [] \<or> canonical_segment seg"
  by (induction segs) (auto split: if_splits)

lemma rewrite_canonical_segments:
  "canonical_segments segs \<Longrightarrow> rewrite_bytes (join_char slash segs) = Some (join_char slash segs)"
proof (induction segs rule: induct_list012)
  case 1
  then show ?case by simp
next
  case (2 s)
  then show ?case
    using rewrite_canonical_append [of s "[]"] by (auto simp: canonical_segment_def split: if_splits)
next
  case (3 s t ts)
  then have "canonical_bytes s" "canonical_segments (t # ts)"
    by (auto simp: canonical_segment_def split: if_splits)
  moreover have "push_char_from slash = [slash]" "slash \<noteq> CHR ''%''"
    by (simp_all add: push_char_from_def slash_def)
  ultimately show ?case
    using "3.IH"(2) by (simp add: rewrite_canonical_append)
qed

lemma rewrite_canonical_path: "canonical_path p \<Longrightarrow> rewrite_bytes p = Some p"
  using rewrite_canonical_segments [of "split_char slash p"] by (simp add: canonical_path_def)

lemma is_ascii_join: "\<forall>s\<in>set segs. is_ascii s \<Longrightarrow> is_ascii (join_char slash segs)"
  by (induction segs rule: induct_list012) (auto simp: is_ascii_def slash_def)

lemma canonical_segments_ascii: "canonical_segments segs \<Longrightarrow> s \<in> set segs \<Longrightarrow> is_ascii s"
  by (drule (1) canonical_segments_mem) (auto simp: canonical_segment_def is_ascii_def)

lemma canonical_path_ascii: "canonical_path p \<Longrightarrow> is_ascii p"
  using is_ascii_join [of "split_char slash p"] canonical_segments_ascii [of "split_char slash p"]
  by (simp add: canonical_path_def)

lemma pct_decode_rewrite:
  "rewrite_bytes s = Some out \<Longrightarrow> is_ascii out \<Longrightarrow> pct_decode out = pct_decode s"
proof (induction "length s" arbitrary: s out rule: less_induct)
  case less
  show ?case
  proof (cases s)
    case Nil
    with less.prems show ?thesis by simp
  next
    case (Cons b rest)
    note prems = less.prems [unfolded Cons]
    have IH: "pct_decode out' = pct_decode s'"
      if "length s' < length s" "rewrite_bytes s' = Some out'" "is_ascii out'" for s' out'
      using that by (rule less.hyps)
    show ?thesis
    proof (cases "b = CHR ''%''")
    case False
    with prems obtain out' where out: "rewrite_bytes rest = Some out'" "out = push_char_from b @ out'"
      by auto
    have "(of_char b :: nat) < 128"
    proof (rule ccontr)
      assume b: "\<not> ?thesis"
      have "(of_char b :: nat) div 64 < 4"
        using of_char_less_256 [of b] by (intro less_mult_imp_div_less) simp
      then have "192 + (of_char b :: nat) div 64 < 256"
        by simp
      with b out prems(2) show False
        by (simp add: push_char_from_def is_ascii_def Let_def of_char_of)
    qed
    with False out prems IH [OF _ out(1)] show ?thesis
      by (simp add: Cons push_char_from_ascii is_ascii_def)
  next
    case True
    with prems(1) obtain h l rest' high low where
      r: "rest = h # l # rest'" "hex_value h = Some high" "hex_value l = Some low"
      by (auto split: list.splits option.splits)
    let ?d = "char_of_u8 (high * 16 + low)"
    show ?thesis
    proof (cases "unreserved ?d")
      case u: True
      with True r prems obtain out' where
        out: "rewrite_bytes rest' = Some out'" "out = push_char_from ?d @ out'"
        by (auto simp: Let_def)
      with True r u prems(2) have "pct_decode out' = pct_decode rest'"
        by (intro IH) (auto simp: Cons push_char_from_ascii unreserved_ascii is_ascii_def)
      with True r u out show ?thesis
        by (simp add: Cons push_char_from_ascii unreserved_ascii unreserved_not_percent)
    next
      case u: False
      obtain hi lo where d: "upper_hex_digit high = Some hi" "upper_hex_digit low = Some lo"
        using r upper_hex_digit_total by metis
      with True r u prems obtain out' where
        out: "rewrite_bytes rest' = Some out'" "out = CHR ''%'' # hi # lo # out'"
        by (auto simp: Let_def)
      with True r u d prems(2) have "pct_decode out' = pct_decode rest'"
        by (intro IH) (auto simp: Cons is_ascii_def)
      with True r d out show ?thesis
        by (simp add: Cons hex_value_upper_hex_digit)
      qed
    qed
  qed
qed

section \<open>The path normaliser\<close>

text \<open>
  What the rewriters rely on: a partial normaliser whose results are normal, are fixed by it, and
  mean what the input meant.
\<close>

locale path_normaliser =
  fixes normalise :: "'a \<Rightarrow> 'b option"
    and embed :: "'b \<Rightarrow> 'a"
    and normal :: "'b \<Rightarrow> bool"
    and meaning :: "'a \<Rightarrow> 'm"
  assumes normal_result: "normalise x = Some y \<Longrightarrow> normal y"
    and normal_fixed: "normal y \<Longrightarrow> normalise (embed y) = Some y"
    and same_meaning: "normalise x = Some y \<Longrightarrow> meaning (embed y) = meaning x"
begin

lemma normaliser_idempotent: "normalise x = Some y \<Longrightarrow> normalise (embed y) = Some y"
  by (rule normal_fixed [OF normal_result])

lemma normaliser_range: "normal y \<longleftrightarrow> (\<exists>x. normalise x = Some y)"
  using normal_result normal_fixed by blast

lemma normaliser_correct:
  "normalise x = Some y \<Longrightarrow> normal y \<and> normalise (embed y) = Some y \<and> meaning (embed y) = meaning x"
  using normal_result normaliser_idempotent same_meaning by blast

end

lemma canonical_rewrite_path_Some:
  "canonical_rewrite_path p = Some q \<longleftrightarrow>
     (\<exists>tail. p = slash # tail \<and> rewrite_bytes tail = Some q \<and> canonical_path q)"
  by (auto simp: canonical_rewrite_path_def strip_prefix_Some strip_prefix_def prefix_def
      split: option.splits if_splits)

interpretation rewrite_path:
  path_normaliser canonical_rewrite_path "\<lambda>q. slash # q" canonical_path "\<lambda>p. pct_decode (tl p)"
proof unfold_locales
  fix x y assume "canonical_rewrite_path x = Some y"
  then obtain tail where y: "x = slash # tail" "rewrite_bytes tail = Some y" "canonical_path y"
    by (auto simp: canonical_rewrite_path_Some)
  then show "canonical_path y" by simp
  show "pct_decode (tl (slash # y)) = pct_decode (tl x)"
    using y by (simp add: pct_decode_rewrite canonical_path_ascii)
next
  fix y assume "canonical_path y"
  then show "canonical_rewrite_path (slash # y) = Some y"
    by (simp add: canonical_rewrite_path_Some rewrite_canonical_path)
qed

section \<open>The upstream builders\<close>

text \<open>
  What the handlers rely on when they forward a request: the URL a builder returns lies below the
  origin it was given, and the path it adds is a function of the request.
\<close>

locale upstream_builder =
  fixes L :: url_lib
    and base :: url
    and tail :: "'a \<Rightarrow> string"
    and build :: "'a \<Rightarrow> url option"
  assumes build_below: "build x = Some u \<Longrightarrow> below L base (tail x) u"
begin

lemma builder_confined: "build x = Some u \<Longrightarrow> stays_on L base u"
  by (drule build_below) (auto simp: below_def matches_origin_def stays_on_def)

lemma builder_identity:
  "build x = Some u \<Longrightarrow> build y = Some v \<Longrightarrow> url_path u = url_path v \<Longrightarrow> tail x = tail y"
  by (drule build_below, drule build_below) (auto simp: below_def)

end

lemma build_url_below: "build_url L base p = Some u \<Longrightarrow> below L base p u"
  by (auto simp: build_url_def below_def split: if_splits option.splits)

lemma join_url_below: "join_url L base p = Some u \<Longrightarrow> below L base p u \<and> canonical_path p"
  by (auto simp: join_url_def build_url_below split: if_splits)

interpretation index_route: upstream_builder L "cargo_index ups" "\<lambda>p. p" "cargo_index_url L ups" for L ups
  by unfold_locales (simp add: route_defs join_url_below)

interpretation download_route:
  upstream_builder L "cargo_download ups"
    "\<lambda>(c, v). ''crates/'' @ c @ ''/'' @ c @ ''-'' @ v @ ''.crate''"
    "\<lambda>(c, v). cargo_download_url L ups c v" for L ups
  by unfold_locales (auto simp: route_defs dest!: join_url_below)

interpretation simple_route:
  upstream_builder L "pypi_simple ups"
    "\<lambda>project. case project of None \<Rightarrow> ''simple/'' | Some p \<Rightarrow> ''simple/'' @ p @ ''/''"
    "pypi_simple_url L ups" for L ups
  by unfold_locales (auto simp: route_defs dest!: join_url_below split: option.splits if_splits)

interpretation file_route: upstream_builder L "pypi_files ups" "\<lambda>p. p" "\<lambda>p. pypi_file_url L p ups" for L ups
  by unfold_locales (simp add: route_defs join_url_below)

interpretation tarball_route: upstream_builder L "npm ups" "\<lambda>p. p" "\<lambda>p. npm_tarball_url L p ups" for L ups
  by unfold_locales (simp add: route_defs join_url_below)

interpretation packument_route:
  upstream_builder L "npm ups" "\<lambda>p. the (npm_package_path p)" "npm_packument_url L ups" for L ups
  by unfold_locales (auto simp: route_defs dest!: build_url_below split: option.splits if_splits)

section \<open>Properties\<close>

text \<open>
  C22: \<^verbatim>\<open>canonical_rewrite_path\<close> is a normaliser.  Whenever it returns a path, that path satisfies
  \<^verbatim>\<open>canonical_path\<close>, is a fixed point of the rewriting, and percent-decodes to the same bytes as the
  path it was given; and every canonical path is reached.
\<close>

theorem canonical_rewrite_path_normal_form:
  "canonical_rewrite_path p = Some q \<Longrightarrow>
     canonical_path q \<and> canonical_rewrite_path (slash # q) = Some q
     \<and> pct_decode q = pct_decode (tl p)"
  using rewrite_path.normaliser_correct by fastforce

lemma canonical_rewrite_path_normal_form_witness:
  "canonical_rewrite_path ''/pkg/%70kg%20caf%c3%a9.whl'' = Some ''pkg/pkg%20caf%C3%A9.whl''
   \<and> canonical_path ''pkg/pkg%20caf%C3%A9.whl''"
proof -
  have h: "canonical_rewrite_path ''/pkg/%70kg%20caf%c3%a9.whl'' = Some ''pkg/pkg%20caf%C3%A9.whl''"
    by code_simp
  show ?thesis
    using h canonical_rewrite_path_normal_form [OF h] by blast
qed

text \<open>
  C2: A canonical path cannot escape the directory it is appended to.  Only its last segment may be
  empty, and every other segment, even after percent-decoding, is not a dot segment and holds no
  slash, backslash, question mark or hash.
\<close>

theorem canonical_path_harmless:
  assumes "canonical_path p"
  shows "[] \<notin> set (butlast (split_char slash p))
    \<and> (\<forall>seg\<in>set (split_char slash p). seg = [] \<or> harmless_segment seg)"
proof -
  have segs: "canonical_segments (split_char slash p)"
    using assms by (simp add: canonical_path_def)
  have "[] \<notin> set (butlast segs)" if "canonical_segments segs" for segs
    using that by (induction segs) (auto split: if_splits)
  with segs show ?thesis
    using canonical_segments_mem canonical_segment_harmless by blast
qed

lemma canonical_path_harmless_witness:
  "canonical_path ''packages/a%20b.whl'' \<and> harmless_segment ''a%20b.whl''"
proof -
  have h: "canonical_path ''packages/a%20b.whl''" by code_simp
  have "split_char slash ''packages/a%20b.whl'' = [''packages'', ''a%20b.whl'']" by code_simp
  with h canonical_path_harmless [OF h] show ?thesis by simp
qed

text \<open>
  C1: Every upstream URL the package routes can build stays on its registry: for the five path-based
  builders and the packument builder the result has the scheme, host and effective port of the
  configured origin, extends its path, and carries no query and no fragment, whatever the \<^verbatim>\<open>url\<close> crate
  answers when the path is joined.
\<close>

theorem upstream_urls_confined:
  "(cargo_index_url L ups p = Some u \<longrightarrow> stays_on L (cargo_index ups) u)
   \<and> (cargo_download_url L ups c v = Some u \<longrightarrow> stays_on L (cargo_download ups) u)
   \<and> (pypi_simple_url L ups project = Some u \<longrightarrow> stays_on L (pypi_simple ups) u)
   \<and> (pypi_file_url L p ups = Some u \<longrightarrow> stays_on L (pypi_files ups) u)
   \<and> (npm_tarball_url L p ups = Some u \<longrightarrow> stays_on L (npm ups) u)
   \<and> (npm_packument_url L ups p = Some u \<longrightarrow> stays_on L (npm ups) u)"
  using index_route.builder_confined [of L ups p u]
    download_route.builder_confined [where x = "(c, v)", simplified, of L ups u]
    simple_route.builder_confined [of L ups project u] file_route.builder_confined [of L p ups u]
    tarball_route.builder_confined [of L p ups u] packument_route.builder_confined [of L ups p u]
  by blast

lemma upstream_urls_confined_witness:
  "pypi_file_url sample_lib ''packages/a.whl'' sample_origins
     = Some (https_url ''files.pythonhosted.org'' ''/packages/a.whl'')
   \<and> stays_on sample_lib (pypi_files sample_origins)
       (https_url ''files.pythonhosted.org'' ''/packages/a.whl'')"
proof -
  have h: "pypi_file_url sample_lib ''packages/a.whl'' sample_origins
      = Some (https_url ''files.pythonhosted.org'' ''/packages/a.whl'')"
    by code_simp
  show ?thesis
    using h upstream_urls_confined [of sample_lib sample_origins "''packages/a.whl''"
        "https_url ''files.pythonhosted.org'' ''/packages/a.whl''" "[]" "[]" None]
    by blast
qed

lemma rewrite_bytes_simple:
  "rewrite_bytes (''simple/'' @ s) = map_option (\<lambda>out. ''simple/'' @ out) (rewrite_bytes s)"
  by (simp add: push_char_from_def option.map_comp comp_def)

lemma canonical_rewrite_simple:
  "canonical_rewrite_path p = Some q \<Longrightarrow> prefix ''/simple/'' p \<Longrightarrow> canonical_path q \<and> prefix ''simple/'' q"
proof -
  assume q: "canonical_rewrite_path p = Some q" and "prefix ''/simple/'' p"
  then obtain s where p: "p = slash # ''simple/'' @ s"
    by (auto simp: prefix_def slash_def)
  from q obtain tail where "p = slash # tail" "rewrite_bytes tail = Some q" "canonical_path q"
    by (auto simp: canonical_rewrite_path_Some)
  moreover from this p have "rewrite_bytes (''simple/'' @ s) = Some q"
    by blast
  ultimately show ?thesis
    unfolding rewrite_bytes_simple by (auto simp: prefix_def)
qed

text \<open>
  C23: A PyPI link is left as it is or replaced by a link to the proxy.  A replaced link is the
  configured origin, then \<^verbatim>\<open>/pypi/files/\<close> and a canonical path (with the fragment of the original
  link), or \<^verbatim>\<open>/pypi/\<close> and a canonical path below \<^verbatim>\<open>simple/\<close>; and only links that name the files host,
  the index host, or a root-relative \<^verbatim>\<open>/simple/\<close> path are replaced.
\<close>

theorem rewrite_pypi_href_cases:
  assumes "rewrite_pypi_href L ups origin href \<noteq> href"
  shows "\<exists>q. canonical_path q \<and>
     ((\<exists>u f. lib_parse L href = Inr u
          \<and> (matches_origin L u (pypi_files ups) \<or> url_host_str u = Some ''files.pythonhosted.org'')
          \<and> f = (case url_fragment u of None \<Rightarrow> [] | Some f \<Rightarrow> ''#'' @ f)
          \<and> rewrite_pypi_href L ups origin href = origin @ ''/pypi/files/'' @ q @ f)
      \<or> (prefix ''simple/'' q
          \<and> (case lib_parse L href of
                Inl _ \<Rightarrow> prefix ''/simple/'' href
              | Inr u \<Rightarrow> matches_origin L u (pypi_simple ups) \<or> url_host_str u = Some ''pypi.org'')
          \<and> rewrite_pypi_href L ups origin href = origin @ ''/pypi/'' @ q))"
proof (cases "lib_parse L href")
  case (Inl e)
  with assms show ?thesis
    by (auto simp: rewrite_pypi_href_def dest: canonical_rewrite_simple split: if_splits option.splits)
next
  case (Inr u)
  show ?thesis
  proof (cases "matches_origin L u (pypi_files ups) \<or> url_host_str u = Some ''files.pythonhosted.org''")
    case True
    with Inr assms obtain q where
      "canonical_rewrite_path (url_path (normalize_url L u (pypi_files ups))) = Some q" "clean_url u"
      by (auto simp: rewrite_pypi_href_def split: if_splits option.splits)
    moreover from this(1) have "canonical_path q"
      by (rule rewrite_path.normal_result)
    ultimately show ?thesis
      using True Inr by (auto simp: rewrite_pypi_href_def)
  next
    case False
    with Inr assms show ?thesis
      by (auto simp: rewrite_pypi_href_def dest: canonical_rewrite_simple split: if_splits option.splits)
  qed
qed

lemma rewrite_pypi_href_cases_witness:
  "rewrite_pypi_href sample_lib sample_origins ''http://localhost'' ''/simple/demo/''
     = ''http://localhost/pypi/simple/demo/''
   \<and> (\<exists>q. canonical_path q)"
proof -
  have h: "rewrite_pypi_href sample_lib sample_origins ''http://localhost'' ''/simple/demo/''
      = ''http://localhost/pypi/simple/demo/''"
    by code_simp
  then have "rewrite_pypi_href sample_lib sample_origins ''http://localhost'' ''/simple/demo/''
      \<noteq> ''/simple/demo/''"
    by simp
  from rewrite_pypi_href_cases [OF this] h show ?thesis by blast
qed

text \<open>
  C24: The redirect policy of the package client bounds and confines a request.  If every hop of a
  chain of URLs was allowed given the URLs visited before it, there are at most ten hops, and every
  URL has the scheme, host and effective port of the first one and carries no credentials.
\<close>

theorem redirect_chain_confined:
  assumes "redirect_chain L [u] us"
  shows "length us \<le> MAX_PACKAGE_REDIRECTS
    \<and> (\<forall>v\<in>set us. matches_origin L v u \<and> url_username v = [] \<and> url_password v = None)"
proof -
  have "(us = [] \<or> length vs + length us \<le> MAX_PACKAGE_REDIRECTS)
      \<and> (\<forall>v\<in>set us. matches_origin L v u \<and> url_username v = [] \<and> url_password v = None)"
    if "redirect_chain L (u # vs) us" for vs
    using that
    by (induction us arbitrary: vs) (fastforce simp: package_redirect_allowed_def)+
  from this [of "[]"] assms show ?thesis
    by auto
qed

lemma redirect_chain_confined_witness:
  "redirect_chain sample_lib [https_url ''h'' ''/a''] [https_url ''h'' ''/b'']
   \<and> matches_origin sample_lib (https_url ''h'' ''/b'') (https_url ''h'' ''/a'')"
proof -
  have h: "redirect_chain sample_lib [https_url ''h'' ''/a''] [https_url ''h'' ''/b'']"
    by code_simp
  show ?thesis
    using h redirect_chain_confined [OF h] by simp
qed

end
