(* ===== verification/Rewrite.thy ===== *)
theory Rewrite
  imports Routes
begin

text \<open>
  \<^verbatim>\<open>src/routes.rs\<close>, the rewriting of whole documents, and \<^verbatim>\<open>MetadataRewrite\<close> of \<^verbatim>\<open>src/proxy.rs\<close>: links in PyPI
  pages and tarball URLs in npm packuments are replaced while the document is copied to an output of
  limited size.  The JSON codec is a parameter.
\<close>

section \<open>Limited output\<close>

definition MAX_METADATA_BODY_LEN :: usize where "MAX_METADATA_BODY_LEN = 134217728"

record limited_output =
  lo_bytes :: bytes
  lo_max_len :: usize

definition new_output :: "usize \<Rightarrow> limited_output" where
  "new_output max_len = \<lparr>lo_bytes = [], lo_max_len = max_len\<rparr>"

definition output_limit_message :: string where
  "output_limit_message = ''rewritten metadata body exceeds output limit''"

type_synonym writer = "limited_output \<Rightarrow> string + limited_output"

definition extend_output :: "bytes \<Rightarrow> writer" where
  "extend_output bs out =
     (let n = length (lo_bytes out) + length bs in
      if n < 2 ^ 64 \<and> n \<le> unat (lo_max_len out) then Inr (out\<lparr>lo_bytes := lo_bytes out @ bs\<rparr>)
      else Inl output_limit_message)"

definition then_write :: "writer \<Rightarrow> writer \<Rightarrow> writer" where
  "then_write w w' out = (case w out of Inl e \<Rightarrow> Inl e | Inr out' \<Rightarrow> w' out')"

section \<open>PyPI pages\<close>

text \<open>
  A match of \<^verbatim>\<open>href="([^"]+)"|href='([^']+)'\<close>: where it starts and ends, and the two groups.
\<close>

record capture =
  cap_start :: nat
  cap_end :: nat
  cap_group1 :: "string option"
  cap_group2 :: "string option"

definition dquote :: char where "dquote = CHR 0x22"

definition squote :: char where "squote = CHR 0x27"

text \<open>
  \<^verbatim>\<open>captures_iter\<close> with that pattern.  An alternative matches where the text goes on with \<^verbatim>\<open>href=\<close>, a
  quote, at least one character that is not that quote (the class is greedy, and takes all of them), and
  the quote.  The iterator goes from left to right and resumes at the end of a match.  The quotes are
  ASCII, so matching the bytes of UTF-8 text is matching its characters.
\<close>

definition attr_value :: "char \<Rightarrow> string \<Rightarrow> string option" where
  "attr_value q s =
     (case strip_prefix (''href='' @ [q]) s of
        None \<Rightarrow> None
      | Some rest \<Rightarrow>
          (let v = takeWhile (\<lambda>c. c \<noteq> q) rest in
           if v \<noteq> [] \<and> length v < length rest then Some v else None))"

definition match_at :: "nat \<Rightarrow> string \<Rightarrow> capture option" where
  "match_at i s =
     (case attr_value dquote s of
        Some v \<Rightarrow> Some \<lparr>cap_start = i, cap_end = i + length v + 7, cap_group1 = Some v, cap_group2 = None\<rparr>
      | None \<Rightarrow>
          (case attr_value squote s of
             Some v \<Rightarrow> Some \<lparr>cap_start = i, cap_end = i + length v + 7, cap_group1 = None, cap_group2 = Some v\<rparr>
           | None \<Rightarrow> None))"

function captures_from :: "nat \<Rightarrow> string \<Rightarrow> capture list" where
  "captures_from i [] = []"
| "captures_from i (c # s) =
     (case match_at i (c # s) of
        Some cap \<Rightarrow> cap # captures_from (cap_end cap) (drop (cap_end cap - i) (c # s))
      | None \<Rightarrow> captures_from (Suc i) s)"
  by pat_completeness auto
termination
  by (relation "measure (length \<circ> snd)") (auto simp: match_at_def split: option.splits)

definition href_captures :: "string \<Rightarrow> capture list" where
  "href_captures page = captures_from 0 page"

text \<open>A range of a byte slice; a range that is not inside the slice panics, which is \<open>None\<close>.\<close>

definition slice :: "nat \<Rightarrow> nat \<Rightarrow> bytes \<Rightarrow> bytes option" where
  "slice a b s = (if a \<le> b \<and> b \<le> length s then Some (take (b - a) (drop a s)) else None)"

definition write_href :: "url_lib \<Rightarrow> registry_origins \<Rightarrow> string \<Rightarrow> capture \<Rightarrow> writer" where
  "write_href L upstreams origin cap =
     (case cap_group1 cap of
        Some href \<Rightarrow>
          then_write (extend_output (''href='' @ [dquote]))
          (then_write (extend_output (rewrite_pypi_href L upstreams origin href)) (extend_output [dquote]))
      | None \<Rightarrow>
          (let href = (case cap_group2 cap of None \<Rightarrow> [] | Some v \<Rightarrow> v) in
           then_write (extend_output (''href='' @ [squote]))
           (then_write (extend_output (rewrite_pypi_href L upstreams origin href)) (extend_output [squote]))))"

text \<open>The loop over the matches.  The outer \<open>None\<close> is a panic.\<close>

fun rewrite_matches ::
  "url_lib \<Rightarrow> registry_origins \<Rightarrow> string \<Rightarrow> bytes \<Rightarrow> capture list \<Rightarrow> nat \<Rightarrow> limited_output
     \<Rightarrow> (string + limited_output) option" where
  "rewrite_matches L upstreams origin input [] previous_end out =
     map_option (\<lambda>rest. extend_output rest out) (slice previous_end (length input) input)"
| "rewrite_matches L upstreams origin input (cap # caps) previous_end out =
     (case slice previous_end (cap_start cap) input of
        None \<Rightarrow> None
      | Some before \<Rightarrow>
          (case then_write (extend_output before) (write_href L upstreams origin cap) out of
             Inl e \<Rightarrow> Some (Inl e)
           | Inr out' \<Rightarrow> rewrite_matches L upstreams origin input caps (cap_end cap) out'))"

text \<open>\<open>utf8_message\<close> is the text of \<^verbatim>\<open>Utf8Error\<close>.\<close>

definition rewrite_pypi_html ::
  "url_lib \<Rightarrow> (bytes \<Rightarrow> string) \<Rightarrow> bytes \<Rightarrow> registry_origins \<Rightarrow> string \<Rightarrow> usize \<Rightarrow> (string + bytes) option" where
  "rewrite_pypi_html L utf8_message body upstreams origin max_len =
     (if \<not> utf8_valid body then Some (Inl (utf8_message body))
      else
        map_option (map_sum id lo_bytes)
          (rewrite_matches L upstreams origin body (href_captures body) 0
             (new_output (min max_len MAX_METADATA_BODY_LEN))))"

section \<open>npm packuments\<close>

text \<open>
  \<^verbatim>\<open>serde_json\<close> on raw values: the text of the value a document holds, the members of an object sorted by
  key, the string a value denotes, and the text of a string.  A raw value is written as its text.
\<close>

record json_lib =
  json_raw :: "bytes \<Rightarrow> string + string"
  json_object :: "string \<Rightarrow> (string \<times> string) list option"
  json_string :: "string \<Rightarrow> string option"
  json_write_string :: "string \<Rightarrow> string"

fun write_members :: "json_lib \<Rightarrow> (string \<Rightarrow> string \<Rightarrow> writer) \<Rightarrow> nat \<Rightarrow> (string \<times> string) list \<Rightarrow> writer" where
  "write_members J member index [] out = extend_output ''}'' out"
| "write_members J member index ((key, value) # members) out =
     then_write (if index > 0 then extend_output '','' else Inr)
     (then_write (extend_output (json_write_string J key))
     (then_write (extend_output '':'')
     (then_write (member key value)
      (write_members J member (Suc index) members)))) out"

definition write_object :: "json_lib \<Rightarrow> (string \<Rightarrow> string \<Rightarrow> writer) \<Rightarrow> string \<Rightarrow> writer" where
  "write_object J member value =
     (case json_object J value of
        None \<Rightarrow> extend_output value
      | Some members \<Rightarrow> then_write (extend_output ''{'') (write_members J member 0 members))"

definition write_npm_dist :: "json_lib \<Rightarrow> url_lib \<Rightarrow> registry_origins \<Rightarrow> string \<Rightarrow> string \<Rightarrow> writer" where
  "write_npm_dist J L upstreams origin =
     write_object J (\<lambda>key value.
       if key = ''tarball''
       then
         (case json_string J value of
            None \<Rightarrow> extend_output value
          | Some url \<Rightarrow>
              (case rewrite_npm_tarball L upstreams origin url of
                 None \<Rightarrow> extend_output value
               | Some rewritten \<Rightarrow> extend_output (json_write_string J rewritten)))
       else extend_output value)"

text \<open>
  \<^verbatim>\<open>write_npm_package\<close> and \<^verbatim>\<open>write_npm_versions\<close> call each other once: a version is a package whose own
  versions are not rewritten.  \<open>versions\<close> is what to do with them.
\<close>

definition write_npm_fields ::
  "json_lib \<Rightarrow> url_lib \<Rightarrow> registry_origins \<Rightarrow> string \<Rightarrow> (string \<Rightarrow> writer) \<Rightarrow> string \<Rightarrow> writer" where
  "write_npm_fields J L upstreams origin versions =
     write_object J (\<lambda>key value.
       if key = ''dist'' then write_npm_dist J L upstreams origin value
       else if key = ''versions'' then versions value
       else extend_output value)"

definition write_npm_versions :: "json_lib \<Rightarrow> url_lib \<Rightarrow> registry_origins \<Rightarrow> string \<Rightarrow> string \<Rightarrow> writer" where
  "write_npm_versions J L upstreams origin =
     write_object J (\<lambda>version value. write_npm_fields J L upstreams origin extend_output value)"

definition write_npm_package :: "json_lib \<Rightarrow> url_lib \<Rightarrow> registry_origins \<Rightarrow> string \<Rightarrow> bool \<Rightarrow> string \<Rightarrow> writer" where
  "write_npm_package J L upstreams origin rewrite_versions =
     write_npm_fields J L upstreams origin
       (if rewrite_versions then write_npm_versions J L upstreams origin else extend_output)"

definition rewrite_npm_json ::
  "json_lib \<Rightarrow> url_lib \<Rightarrow> bytes \<Rightarrow> registry_origins \<Rightarrow> string \<Rightarrow> usize \<Rightarrow> string + bytes" where
  "rewrite_npm_json J L body upstreams origin max_len =
     (case json_raw J body of
        Inl e \<Rightarrow> Inl e
      | Inr value \<Rightarrow>
          map_sum id lo_bytes
            (write_npm_package J L upstreams origin True value
               (new_output (min max_len MAX_METADATA_BODY_LEN))))"

section \<open>Which rewriting a request wants\<close>

datatype metadata_rewrite = RewriteNone | Npm string | Pypi string

definition cache_identity :: "metadata_rewrite \<Rightarrow> string" where
  "cache_identity r =
     (case r of
        RewriteNone \<Rightarrow> ''raw:v1''
      | Npm origin \<Rightarrow> ''npm:v2:'' @ origin
      | Pypi origin \<Rightarrow> ''pypi:v2:'' @ origin)"

definition MIN_REWRITABLE_URL_LEN :: usize where "MIN_REWRITABLE_URL_LEN = 20"

definition REWRITE_PREFIX_LEN :: usize where "REWRITE_PREFIX_LEN = 16"

definition bounded_output :: "usize \<Rightarrow> string \<Rightarrow> usize \<Rightarrow> usize" where
  "bounded_output min_url_len origin input_len =
     min
       (saturating_add input_len
          (saturating_mul (div_ceil input_len min_url_len)
             (saturating_add (of_nat (length origin)) REWRITE_PREFIX_LEN)))
       MAX_METADATA_BODY_LEN"

definition output_bound :: "metadata_rewrite \<Rightarrow> usize \<Rightarrow> usize" where
  "output_bound r input_len =
     (case r of
        RewriteNone \<Rightarrow> input_len
      | Npm origin \<Rightarrow> bounded_output MIN_REWRITABLE_URL_LEN origin input_len
      | Pypi origin \<Rightarrow> bounded_output (of_nat (length ''/simple/'')) origin input_len)"

definition working_set :: "metadata_rewrite \<Rightarrow> usize \<Rightarrow> usize \<Rightarrow> usize" where
  "working_set r input_len bound =
     (case r of
        RewriteNone \<Rightarrow> input_len
      | Pypi _ \<Rightarrow> saturating_add input_len bound
      | Npm _ \<Rightarrow> saturating_add (saturating_mul input_len 12) bound)"

section \<open>Lemmas\<close>

text \<open>
  The contract of a writer: it appends a text that depends on nothing else, if the text still fits, and
  otherwise reports the limit.  Writers that satisfy it are closed under sequencing, so a whole document
  satisfies it with the text that an unlimited copy would produce.
\<close>

definition writes :: "bytes \<Rightarrow> writer \<Rightarrow> bool" where
  "writes text w \<longleftrightarrow>
     (\<forall>out. w out =
        (if length (lo_bytes out) + length text \<le> unat (lo_max_len out)
         then Inr (out\<lparr>lo_bytes := lo_bytes out @ text\<rparr>) else Inl output_limit_message)
      \<or> unat (lo_max_len out) < length (lo_bytes out))"

lemma writes_extend: "writes bs (extend_output bs)"
proof -
  have "n < 2 ^ 64 \<and> n \<le> unat (w :: usize) \<longleftrightarrow> n \<le> unat w" for n w
    using unat_less_2p [of w] by (auto simp del: unsigned_less)
  then show ?thesis
    by (auto simp: writes_def extend_output_def Let_def)
qed

lemma writes_then:
  assumes "writes a w" and "writes b w'"
  shows "writes (a @ b) (then_write w w')"
  unfolding writes_def
proof
  fix out
  show "then_write w w' out =
        (if length (lo_bytes out) + length (a @ b) \<le> unat (lo_max_len out)
         then Inr (out\<lparr>lo_bytes := lo_bytes out @ a @ b\<rparr>) else Inl output_limit_message)
      \<or> unat (lo_max_len out) < length (lo_bytes out)"
  proof (cases "unat (lo_max_len out) < length (lo_bytes out)")
    case False
    then have a: "w out = (if length (lo_bytes out) + length a \<le> unat (lo_max_len out)
         then Inr (out\<lparr>lo_bytes := lo_bytes out @ a\<rparr>) else Inl output_limit_message)"
      using assms(1) unfolding writes_def by blast
    show ?thesis
    proof (cases "length (lo_bytes out) + length a \<le> unat (lo_max_len out)")
      case True
      then show ?thesis
        using a assms(2) [unfolded writes_def, rule_format, of "out\<lparr>lo_bytes := lo_bytes out @ a\<rparr>"]
        by (auto simp: then_write_def)
    next
      case False
      then show ?thesis
        using a by (simp add: then_write_def)
    qed
  qed simp
qed

lemma writes_nothing: "writes [] Inr"
  by (auto simp: writes_def)

lemma writes_result:
  assumes "writes text w"
  shows "map_sum id lo_bytes (w (new_output m)) =
    (if length text \<le> unat m then Inr text else Inl output_limit_message)"
  using assms [unfolded writes_def, rule_format, of "new_output m"] by (simp add: new_output_def)

subsection \<open>Objects\<close>

text \<open>The text an unlimited copy of an object has, given the text of each member.\<close>

fun members_text :: "json_lib \<Rightarrow> (string \<Rightarrow> string \<Rightarrow> bytes) \<Rightarrow> nat \<Rightarrow> (string \<times> string) list \<Rightarrow> bytes" where
  "members_text J text index [] = ''}''"
| "members_text J text index ((key, value) # members) =
     (if index > 0 then '','' else []) @ json_write_string J key @ '':'' @ text key value @
     members_text J text (Suc index) members"

definition object_text :: "json_lib \<Rightarrow> (string \<Rightarrow> string \<Rightarrow> bytes) \<Rightarrow> string \<Rightarrow> bytes" where
  "object_text J text value =
     (case json_object J value of
        None \<Rightarrow> value
      | Some members \<Rightarrow> ''{'' @ members_text J text 0 members)"

text \<open>
  The interface between the object writer and what it writes for a member: a member writer that keeps the
  contract makes an object writer that keeps it.
\<close>

locale member_writer =
  fixes J :: json_lib
    and member :: "string \<Rightarrow> string \<Rightarrow> writer"
    and mtext :: "string \<Rightarrow> string \<Rightarrow> bytes"
  assumes member_writes: "writes (mtext key value) (member key value)"
begin

lemma members_write: "writes (members_text J mtext index members) (write_members J member index members)"
proof (induction members arbitrary: index)
  case Nil
  have "write_members J member index [] = extend_output ''}''"
    by (rule ext) simp
  then show ?case
    by (simp add: writes_extend)
next
  case (Cons m members)
  obtain key val where m: "m = (key, val)"
    by force
  let ?sep = "if index > 0 then '','' else []"
  have sep: "writes ?sep (if index > 0 then extend_output '','' else Inr)"
    by (simp add: writes_extend writes_nothing)
  have "writes (?sep @ json_write_string J key @ '':'' @ mtext key val @ members_text J mtext (Suc index) members)
     (then_write (if index > 0 then extend_output '','' else Inr)
     (then_write (extend_output (json_write_string J key))
     (then_write (extend_output '':'')
     (then_write (member key val)
      (write_members J member (Suc index) members)))))"
    by (intro writes_then sep writes_extend member_writes Cons.IH)
  moreover have "write_members J member index ((key, val) # members) =
     then_write (if index > 0 then extend_output '','' else Inr)
     (then_write (extend_output (json_write_string J key))
     (then_write (extend_output '':'')
     (then_write (member key val)
      (write_members J member (Suc index) members))))"
    by (rule ext) simp
  ultimately show ?case
    by (simp add: m)
qed

lemma object_writes: "writes (object_text J mtext value) (write_object J member value)"
  unfolding write_object_def object_text_def
  using writes_then [OF writes_extend [of "''{''"] members_write [of 0]]
  by (cases "json_object J value") (simp_all add: writes_extend)

end

definition dist_member :: "json_lib \<Rightarrow> url_lib \<Rightarrow> registry_origins \<Rightarrow> string \<Rightarrow> string \<Rightarrow> string \<Rightarrow> bytes" where
  "dist_member J L upstreams origin key value =
     (if key = ''tarball''
      then
        (case json_string J value of
           None \<Rightarrow> value
         | Some url \<Rightarrow>
             (case rewrite_npm_tarball L upstreams origin url of
                None \<Rightarrow> value
              | Some rewritten \<Rightarrow> json_write_string J rewritten))
      else value)"

definition field_member ::
  "json_lib \<Rightarrow> url_lib \<Rightarrow> registry_origins \<Rightarrow> string \<Rightarrow> (string \<Rightarrow> bytes) \<Rightarrow> string \<Rightarrow> string \<Rightarrow> bytes" where
  "field_member J L upstreams origin versions key value =
     (if key = ''dist'' then object_text J (dist_member J L upstreams origin) value
      else if key = ''versions'' then versions value
      else value)"

text \<open>The packument with every tarball link replaced: the reference the streaming rewriter is compared with.\<close>

definition npm_text :: "json_lib \<Rightarrow> url_lib \<Rightarrow> registry_origins \<Rightarrow> string \<Rightarrow> string \<Rightarrow> bytes" where
  "npm_text J L upstreams origin =
     object_text J
       (field_member J L upstreams origin
          (object_text J (\<lambda>version.
             object_text J (field_member J L upstreams origin (\<lambda>value. value)))))"

interpretation dist: member_writer J
  "\<lambda>key value.
     if key = ''tarball''
     then
       (case json_string J value of
          None \<Rightarrow> extend_output value
        | Some url \<Rightarrow>
            (case rewrite_npm_tarball L upstreams origin url of
               None \<Rightarrow> extend_output value
             | Some rewritten \<Rightarrow> extend_output (json_write_string J rewritten)))
     else extend_output value"
  "dist_member J L upstreams origin" for J L upstreams origin
  by unfold_locales (auto simp: dist_member_def writes_extend split: option.split)

interpretation version_field: member_writer J
  "\<lambda>key value.
     if key = ''dist'' then write_npm_dist J L upstreams origin value
     else if key = ''versions'' then extend_output value
     else extend_output value"
  "field_member J L upstreams origin (\<lambda>value. value)" for J L upstreams origin
  by unfold_locales (simp add: field_member_def writes_extend write_npm_dist_def dist.object_writes)

interpretation versions: member_writer J
  "\<lambda>version value. write_npm_fields J L upstreams origin extend_output value"
  "\<lambda>version. object_text J (field_member J L upstreams origin (\<lambda>value. value))" for J L upstreams origin
  by unfold_locales (simp add: write_npm_fields_def version_field.object_writes)

interpretation package_field: member_writer J
  "\<lambda>key value.
     if key = ''dist'' then write_npm_dist J L upstreams origin value
     else if key = ''versions'' then write_npm_versions J L upstreams origin value
     else extend_output value"
  "field_member J L upstreams origin
     (object_text J (\<lambda>version. object_text J (field_member J L upstreams origin (\<lambda>value. value))))"
  for J L upstreams origin
  by unfold_locales
    (simp add: field_member_def writes_extend write_npm_dist_def dist.object_writes
      write_npm_versions_def versions.object_writes)

text \<open>
  C32: The streaming rewriter of packuments is the reference rewriter with a limit.  For every document
  the codec accepts, the result is the packument in which exactly the \<^verbatim>\<open>dist.tarball\<close> strings of the
  package and of its versions that are registry URLs are replaced and every other value is copied
  verbatim, when that text fits the limit (of at most 128 MiB), and an error otherwise.
\<close>

theorem rewrite_npm_json_spec:
  "rewrite_npm_json J L body upstreams origin max_len =
     (case json_raw J body of
        Inl e \<Rightarrow> Inl e
      | Inr value \<Rightarrow>
          if length (npm_text J L upstreams origin value) \<le> min (unat max_len) 134217728
          then Inr (npm_text J L upstreams origin value)
          else Inl ''rewritten metadata body exceeds output limit'')"
proof -
  have "writes (npm_text J L upstreams origin v) (write_npm_package J L upstreams origin True v)" for v
    by (simp add: npm_text_def write_npm_package_def write_npm_fields_def package_field.object_writes)
  from writes_result [OF this] show ?thesis
    by (auto simp: rewrite_npm_json_def output_limit_message_def unat_word_min MAX_METADATA_BODY_LEN_def split: sum.split)
qed

subsection \<open>Links\<close>

text \<open>What the loop relies on: matches do not overlap, are in order, and have the form of the pattern.\<close>

fun captures_ok :: "bytes \<Rightarrow> nat \<Rightarrow> capture list \<Rightarrow> bool" where
  "captures_ok input pos [] = (pos \<le> length input)"
| "captures_ok input pos (cap # caps) =
     (pos \<le> cap_start cap \<and> cap_start cap \<le> cap_end cap
      \<and> slice (cap_start cap) (cap_end cap) input =
          (case cap_group1 cap of
             Some href \<Rightarrow> Some (''href='' @ [dquote] @ href @ [dquote])
           | None \<Rightarrow>
               (case cap_group2 cap of
                  None \<Rightarrow> None
                | Some href \<Rightarrow> Some (''href='' @ [squote] @ href @ [squote])))
      \<and> captures_ok input (cap_end cap) caps)"

text \<open>The page with a function applied to every link, and the page itself.\<close>

fun map_links :: "(string \<Rightarrow> string) \<Rightarrow> bytes \<Rightarrow> nat \<Rightarrow> capture list \<Rightarrow> bytes" where
  "map_links f input pos [] = drop pos input"
| "map_links f input pos (cap # caps) =
     take (cap_start cap - pos) (drop pos input) @
     (case cap_group1 cap of
        Some href \<Rightarrow> ''href='' @ [dquote] @ f href @ [dquote]
      | None \<Rightarrow>
          (case cap_group2 cap of
             None \<Rightarrow> []
           | Some href \<Rightarrow> ''href='' @ [squote] @ f href @ [squote])) @
     map_links f input (cap_end cap) caps"

lemma captures_ok_bound: "captures_ok input pos caps \<Longrightarrow> pos \<le> length input"
  by (induction caps arbitrary: pos) (auto simp: slice_def split: if_splits option.splits dest: le_trans)

text \<open>The links of a page.\<close>

definition links :: "capture list \<Rightarrow> string set" where
  "links caps = {href. \<exists>cap\<in>set caps. cap_group1 cap = Some href \<or> cap_group1 cap = None \<and> cap_group2 cap = Some href}"

lemma map_links_fixed:
  assumes "captures_ok input pos caps" and "\<forall>href\<in>links caps. f href = href"
  shows "map_links f input pos caps = drop pos input"
  using assms
proof (induction caps arbitrary: pos)
  case Nil
  then show ?case by simp
next
  case (Cons cap caps)
  let ?a = "cap_start cap" and ?b = "cap_end cap"
  have le: "pos \<le> ?a" "?a \<le> ?b" "?b \<le> length input"
    using Cons.prems captures_ok_bound by auto
  have rest: "map_links f input ?b caps = drop ?b input"
    using Cons.prems by (intro Cons.IH) (auto simp: links_def)
  have split: "take (?a - pos) (drop pos input) @ take (?b - ?a) (drop ?a input) @ drop ?b input = drop pos input"
    using le by (metis append_take_drop_id drop_drop le_add_diff_inverse2)
  show ?case
  proof (cases "cap_group1 cap")
    case (Some href)
    then have "f href = href" "take (?b - ?a) (drop ?a input) = ''href='' @ [dquote] @ href @ [dquote]"
      using Cons.prems le by (auto simp: links_def slice_def)
    then show ?thesis
      using Some rest split by simp
  next
    case None
    then obtain href where h: "cap_group2 cap = Some href"
      using Cons.prems(1) le by (auto simp: slice_def split: option.splits)
    then have "f href = href" "take (?b - ?a) (drop ?a input) = ''href='' @ [squote] @ href @ [squote]"
      using Cons.prems None le by (auto simp: links_def slice_def)
    then show ?thesis
      using None h rest split by simp
  qed
qed

lemma href_writes:
  "cap_group1 cap = Some href \<Longrightarrow>
     writes (''href='' @ [dquote] @ rewrite_pypi_href L u origin href @ [dquote]) (write_href L u origin cap)"
  "cap_group1 cap = None \<Longrightarrow> cap_group2 cap = Some href \<Longrightarrow>
     writes (''href='' @ [squote] @ rewrite_pypi_href L u origin href @ [squote]) (write_href L u origin cap)"
  using writes_then [OF writes_extend [of "''href='' @ [q]" for q] writes_then [OF writes_extend writes_extend]]
  by (auto simp: write_href_def)

lemma rewrite_matches_writes:
  assumes "captures_ok input pos caps"
  shows "\<exists>w. writes (map_links (rewrite_pypi_href L u origin) input pos caps) w
    \<and> (\<forall>out. rewrite_matches L u origin input caps pos out = Some (w out))"
  using assms
proof (induction caps arbitrary: pos)
  case Nil
  then show ?case
    using writes_extend [of "drop pos input"] by (auto simp: slice_def)
next
  case (Cons cap caps)
  let ?before = "take (cap_start cap - pos) (drop pos input)"
  have le: "cap_end cap \<le> length input"
    using Cons.prems captures_ok_bound by auto
  then have before: "slice pos (cap_start cap) input = Some ?before"
    using Cons.prems by (simp add: slice_def)
  obtain w where w: "writes (map_links (rewrite_pypi_href L u origin) input (cap_end cap) caps) w"
    "\<And>out. rewrite_matches L u origin input caps (cap_end cap) out = Some (w out)"
    using Cons.IH [of "cap_end cap"] Cons.prems by auto
  let ?w = "then_write (then_write (extend_output ?before) (write_href L u origin cap)) w"
  have run: "rewrite_matches L u origin input (cap # caps) pos out = Some (?w out)" for out
    using before w(2) by (auto simp: then_write_def [of "then_write _ _"] split: sum.split)
  show ?case
  proof (cases "cap_group1 cap")
    case (Some href)
    have "writes ((?before @ (''href='' @ [dquote] @ rewrite_pypi_href L u origin href @ [dquote])) @
        map_links (rewrite_pypi_href L u origin) input (cap_end cap) caps) ?w"
      by (intro writes_then writes_extend href_writes(1) [OF Some] w(1))
    then show ?thesis
      using Some run by (intro exI [of _ ?w]) simp
  next
    case None
    then obtain href where h: "cap_group2 cap = Some href"
      using Cons.prems le by (auto simp: slice_def split: option.splits if_splits)
    have "writes ((?before @ (''href='' @ [squote] @ rewrite_pypi_href L u origin href @ [squote])) @
        map_links (rewrite_pypi_href L u origin) input (cap_end cap) caps) ?w"
      by (intro writes_then writes_extend href_writes(2) [OF None h] w(1))
    then show ?thesis
      using None h run by (intro exI [of _ ?w]) simp
  qed
qed

text \<open>
  The reference: the page with a function applied to the value of every link, read once from the left.
\<close>

function link_text :: "(string \<Rightarrow> string) \<Rightarrow> bytes \<Rightarrow> bytes" where
  "link_text f [] = []"
| "link_text f (c # s) =
     (case (attr_value dquote (c # s), attr_value squote (c # s)) of
        (Some v, _) \<Rightarrow> ''href='' @ [dquote] @ f v @ [dquote] @ link_text f (drop (length v + 7) (c # s))
      | (None, Some v) \<Rightarrow> ''href='' @ [squote] @ f v @ [squote] @ link_text f (drop (length v + 7) (c # s))
      | (None, None) \<Rightarrow> c # link_text f s)"
  by pat_completeness auto
termination
  by (relation "measure (length \<circ> snd)") auto

lemma attr_value_Some:
  assumes "attr_value q s = Some v"
  obtains t where "s = ''href='' @ [q] @ v @ [q] @ t"
proof -
  obtain r where r: "s = (''href='' @ [q]) @ r" "v = takeWhile (\<lambda>c. c \<noteq> q) r" "length v < length r"
    using assms by (auto simp: attr_value_def strip_prefix_Some Let_def split: option.splits if_splits)
  then have "dropWhile (\<lambda>c. c \<noteq> q) r \<noteq> []"
    by (metis append.right_neutral less_irrefl takeWhile_dropWhile_id)
  then obtain t where "dropWhile (\<lambda>c. c \<noteq> q) r = q # t"
    using hd_dropWhile [of "\<lambda>c. c \<noteq> q" r] by (metis list.collapse)
  then have "r = v @ q # t"
    using takeWhile_dropWhile_id [of "\<lambda>c. c \<noteq> q" r] r(2) by simp
  then show ?thesis
    using r(1) that by simp
qed

lemma captures_ok_mono: "captures_ok input pos caps \<Longrightarrow> p \<le> pos \<Longrightarrow> captures_ok input p caps"
  by (cases caps) auto

lemma map_links_skip:
  assumes "captures_ok input (Suc i) caps" and "i < length input"
  shows "map_links f input i caps = input ! i # map_links f input (Suc i) caps"
proof (cases caps)
  case (Cons cap caps')
  then have "Suc i \<le> cap_start cap"
    using assms(1) by simp
  then have "cap_start cap - i = Suc (cap_start cap - Suc i)"
    by simp
  then show ?thesis
    using Cons assms(2) by (simp add: Cons_nth_drop_Suc [symmetric])
qed (use assms(2) in \<open>simp add: Cons_nth_drop_Suc\<close>)

lemma match_length:
  "drop (length v + 7) (''href='' @ [q] @ v @ [q] @ t) = t"
  "take (length v + 7) (''href='' @ [q] @ v @ [q] @ t) = ''href='' @ [q] @ v @ [q]"
proof -
  have "length (''href='' @ [q] @ v @ [q]) = length v + 7"
    by simp
  then show "drop (length v + 7) (''href='' @ [q] @ v @ [q] @ t) = t"
      "take (length v + 7) (''href='' @ [q] @ v @ [q] @ t) = ''href='' @ [q] @ v @ [q]"
    by (metis append.assoc append_eq_conv_conj)+
qed

text \<open>The two shapes of a match, as one.\<close>

lemma match_at_Some:
  assumes "match_at i s = Some cap"
  obtains q v t where "s = ''href='' @ [q] @ v @ [q] @ t"
    and "cap_start cap = i" "cap_end cap = i + length v + 7"
    and "q = dquote \<and> cap_group1 cap = Some v \<and> attr_value dquote s = Some v
      \<or> q = squote \<and> cap_group1 cap = None \<and> cap_group2 cap = Some v \<and> attr_value dquote s = None \<and> attr_value squote s = Some v"
proof (cases "attr_value dquote s")
  case (Some v)
  then obtain t where "s = ''href='' @ [dquote] @ v @ [dquote] @ t"
    by (rule attr_value_Some)
  then show ?thesis
    using Some assms by (intro that [of dquote v t]) (auto simp: match_at_def)
next
  case None
  then obtain v where v: "attr_value squote s = Some v"
    using assms by (auto simp: match_at_def split: option.splits)
  then obtain t where "s = ''href='' @ [squote] @ v @ [squote] @ t"
    by (rule attr_value_Some)
  then show ?thesis
    using None v assms by (intro that [of squote v t]) (auto simp: match_at_def)
qed

lemma captures_from_links:
  "captures_ok (pre @ s) (length pre) (captures_from (length pre) s)
    \<and> map_links f (pre @ s) (length pre) (captures_from (length pre) s) = link_text f s"
proof (induction "length s" arbitrary: pre s rule: less_induct)
  case less
  show ?case
  proof (cases s)
    case (Cons c r)
    show ?thesis
    proof (cases "match_at (length pre) s")
      case None
      let ?caps = "captures_from (Suc (length pre)) r"
      have ih: "captures_ok (pre @ s) (Suc (length pre)) ?caps"
          "map_links f (pre @ s) (Suc (length pre)) ?caps = link_text f r"
        using less [of r "pre @ [c]"] Cons by simp_all
      moreover have "captures_from (length pre) s = ?caps" "link_text f s = c # link_text f r"
        using None Cons by (auto simp: match_at_def split: option.splits)
      ultimately show ?thesis
        using captures_ok_mono [OF ih(1), of "length pre"] map_links_skip [OF ih(1)] Cons by simp
    next
      case (Some cap)
      then obtain q v t where m: "s = ''href='' @ [q] @ v @ [q] @ t" "cap_start cap = length pre"
          "cap_end cap = length pre + length v + 7"
        "q = dquote \<and> cap_group1 cap = Some v \<and> attr_value dquote s = Some v
          \<or> q = squote \<and> cap_group1 cap = None \<and> cap_group2 cap = Some v \<and> attr_value dquote s = None
            \<and> attr_value squote s = Some v"
        by (rule match_at_Some)
      let ?pre = "pre @ ''href='' @ [q] @ v @ [q]"
      have len: "length ?pre = cap_end cap" and rest: "?pre @ t = pre @ s" and t: "drop (length v + 7) s = t"
        using m(1,3) match_length(1) [of v q t] by simp_all
      have "captures_from (length pre) s = cap # captures_from (cap_end cap) t"
        using Cons Some m(3) t by simp
      moreover have "captures_ok (pre @ s) (cap_end cap) (captures_from (cap_end cap) t)"
          "map_links f (pre @ s) (cap_end cap) (captures_from (cap_end cap) t) = link_text f t"
        using less [of t ?pre] m(1) unfolding len rest by simp_all
      moreover have "link_text f s = ''href='' @ [q] @ f v @ [q] @ link_text f t"
        using m(4) Cons t by auto
      moreover have "slice (cap_start cap) (cap_end cap) (pre @ s) = Some (''href='' @ [q] @ v @ [q])"
        using m(1-3) match_length(2) [of v q t] by (simp add: slice_def)
      ultimately show ?thesis
        using m(2-4) by auto
    qed
  qed simp
qed

lemma href_captures_ok: "captures_ok body 0 (href_captures body)"
  and href_captures_text: "map_links f body 0 (href_captures body) = link_text f body"
  using captures_from_links [of "[]" body] by (simp_all add: href_captures_def)

text \<open>
  C33: The streaming rewriter of PyPI pages is the reference rewriter with a limit.  It never slices out of
  range; a page that is not UTF-8 is refused; any other page becomes the page with the function for links
  applied to every link and nothing else changed when that fits the limit, and an error otherwise, and a
  page none of whose links is a registry link is returned byte for byte.
\<close>

theorem rewrite_pypi_html_spec:
  "rewrite_pypi_html L utf8_message body upstreams origin max_len =
     (let page = link_text (rewrite_pypi_href L upstreams origin) body in
      if \<not> utf8_valid body then Some (Inl (utf8_message body))
      else if length page \<le> min (unat max_len) 134217728 then Some (Inr page)
      else Some (Inl ''rewritten metadata body exceeds output limit''))
    \<and> ((\<forall>href\<in>links (href_captures body). rewrite_pypi_href L upstreams origin href = href) \<longrightarrow>
        link_text (rewrite_pypi_href L upstreams origin) body = body)"
proof
  obtain w where w: "writes (link_text (rewrite_pypi_href L upstreams origin) body) w"
    "\<And>out. rewrite_matches L upstreams origin body (href_captures body) 0 out = Some (w out)"
    using rewrite_matches_writes [OF href_captures_ok] unfolding href_captures_text by blast
  show "rewrite_pypi_html L utf8_message body upstreams origin max_len =
     (let page = link_text (rewrite_pypi_href L upstreams origin) body in
      if \<not> utf8_valid body then Some (Inl (utf8_message body))
      else if length page \<le> min (unat max_len) 134217728 then Some (Inr page)
      else Some (Inl ''rewritten metadata body exceeds output limit''))"
    using w(2) writes_result [OF w(1), of "min max_len MAX_METADATA_BODY_LEN"]
    by (simp add: rewrite_pypi_html_def Let_def unat_word_min MAX_METADATA_BODY_LEN_def output_limit_message_def)
  show "(\<forall>href\<in>links (href_captures body). rewrite_pypi_href L upstreams origin href = href) \<longrightarrow>
        link_text (rewrite_pypi_href L upstreams origin) body = body"
    using map_links_fixed [OF href_captures_ok] by (simp add: href_captures_text)
qed

text \<open>A page with one registry link, an empty attribute and one other link.\<close>

definition sample_page :: bytes where
  "sample_page = ''<a href='' @ [dquote] @ ''/simple/requests/'' @ [dquote] @ ''> href='' @ [squote, squote] @
     '' href='' @ [squote] @ ''x'' @ [squote]"

definition plain_page :: bytes where "plain_page = ''no links''"

theorem rewrite_pypi_html_spec_witness:
  "rewrite_pypi_html sample_lib (\<lambda>_. []) sample_page sample_origins ''https://mirror'' 80 =
      Some (Inr (''<a href='' @ [dquote] @ ''https://mirror/pypi/simple/requests/'' @ [dquote] @
        ''> href='' @ [squote, squote] @ '' href='' @ [squote] @ ''x'' @ [squote]))
    \<and> rewrite_pypi_html sample_lib (\<lambda>_. []) sample_page sample_origins ''https://mirror'' 30 =
        Some (Inl ''rewritten metadata body exceeds output limit'')
    \<and> rewrite_pypi_html sample_lib (\<lambda>_. []) plain_page sample_origins ''https://mirror'' 30 = Some (Inr plain_page)"
proof -
  have u: "utf8_valid sample_page" "utf8_valid plain_page" "href_captures plain_page = []"
    by code_simp+
  have p: "link_text (rewrite_pypi_href sample_lib sample_origins ''https://mirror'') sample_page =
      ''<a href='' @ [dquote] @ ''https://mirror/pypi/simple/requests/'' @ [dquote] @
          ''> href='' @ [squote, squote] @ '' href='' @ [squote] @ ''x'' @ [squote]"
    by code_simp
  note spec = rewrite_pypi_html_spec [of sample_lib "\<lambda>_. []" _ sample_origins "''https://mirror''"]
  have "link_text (rewrite_pypi_href sample_lib sample_origins ''https://mirror'') plain_page = plain_page"
    using spec [of "plain_page" 30, THEN conjunct2] u(3) by (simp add: links_def)
  moreover have plain: "length plain_page = 8"
    by (simp add: plain_page_def)
  ultimately show ?thesis
    using spec [of sample_page 80, THEN conjunct1] spec [of sample_page 30, THEN conjunct1]
      spec [of "plain_page" 30, THEN conjunct1] u(1,2)
    by (simp add: p)
qed

subsection \<open>Which rewriting a request wants\<close>

text \<open>
  Two rewritings share a cache key only if they are the same: the identity that goes into the metadata key
  distinguishes raw, npm and PyPI documents and the origin that was written into the links.
\<close>

lemma cache_identity_inj: "cache_identity r = cache_identity r' \<longleftrightarrow> r = r'"
  by (cases r; cases r') (simp_all add: cache_identity_def)

lemma min_saturated:
  fixes a b c K M :: nat
  assumes "K \<le> M"
  shows "min (min (a + min (b * min c M) M) M) K = min (a + b * c) K"
proof (cases "b = 0 \<or> c \<le> M")
  case True
  then show ?thesis
    using assms by (auto simp: min_def)
next
  case False
  then have "1 * M \<le> b * M" and "1 * M \<le> b * c"
    by (intro mult_le_mono; simp)+
  then have b: "K \<le> b * M" "K \<le> b * c"
    using assms unfolding mult_1 by (blast intro: le_trans)+
  have m: "min c M = M"
    using False by simp
  show ?thesis
    unfolding m using b assms by linarith
qed

lemma unat_bounded_output:
  assumes "length origin < 2 ^ 64" and "1 < unat m"
  shows "unat (bounded_output m origin n) =
    min (unat n + (unat n + unat m - 1) div unat m * (length origin + 16)) 134217728"
proof -
  have len: "unat (of_nat (length origin) :: usize) = length origin"
    using assms(1) by (simp add: unat_of_nat take_bit_eq_mod)
  have "unat (bounded_output m origin n) =
      min (min (unat n + min ((unat n + unat m - 1) div unat m * min (length origin + 16) (2 ^ 64 - 1)) (2 ^ 64 - 1))
        (2 ^ 64 - 1)) 134217728"
    unfolding bounded_output_def
    by (simp only: unat_word_min unat_saturating_add unat_saturating_mul unat_div_ceil [OF assms(2)] len
        MAX_METADATA_BODY_LEN_def REWRITE_PREFIX_LEN_def) simp
  moreover have "(134217728 :: nat) \<le> 2 ^ 64 - 1"
    by simp
  ultimately show ?thesis
    by (simp only: min_saturated)
qed

text \<open>
  C34: The bounds the memory reservation is computed from.  For a body of at most 128 MiB no operation of
  \<^verbatim>\<open>output_bound\<close> or \<^verbatim>\<open>working_set\<close> saturates, except that the output bound is cut at 128 MiB: it is the
  length plus one origin and prefix for every shortest link that fits the body.  The bound is never below
  the length of the body, so a body no link of which is rewritten always fits.
\<close>

theorem output_bound_bounds:
  assumes "unat n \<le> 134217728" and "length origin < 2 ^ 64"
  shows "output_bound RewriteNone n = n \<and> working_set RewriteNone n n = n
    \<and> unat (output_bound (Npm origin) n) =
        min (unat n + (unat n + 19) div 20 * (length origin + 16)) 134217728
    \<and> unat (output_bound (Pypi origin) n) =
        min (unat n + (unat n + 7) div 8 * (length origin + 16)) 134217728
    \<and> n \<le> output_bound (Npm origin) n \<and> n \<le> output_bound (Pypi origin) n
    \<and> unat (working_set (Npm origin) n (output_bound (Npm origin) n)) =
          12 * unat n + unat (output_bound (Npm origin) n)
    \<and> unat (working_set (Pypi origin) n (output_bound (Pypi origin) n)) =
          unat n + unat (output_bound (Pypi origin) n)"
proof -
  have sub: "unat (20 :: usize) = 20" "unat (8 :: usize) = 8" "n + 20 - 1 = n + 19" "n + 8 - 1 = n + 7" for n :: nat
    by simp_all
  have eight: "(of_nat (length ''/simple/'') :: usize) = 8"
    by simp
  have npm: "unat (output_bound (Npm origin) n) =
        min (unat n + (unat n + 19) div 20 * (length origin + 16)) 134217728"
    using unat_bounded_output [OF assms(2), of 20 n]
    unfolding sub by (simp only: output_bound_def MIN_REWRITABLE_URL_LEN_def metadata_rewrite.case)
  have pypi: "unat (output_bound (Pypi origin) n) =
        min (unat n + (unat n + 7) div 8 * (length origin + 16)) 134217728"
    using unat_bounded_output [OF assms(2), of 8 n]
    unfolding sub by (simp only: output_bound_def eight metadata_rewrite.case)
  have le: "n \<le> output_bound (Npm origin) n" "n \<le> output_bound (Pypi origin) n"
    using assms(1) by (simp_all add: word_le_nat_alt npm pypi)
  have cap: "unat (output_bound (Npm origin) n) \<le> 134217728" "unat (output_bound (Pypi origin) n) \<le> 134217728"
    by (simp_all add: npm pypi)
  have "unat (working_set (Npm origin) n (output_bound (Npm origin) n)) =
      12 * unat n + unat (output_bound (Npm origin) n)"
    "unat (working_set (Pypi origin) n (output_bound (Pypi origin) n)) =
      unat n + unat (output_bound (Pypi origin) n)"
    using assms(1) cap by (simp_all add: working_set_def word_sat)
  then show ?thesis
    using npm pypi le by (simp add: output_bound_def [of RewriteNone] working_set_def [of RewriteNone])
qed

theorem output_bound_bounds_witness:
  "unat (100 :: usize) \<le> 134217728 \<and> length ''https://m'' < 2 ^ 64
    \<and> unat (output_bound (Npm ''https://m'') 100) = 225 \<and> unat (output_bound (Pypi ''https://m'') 100) = 425"
  using output_bound_bounds [of 100 "''https://m''"] by simp

end
