(* ===== verification/Stats.thy ===== *)
theory Stats
  imports Prelude "HOL-Library.AList" "HOL-Library.List_Lexorder" "HOL-Library.Multiset"
begin

text \<open>
  \<^verbatim>\<open>src/stats.rs\<close>: the counters and their rendering as Prometheus text.  A \<^verbatim>\<open>HashMap\<close> is an association list
  in some unspecified order; strings are ordered bytewise, as \<^verbatim>\<open>str\<close> is.
\<close>

section \<open>Counters\<close>

definition UPSTREAM_PYPI_FILES :: string where "UPSTREAM_PYPI_FILES = ''pypi_files''"
definition UPSTREAM_PYPI_SIMPLE :: string where "UPSTREAM_PYPI_SIMPLE = ''pypi_simple''"
definition UPSTREAM_NPM :: string where "UPSTREAM_NPM = ''npm''"
definition UPSTREAM_CARGO_DOWNLOAD :: string where "UPSTREAM_CARGO_DOWNLOAD = ''cargo_download''"
definition UPSTREAM_CARGO_INDEX :: string where "UPSTREAM_CARGO_INDEX = ''cargo_index''"
definition UPSTREAM_GITHUB :: string where "UPSTREAM_GITHUB = ''github''"

type_synonym counters = "(string \<times> usize) list"

record stats_snapshot =
  artifact_fetches :: counters
  metadata_fetches :: counters
  artifact_joins :: counters
  git_forwards :: counters
  npm_search_requests :: usize
  npm_audit_requests :: usize

definition default_stats :: stats_snapshot where
  "default_stats =
     \<lparr>artifact_fetches = [], metadata_fetches = [], artifact_joins = [], git_forwards = [],
      npm_search_requests = 0, npm_audit_requests = 0\<rparr>"

text \<open>\<^verbatim>\<open>*entry(k).or_insert(0) += 1\<close>\<close>

definition bump :: "string \<Rightarrow> counters \<Rightarrow> counters" where
  "bump k m = AList.update k ((case map_of m k of None \<Rightarrow> 0 | Some n \<Rightarrow> n) + 1) m"

definition record_artifact_fetch :: "string \<Rightarrow> stats_snapshot \<Rightarrow> stats_snapshot" where
  "record_artifact_fetch u s = s\<lparr>artifact_fetches := bump u (artifact_fetches s)\<rparr>"

definition record_metadata_fetch :: "string \<Rightarrow> stats_snapshot \<Rightarrow> stats_snapshot" where
  "record_metadata_fetch u s = s\<lparr>metadata_fetches := bump u (metadata_fetches s)\<rparr>"

definition record_artifact_join :: "string \<Rightarrow> stats_snapshot \<Rightarrow> stats_snapshot" where
  "record_artifact_join u s = s\<lparr>artifact_joins := bump u (artifact_joins s)\<rparr>"

definition record_git_forward :: "string \<Rightarrow> stats_snapshot \<Rightarrow> stats_snapshot" where
  "record_git_forward u s = s\<lparr>git_forwards := bump u (git_forwards s)\<rparr>"

definition record_npm_search_request :: "stats_snapshot \<Rightarrow> stats_snapshot" where
  "record_npm_search_request s = s\<lparr>npm_search_requests := npm_search_requests s + 1\<rparr>"

definition record_npm_audit_request :: "stats_snapshot \<Rightarrow> stats_snapshot" where
  "record_npm_audit_request s = s\<lparr>npm_audit_requests := npm_audit_requests s + 1\<rparr>"

definition reset_stats :: "stats_snapshot \<Rightarrow> stats_snapshot" where
  "reset_stats s = default_stats"

section \<open>Rendering\<close>

definition newline :: char where "newline = CHR 0x0A"

definition quote :: char where "quote = CHR 0x22"

definition bslash :: char where "bslash = CHR 0x5C"

fun escape_label_value :: "string \<Rightarrow> string" where
  "escape_label_value [] = []"
| "escape_label_value (ch # s) =
     (if ch = bslash then [bslash, bslash]
      else if ch = newline then bslash # ''n''
      else if ch = quote then [bslash, quote]
      else [ch]) @ escape_label_value s"

definition writeln :: "string \<Rightarrow> string \<Rightarrow> string" where
  "writeln out line = out @ line @ [newline]"

definition help_lines :: "string \<Rightarrow> string \<Rightarrow> string \<Rightarrow> string" where
  "help_lines out name help =
     writeln (writeln out (''# HELP '' @ name @ '' '' @ help)) (''# TYPE '' @ name @ '' counter'')"

definition metric_line :: "string \<Rightarrow> string \<times> usize \<Rightarrow> string" where
  "metric_line name e =
     name @ ''{upstream='' @ [quote] @ escape_label_value (fst e) @ [quote] @ ''} '' @ decimal (unat (snd e))"

definition write_counter_metric :: "string \<Rightarrow> string \<Rightarrow> string \<Rightarrow> counters \<Rightarrow> string" where
  "write_counter_metric out name help values =
     foldl (\<lambda>out e. writeln out (metric_line name e)) (help_lines out name help) (sort_key fst values)"

definition write_total :: "string \<Rightarrow> string \<Rightarrow> string \<Rightarrow> usize \<Rightarrow> string" where
  "write_total out name help n = writeln (help_lines out name help) (name @ '' '' @ decimal (unat n))"

definition render_prometheus :: "stats_snapshot \<Rightarrow> string" where
  "render_prometheus s =
     (let o1 = write_counter_metric [] ''vampire_artifact_fetches_total''
                 ''Number of upstream artifact GETs.'' (artifact_fetches s);
          o2 = write_counter_metric o1 ''vampire_metadata_fetches_total''
                 ''Number of upstream package metadata GETs.'' (metadata_fetches s);
          o3 = write_counter_metric o2 ''vampire_artifact_joins_total''
                 ''Number of requests that joined an in-flight artifact fetch.'' (artifact_joins s);
          o4 = write_counter_metric o3 ''vampire_git_forwards_total''
                 ''Number of git requests forwarded upstream.'' (git_forwards s);
          o5 = write_total o4 ''vampire_npm_search_requests_total''
                 ''Number of valid npm search requests, including HEAD and admission rejections.''
                 (npm_search_requests s)
      in write_total o5 ''vampire_npm_audit_requests_total''
           ''Number of valid npm audit requests, including body and admission rejections.''
           (npm_audit_requests s))"

section \<open>Lemmas\<close>

lemma map_of_bump:
  "map_of (bump k m) = (map_of m)(k \<mapsto> (case map_of m k of None \<Rightarrow> 0 | Some n \<Rightarrow> n) + 1)"
  by (simp add: bump_def update_conv')

lemma distinct_bump: "distinct (map fst m) \<Longrightarrow> distinct (map fst (bump k m))"
  by (simp add: bump_def distinct_update)

text \<open>The events the counters record, and what a sequence of them does.\<close>

datatype stats_event =
    ArtifactFetch string
  | MetadataFetch string
  | ArtifactJoin string
  | GitForward string
  | NpmSearch
  | NpmAudit

primrec record_event :: "stats_event \<Rightarrow> stats_snapshot \<Rightarrow> stats_snapshot" where
  "record_event (ArtifactFetch u) = record_artifact_fetch u"
| "record_event (MetadataFetch u) = record_metadata_fetch u"
| "record_event (ArtifactJoin u) = record_artifact_join u"
| "record_event (GitForward u) = record_git_forward u"
| "record_event NpmSearch = record_npm_search_request"
| "record_event NpmAudit = record_npm_audit_request"

definition counter :: "counters \<Rightarrow> string \<Rightarrow> usize" where
  "counter m u = (case map_of m u of None \<Rightarrow> 0 | Some n \<Rightarrow> n)"

text \<open>The value of every counter, by the event it counts: the abstract view of a snapshot.\<close>

primrec reading :: "stats_snapshot \<Rightarrow> stats_event \<Rightarrow> usize" where
  "reading s (ArtifactFetch u) = counter (artifact_fetches s) u"
| "reading s (MetadataFetch u) = counter (metadata_fetches s) u"
| "reading s (ArtifactJoin u) = counter (artifact_joins s) u"
| "reading s (GitForward u) = counter (git_forwards s) u"
| "reading s NpmSearch = npm_search_requests s"
| "reading s NpmAudit = npm_audit_requests s"

lemma counter_bump: "counter (bump k m) u = (if u = k then counter m u + 1 else counter m u)"
  by (simp add: counter_def map_of_bump)

lemmas record_defs = record_artifact_fetch_def record_metadata_fetch_def record_artifact_join_def
  record_git_forward_def record_npm_search_request_def record_npm_audit_request_def

lemma reading_record: "reading (record_event e s) e' = (if e' = e then reading s e' + 1 else reading s e')"
  by (cases e; cases e') (auto simp: record_defs counter_bump)

lemma reading_default: "reading default_stats e = 0"
  by (cases e) (simp_all add: default_stats_def counter_def)

text \<open>
  C37: Every counter counts.  After any sequence of recorded events since the last reset, each counter is
  the number of its events in the sequence, modulo the width of \<^verbatim>\<open>usize\<close>: no event is lost or counted
  for another upstream.
\<close>

theorem counters_count_events:
  "reading (fold record_event es (reset_stats s)) e = of_nat (count_list es e)"
proof -
  have "reading (fold record_event es t) e = reading t e + of_nat (count_list es e)" for t
    by (induction es arbitrary: t) (auto simp: reading_record)
  then show ?thesis
    by (simp add: reset_stats_def reading_default)
qed

definition same_counters :: "counters \<Rightarrow> counters \<Rightarrow> bool" where
  "same_counters a b \<longleftrightarrow> distinct (map fst a) \<and> mset a = mset b"

lemma sort_key_same:
  assumes "same_counters a b"
  shows "sort_key fst a = sort_key fst b"
proof -
  let ?a = "sort_key fst a" and ?b = "sort_key fst b"
  have m: "mset ?a = mset ?b"
    using assms by (simp add: same_counters_def)
  then have set: "set ?a = set ?b"
    by (rule mset_eq_setD)
  have "mset (map fst ?a) = mset (map fst a)" "mset (map fst ?b) = mset (map fst a)"
    using assms by (simp_all add: same_counters_def)
  then have d: "distinct (map fst ?a)" "distinct (map fst ?b)"
    using assms mset_eq_imp_distinct_iff by (fastforce simp: same_counters_def)+
  have "map fst ?a = map fst ?b"
    using d set by (intro sorted_distinct_set_unique) (simp_all add: image_def)
  moreover have "inj_on fst (set ?a \<union> set ?b)"
    using d(1) set by (simp add: distinct_map)
  ultimately show ?thesis
    by (rule map_inj_on)
qed

text \<open>
  The exposition is a function of the counters.  The order in which the hash maps happen to
  enumerate their entries, which differs from run to run, does not show in the rendered text.
\<close>

lemma render_order_independent:
  assumes "same_counters (artifact_fetches s) (artifact_fetches t)"
    and "same_counters (metadata_fetches s) (metadata_fetches t)"
    and "same_counters (artifact_joins s) (artifact_joins t)"
    and "same_counters (git_forwards s) (git_forwards t)"
    and "npm_search_requests s = npm_search_requests t" and "npm_audit_requests s = npm_audit_requests t"
  shows "render_prometheus s = render_prometheus t"
  using assms by (simp add: render_prometheus_def write_counter_metric_def sort_key_same)

text \<open>Escaped labels: reading an escaped label back, and where quotes and line ends can be.\<close>

fun unescape :: "string \<Rightarrow> string" where
  "unescape [] = []"
| "unescape (a # s) =
     (if a = bslash
      then (case s of
              [] \<Rightarrow> []
            | b # rest \<Rightarrow> (if b = CHR ''n'' then newline else b) # unescape rest)
      else a # unescape s)"

text \<open>The quotes of an escaped label are the ones after a backslash that is not itself escaped.\<close>

fun label_closed :: "string \<Rightarrow> bool" where
  "label_closed [] = True"
| "label_closed (a # s) =
     (if a = bslash then (case s of [] \<Rightarrow> False | b # rest \<Rightarrow> b \<noteq> newline \<and> label_closed rest)
      else a \<noteq> quote \<and> a \<noteq> newline \<and> label_closed s)"

lemmas special_chars = bslash_def quote_def newline_def

text \<open>
  Label values cannot break the exposition format.  An escaped value has no line end and no quote
  that would close the label, and it can be read back: two different upstream names never render to
  the same label.
\<close>

lemma escape_label_value_roundtrip:
  "unescape (escape_label_value v) = v \<and> label_closed (escape_label_value v)"
proof
  show "unescape (escape_label_value v) = v"
    by (induction v) (auto simp: special_chars)
  show "label_closed (escape_label_value v)"
    by (induction v) (auto simp: special_chars)
qed

end
