(* ===== verification/Proxy.thy ===== *)
theory Proxy
  imports Inflight Http Rewrite Stats
begin

text \<open>
  \<^verbatim>\<open>src/proxy.rs\<close>, the fetches: what one leader does for metadata and for artifacts, with the bodies it
  reads, the memory it reserves and the entries it publishes.  The network is a parameter: a function
  from requests to the response of the upstream or the text of an error, with the body as the sequence
  of chunks that \<^verbatim>\<open>chunk()\<close> yields.
\<close>

section \<open>Requests and responses\<close>

record upstream_request =
  ur_method :: string
  ur_url :: url
  ur_headers :: "(string \<times> string) list"
  ur_body :: "bytes option"

record upstream_response =
  up_status :: u16
  up_headers :: header_list
  up_content_length :: "u64 option"
  up_chunks :: "(string + bytes) list"

type_synonym network = "upstream_request \<Rightarrow> string + upstream_response"

definition get_request :: "url \<Rightarrow> upstream_request" where
  "get_request u = \<lparr>ur_method = ''GET'', ur_url = u, ur_headers = [], ur_body = None\<rparr>"

definition other_error :: "string \<Rightarrow> io_error" where
  "other_error msg = IoError Other msg"

definition send_request :: "network \<Rightarrow> upstream_request \<Rightarrow> upstream_response io_result" where
  "send_request net r = (case net r of Inl e \<Rightarrow> Inl (other_error e) | Inr resp \<Rightarrow> Inr resp)"

definition next_chunk :: "string + bytes \<Rightarrow> bytes io_result" where
  "next_chunk c = (case c of Inl e \<Rightarrow> Inl (other_error e) | Inr chunk \<Rightarrow> Inr chunk)"

section \<open>State\<close>

text \<open>
  \<open>env\<close> is the fixed part of \<^verbatim>\<open>AppInner\<close> together with the libraries the proxy calls; \<open>app\<close> is the part
  that changes.
\<close>

record env =
  env_url :: url_lib
  env_json :: json_lib
  env_utf8_message :: "bytes \<Rightarrow> string"
  env_codec :: meta_codec
  env_digest :: "bytes \<Rightarrow> string"
  env_http :: http_lib
  env_upstreams :: registry_origins
  env_public_base_url :: string

record app =
  app_store :: store
  app_stats :: stats_snapshot

definition on_store :: "(store, 'a) io \<Rightarrow> (app, 'a) io" where
  "on_store m = (\<lambda>a. case m (app_store a) of (r, s) \<Rightarrow> (r, a\<lparr>app_store := s\<rparr>))"

definition count_event :: "(stats_snapshot \<Rightarrow> stats_snapshot) \<Rightarrow> (app, unit) io" where
  "count_event f = (\<lambda>a. (Inr (), a\<lparr>app_stats := f (app_stats a)\<rparr>))"

text \<open>
  A function that owns a \<^verbatim>\<open>MetadataMemoryReservation\<close> runs on the pair of the state and the reservation; if
  it fails the reservation is dropped, and if it succeeds its owner takes it with the result.
\<close>

definition reserve_more :: "usize \<Rightarrow> (app \<times> reservation, unit) io" where
  "reserve_more n = (\<lambda>(a, r).
     case reserve n r (app_store a) of
       (Inr r', s) \<Rightarrow> (Inr (), (a\<lparr>app_store := s\<rparr>, r'))
     | (Inl e, s) \<Rightarrow> (Inl e, (a\<lparr>app_store := s\<rparr>, r)))"

definition on_app :: "(app, 'a) io \<Rightarrow> (app \<times> reservation, 'a) io" where
  "on_app m = (\<lambda>(a, r). case m a of (x, b) \<Rightarrow> (x, (b, r)))"

definition drop_reservation :: "reservation \<Rightarrow> app \<Rightarrow> app" where
  "drop_reservation r a = a\<lparr>app_store := release_reservation r (app_store a)\<rparr>"

definition with_reservation :: "(app \<times> reservation, 'a) io \<Rightarrow> (app, 'a \<times> reservation) io" where
  "with_reservation m = (\<lambda>a.
     case m (a, None) of
       (Inr x, (b, r)) \<Rightarrow> (Inr (x, r), b)
     | (Inl e, (b, r)) \<Rightarrow> (Inl e, drop_reservation r b))"

section \<open>Reading bodies\<close>

definition MAX_ERROR_BODY_LEN :: usize where "MAX_ERROR_BODY_LEN = 1048576"

definition limited_initial_capacity :: "u64 option \<Rightarrow> usize \<Rightarrow> string \<Rightarrow> usize io_result" where
  "limited_initial_capacity content_length max_len limit_error =
     (if (case content_length of None \<Rightarrow> False | Some n \<Rightarrow> n > max_len)
      then Inl (invalid_data limit_error)
      else Inr (min (case content_length of None \<Rightarrow> 0 | Some n \<Rightarrow> n) 65536))"

definition metadata_limit_error :: string where
  "metadata_limit_error = ''metadata body exceeds 128 MiB limit''"

definition metadata_initial_capacity :: "u64 option \<Rightarrow> usize io_result" where
  "metadata_initial_capacity content_length =
     limited_initial_capacity content_length MAX_METADATA_BODY_LEN metadata_limit_error"

text \<open>The loop over the chunks of \<^verbatim>\<open>read_metadata_body\<close>; \<open>body\<close> is what was read so far.\<close>

primrec read_metadata_chunks :: "(string + bytes) list \<Rightarrow> bytes \<Rightarrow> (app \<times> reservation, bytes) io" where
  "read_metadata_chunks [] body = io_return body"
| "read_metadata_chunks (c # cs) body =
     io_bind (io_lift (next_chunk c)) (\<lambda>chunk.
     if length chunk > unat MAX_METADATA_BODY_LEN - length body
     then io_fail (invalid_data metadata_limit_error)
     else
       io_bind (reserve_more (of_nat (length body + length chunk))) (\<lambda>_.
       read_metadata_chunks cs (body @ chunk)))"

definition read_metadata_body :: "upstream_response \<Rightarrow> (app \<times> reservation, bytes) io" where
  "read_metadata_body resp =
     io_bind (io_lift (limited_initial_capacity (up_content_length resp) MAX_METADATA_BODY_LEN metadata_limit_error))
       (\<lambda>initial_capacity.
     let expected_len = (case up_content_length resp of None \<Rightarrow> initial_capacity | Some n \<Rightarrow> n) in
     io_bind (reserve_more expected_len) (\<lambda>_.
     read_metadata_chunks (up_chunks resp) []))"

primrec read_limited_chunks :: "usize \<Rightarrow> string \<Rightarrow> (string + bytes) list \<Rightarrow> bytes \<Rightarrow> bytes io_result" where
  "read_limited_chunks max_len limit_error [] body = Inr body"
| "read_limited_chunks max_len limit_error (c # cs) body =
     (case next_chunk c of
        Inl e \<Rightarrow> Inl e
      | Inr chunk \<Rightarrow>
          if length chunk > unat max_len - length body then Inl (invalid_data limit_error)
          else read_limited_chunks max_len limit_error cs (body @ chunk))"

definition read_limited_body :: "upstream_response \<Rightarrow> usize \<Rightarrow> string \<Rightarrow> bytes io_result" where
  "read_limited_body resp max_len limit_error =
     (case limited_initial_capacity (up_content_length resp) max_len limit_error of
        Inl e \<Rightarrow> Inl e
      | Inr _ \<Rightarrow> read_limited_chunks max_len limit_error (up_chunks resp) [])"

section \<open>Metadata\<close>

text \<open>
  A panic of the page rewriter would unwind the task; it is an error here, and by \<open>rewrite_pypi_html_spec\<close> it
  cannot happen.
\<close>

definition panic_error :: io_error where
  "panic_error = IoError Other ''panicked''"

definition apply_rewrite :: "env \<Rightarrow> metadata_rewrite \<Rightarrow> bytes \<Rightarrow> bytes io_result" where
  "apply_rewrite E rewrite body =
     (case rewrite of
        RewriteNone \<Rightarrow> Inr body
      | Npm origin \<Rightarrow>
          (case rewrite_npm_json (env_json E) (env_url E) body (env_upstreams E) origin MAX_METADATA_BODY_LEN of
             Inl e \<Rightarrow> Inl (other_error e)
           | Inr b \<Rightarrow> Inr b)
      | Pypi origin \<Rightarrow>
          (case rewrite_pypi_html (env_url E) (env_utf8_message E) body (env_upstreams E) origin
                  MAX_METADATA_BODY_LEN of
             None \<Rightarrow> Inl panic_error
           | Some (Inl e) \<Rightarrow> Inl (other_error e)
           | Some (Inr b) \<Rightarrow> Inr b))"

text \<open>The end of \<^verbatim>\<open>finish_metadata\<close>: the limit, the metadata, and storing what can be revalidated.\<close>

definition conclude_metadata ::
  "env \<Rightarrow> metadata_rewrite \<Rightarrow> string \<Rightarrow> upstream_response \<Rightarrow> bytes
     \<Rightarrow> (app \<times> reservation, stored_response_meta \<times> bytes) io" where
  "conclude_metadata E rewrite key resp rewritten =
     (if length rewritten > unat MAX_METADATA_BODY_LEN
      then io_fail (invalid_data ''rewritten metadata body exceeds 128 MiB limit'')
      else
        (let meta = meta_for_bytes (env_http E) (up_status resp) (up_headers resp) (of_nat (length rewritten))
                      (rewrite = RewriteNone) in
         if up_status resp = 200 \<and> (meta_etag meta \<noteq> None \<or> meta_last_modified meta \<noteq> None)
         then io_bind (on_app (on_store (store_metadata (env_codec E) key rewritten meta)))
                (\<lambda>_. io_return (meta, rewritten))
         else io_return (meta, rewritten)))"

definition finish_metadata ::
  "env \<Rightarrow> metadata_rewrite \<Rightarrow> string \<Rightarrow> upstream_response
     \<Rightarrow> (app \<times> reservation, stored_response_meta \<times> bytes) io" where
  "finish_metadata E rewrite key resp =
     io_bind (read_metadata_body resp) (\<lambda>body.
     let n = of_nat (length body) in
     io_bind (reserve_more (working_set rewrite n (output_bound rewrite n))) (\<lambda>_.
     io_bind (io_lift (apply_rewrite E rewrite body)) (\<lambda>rewritten.
     conclude_metadata E rewrite key resp rewritten)))"

definition conditional_headers :: "stored_entry option \<Rightarrow> (string \<times> string) list" where
  "conditional_headers entry =
     (case entry of
        None \<Rightarrow> []
      | Some e \<Rightarrow>
          (case meta_etag (entry_meta e) of None \<Rightarrow> [] | Some v \<Rightarrow> [(''if-none-match'', v)]) @
          (case meta_last_modified (entry_meta e) of None \<Rightarrow> [] | Some v \<Rightarrow> [(''if-modified-since'', v)]))"

definition usable_entry :: "stored_entry option \<Rightarrow> stored_entry option" where
  "usable_entry entry =
     (case entry of
        None \<Rightarrow> None
      | Some e \<Rightarrow> if entry_body_len e > MAX_METADATA_BODY_LEN then None else Some e)"

text \<open>The answer to a conditional request that was not modified: the stored body under a reservation.\<close>

definition serve_stored :: "stored_entry \<Rightarrow> (app \<times> reservation, stored_response_meta \<times> bytes) io" where
  "serve_stored e =
     io_bind (reserve_more (entry_body_len e)) (\<lambda>_.
     io_bind (on_app (on_store (on_fs (read_body e)))) (\<lambda>body.
     io_return (entry_meta e, body)))"

definition do_metadata_fetch ::
  "env \<Rightarrow> network \<Rightarrow> url \<Rightarrow> string \<Rightarrow> metadata_rewrite \<Rightarrow> stored_entry option \<Rightarrow> string
     \<Rightarrow> (app, (stored_response_meta \<times> bytes) \<times> reservation) io" where
  "do_metadata_fetch E net upstream upstream_type rewrite entry0 key =
     (let entry = usable_entry entry0;
          request = (get_request upstream)\<lparr>ur_headers := conditional_headers entry\<rparr> in
      io_bind (count_event (record_metadata_fetch upstream_type)) (\<lambda>_.
      io_bind (io_lift (send_request net request)) (\<lambda>resp.
      with_reservation
        (case (up_status resp = 304, entry) of
           (True, Some e) \<Rightarrow> serve_stored e
         | _ \<Rightarrow> finish_metadata E rewrite key resp))))"

text \<open>
  \<^verbatim>\<open>run_metadata_fetch\<close> up to the outcome: the fetch with what was loaded.  The second part is the tail
  that ends the flight; the leader, and with it the upstream permit, is dropped at the end.
\<close>

definition metadata_fetch_phase ::
  "env \<Rightarrow> network \<Rightarrow> url \<Rightarrow> string \<Rightarrow> metadata_rewrite \<Rightarrow> metadata_leader
     \<Rightarrow> (app, (stored_response_meta \<times> bytes) \<times> reservation) io" where
  "metadata_fetch_phase E net upstream upstream_type rewrite leader =
     io_bind (on_store (load (env_codec E) (ml_key leader))) (\<lambda>entry.
     do_metadata_fetch E net upstream upstream_type rewrite entry (ml_key leader))"

definition metadata_outcome :: "((stored_response_meta \<times> bytes) \<times> reservation) io_result \<Rightarrow> inflight_outcome" where
  "metadata_outcome r =
     (case r of
        Inr ((meta, body), _) \<Rightarrow> Response meta body
      | Inl e \<Rightarrow> Failed (kind e) (message e))"

definition metadata_reply ::
  "env \<Rightarrow> ((stored_response_meta \<times> bytes) \<times> reservation) io_result \<Rightarrow> response io_result" where
  "metadata_reply E r =
     (case r of
        Inr ((meta, body), _) \<Rightarrow> Inr (bytes_response (env_http E) meta body)
      | Inl e \<Rightarrow> Inl e)"

definition on_app_store :: "(store \<Rightarrow> store) \<Rightarrow> app \<Rightarrow> app" where
  "on_app_store f a = a\<lparr>app_store := f (app_store a)\<rparr>"

definition run_metadata_fetch ::
  "env \<Rightarrow> network \<Rightarrow> url \<Rightarrow> string \<Rightarrow> metadata_rewrite \<Rightarrow> metadata_leader \<Rightarrow> app
     \<Rightarrow> (response io_result \<times> reservation) \<times> app" where
  "run_metadata_fetch E net upstream upstream_type rewrite leader a =
     (case metadata_fetch_phase E net upstream upstream_type rewrite leader a of
        (r, b) \<Rightarrow>
          ((metadata_reply E r, case r of Inr (_, res) \<Rightarrow> res | Inl _ \<Rightarrow> None),
           on_app_store (release_upstream_permit \<circ> finish_inflight (ml_key leader)
             \<circ> (\<lambda>s. snd (complete (ml_inflight leader) (metadata_outcome r) s))) b))"

text \<open>What a request that joined a flight answers when it has the outcome.\<close>

definition serve_metadata_outcome :: "env \<Rightarrow> inflight_outcome \<Rightarrow> response io_result" where
  "serve_metadata_outcome E outcome =
     (case outcome of
        Response meta body \<Rightarrow> Inr (bytes_response (env_http E) meta body)
      | Failed k msg \<Rightarrow> Inr (simple_response (error_status k) ''text/plain; charset=utf-8'' msg)
      | Cached _ \<Rightarrow> Inl (invalid_data ''metadata inflight produced artifact''))"

definition handle_npm_request :: "env \<Rightarrow> network \<Rightarrow> upstream_request \<Rightarrow> (app, response \<times> reservation) io" where
  "handle_npm_request E net request =
     io_bind (io_lift (send_request net request)) (\<lambda>resp.
     with_reservation
       (io_bind (read_metadata_body resp) (\<lambda>body.
        io_return
          (bytes_response (env_http E)
             (meta_for_bytes (env_http E) (up_status resp) (up_headers resp) (of_nat (length body)) True) body))))"

section \<open>Artifacts\<close>

definition handle_artifact_head :: "env \<Rightarrow> network \<Rightarrow> url \<Rightarrow> (app, response) io" where
  "handle_artifact_head E net upstream =
     (let key = artifact_key (env_digest E) (lib_as_str (env_url E) upstream) in
      io_bind (on_store (load (env_codec E) key)) (\<lambda>hit.
      case hit of
        Some entry \<Rightarrow> io_return (empty_response_from_meta (env_http E) (entry_meta entry))
      | None \<Rightarrow>
          io_bind (on_store try_acquire_upstream_permit) (\<lambda>_.
          io_try (io_lift (send_request net ((get_request upstream)\<lparr>ur_method := ''HEAD''\<rparr>))) (\<lambda>r a.
          (case r of
             Inl e \<Rightarrow> Inl e
           | Inr resp \<Rightarrow>
               Inr (empty_response_from_meta (env_http E)
                      (meta_from_upstream (env_http E) (up_status resp) (up_headers resp) None)),
           on_app_store release_upstream_permit a)))))"

datatype fetch_outcome = FetchCached published_entry | FetchNonOk stored_response_meta bytes

type_synonym ('s, 'a) staged = "'s \<Rightarrow> ((string \<times> string) + 'a) \<times> 's"

text \<open>An operation whose error is labelled with the stage it happened in.\<close>

definition stage :: "string \<Rightarrow> ('s, 'a) io \<Rightarrow> ('a \<Rightarrow> ('s, 'b) staged) \<Rightarrow> ('s, 'b) staged" where
  "stage name m k = (\<lambda>s. case m s of (Inl e, t) \<Rightarrow> (Inl (name, message e), t) | (Inr x, t) \<Rightarrow> k x t)"

definition on_files :: "(fs, 'a) io \<Rightarrow> (app, 'a) io" where
  "on_files m = on_store (on_fs m)"

primrec download :: "nat \<Rightarrow> (string + bytes) list \<Rightarrow> usize \<Rightarrow> (app, usize) staged" where
  "download file [] content_length = (\<lambda>a. (Inr content_length, a))"
| "download file (c # cs) content_length =
     stage ''read_upstream_stream'' (io_lift (next_chunk c)) (\<lambda>chunk.
     stage ''write_temp_file'' (on_files (write_all file chunk)) (\<lambda>_.
     download file cs (content_length + of_nat (length chunk))))"

definition staged_bind :: "('s, 'a) staged \<Rightarrow> ('a \<Rightarrow> ('s, 'b) staged) \<Rightarrow> ('s, 'b) staged" where
  "staged_bind m k = (\<lambda>s. case m s of (Inl e, t) \<Rightarrow> (Inl e, t) | (Inr x, t) \<Rightarrow> k x t)"

definition do_artifact_fetch ::
  "env \<Rightarrow> network \<Rightarrow> url \<Rightarrow> string \<Rightarrow> artifact_leader \<Rightarrow> (app, fetch_outcome) staged" where
  "do_artifact_fetch E net upstream upstream_type leader =
     (let temp = paths_temp (al_paths leader) in
      stage [] (count_event (record_artifact_fetch upstream_type)) (\<lambda>_.
      stage ''fetch_upstream'' (io_lift (send_request net (get_request upstream))) (\<lambda>resp.
      if up_status resp \<noteq> 200
      then
        stage ''read_error_response''
          (io_lift (read_limited_body resp MAX_ERROR_BODY_LEN ''upstream error body exceeds 1 MiB limit'')) (\<lambda>body a.
        (Inr (FetchNonOk (meta_for_bytes (env_http E) (up_status resp) (up_headers resp) (of_nat (length body)) True) body), a))
      else
        stage ''create_temp_file'' (on_files (create_file temp)) (\<lambda>file.
        staged_bind (download file (up_chunks resp) 0) (\<lambda>content_length.
        stage ''flush_temp_file'' (on_files (flush_file file)) (\<lambda>_.
        stage ''commit_cache_entry''
          (on_store (commit_artifact (env_codec E) (al_key leader)
             (meta_from_upstream (env_http E) (up_status resp) (up_headers resp) (Some content_length)) temp)) (\<lambda>published a.
        (Inr (FetchCached published), a))))))))"

text \<open>\<^verbatim>\<open>run_artifact_fetch\<close>: the fetch with the removal of a failed download, the outcome, and the tail.\<close>

definition artifact_fetch_phase ::
  "env \<Rightarrow> network \<Rightarrow> url \<Rightarrow> string \<Rightarrow> artifact_leader \<Rightarrow> (app, fetch_outcome) staged" where
  "artifact_fetch_phase E net upstream upstream_type leader a =
     (case do_artifact_fetch E net upstream upstream_type leader a of
        (Inr x, b) \<Rightarrow> (Inr x, b)
      | (Inl e, b) \<Rightarrow> (Inl e, snd (on_files (remove_file (paths_temp (al_paths leader))) b)))"

definition artifact_outcome :: "(string \<times> string) + fetch_outcome \<Rightarrow> inflight_outcome" where
  "artifact_outcome r =
     (case r of
        Inr (FetchCached p) \<Rightarrow> Cached p
      | Inr (FetchNonOk meta body) \<Rightarrow> Response meta body
      | Inl (_, msg) \<Rightarrow> Failed Other msg)"

definition run_artifact_fetch ::
  "env \<Rightarrow> network \<Rightarrow> url \<Rightarrow> string \<Rightarrow> artifact_leader \<Rightarrow> app \<Rightarrow> app" where
  "run_artifact_fetch E net upstream upstream_type leader a =
     (case artifact_fetch_phase E net upstream upstream_type leader a of
        (r, b) \<Rightarrow>
          on_app_store (release_upstream_permit \<circ> finish_inflight (al_key leader)
            \<circ> (\<lambda>s. snd (complete (al_inflight leader) (artifact_outcome r) s))) b)"

definition serve_outcome :: "env \<Rightarrow> string \<Rightarrow> inflight_outcome \<Rightarrow> (app, response) io" where
  "serve_outcome E key outcome =
     (case outcome of
        Cached _ \<Rightarrow>
          io_bind (on_store (load (env_codec E) key)) (\<lambda>hit.
          case hit of
            None \<Rightarrow> io_fail (IoError NotFound ''artifact missing after inflight completion'')
          | Some entry \<Rightarrow> on_files (file_response (env_http E) entry))
      | Response meta body \<Rightarrow> io_return (bytes_response (env_http E) meta body)
      | Failed k msg \<Rightarrow> io_return (simple_response (error_status k) ''text/plain; charset=utf-8'' msg))"

section \<open>Cancelled fetches\<close>

text \<open>What the guards of a cancelled leader spawn.\<close>

definition artifact_cleanup :: "artifact_leader \<Rightarrow> app \<Rightarrow> app" where
  "artifact_cleanup leader a =
     on_app_store (finish_inflight (al_key leader)
       \<circ> (\<lambda>s. snd (fail_inflight (al_inflight leader) Interrupted ''artifact fetch cancelled'' s)))
       (snd (on_files (remove_file (paths_temp (al_paths leader))) a))"

definition metadata_cleanup :: "metadata_leader \<Rightarrow> app \<Rightarrow> app" where
  "metadata_cleanup leader =
     on_app_store (finish_inflight (ml_key leader)
       \<circ> (\<lambda>s. snd (fail_inflight (ml_inflight leader) Interrupted ''metadata fetch cancelled'' s)))"

section \<open>Lemmas\<close>

lemma on_store_apply [io_simps]: "on_store m a = (fst (m (app_store a)), a\<lparr>app_store := snd (m (app_store a))\<rparr>)"
  by (simp add: on_store_def split: prod.split)

lemma on_app_apply [io_simps]: "on_app m (a, r) = (fst (m a), (snd (m a), r))"
  by (simp add: on_app_def split: prod.split)

lemma still_on_store [intro]: "still f m \<Longrightarrow> still (\<lambda>a. f (app_store a)) (on_store m)"
  by (simp add: still_def io_simps)

lemma still_on_app [intro]: "still f m \<Longrightarrow> still (\<lambda>p. f (fst p)) (on_app m)"
  by (auto simp: still_def io_simps)

subsection \<open>Memory\<close>

text \<open>The permits a task can count on: those of the semaphore and those it holds.\<close>

definition memory :: "app \<Rightarrow> nat" where
  "memory a = st_memory_permits (app_store a)"

lemma memory_stats [simp]: "memory (a\<lparr>app_stats := x\<rparr>) = memory a"
  by (simp add: memory_def)

definition budget :: "app \<times> reservation \<Rightarrow> nat" where
  "budget p = memory (fst p) + held (snd p)"

lemma still_budget_reserve [intro, simp]: "still budget (reserve_more n)"
proof (rule stillI)
  fix p :: "app \<times> reservation"
  obtain a r where p: "p = (a, r)"
    by force
  obtain x s where x: "reserve n r (app_store a) = (x, s)"
    by force
  show "budget (snd (reserve_more n p)) = budget p"
    using reserve_Inr(2) [of n r "app_store a"] reserve_Inl(1) [of n r "app_store a"] x
    by (cases x) (auto simp: p reserve_more_def budget_def memory_def)
qed

lemma still_memory_on_store: "still tables m \<Longrightarrow> still memory (on_store m)"
  by (simp add: still_def io_simps memory_def tables_def)

lemma still_budget_on_app: "still memory m \<Longrightarrow> still budget (on_app m)"
  by (auto simp: still_def io_simps budget_def)

lemmas still_budget_stored = still_budget_on_app [OF still_memory_on_store]

lemma reserve_more_covers:
  assumes "reserve_more n p = (Inr (), q)"
  shows "unat n \<le> held (snd q) * unat MIB" and "snd q \<noteq> None"
proof -
  obtain s where s: "reserve n (snd p) (app_store (fst p)) = (Inr (snd q), s)"
    using assms by (auto simp: reserve_more_def split: prod.splits sum.splits)
  have le: "mib_needed n \<le> held (snd q)"
    using reserve_Inr(1) [OF s] .
  then show "unat n \<le> held (snd q) * unat MIB"
    using div_ceil_MIB_covers [of n] by (meson le_trans mult_le_mono1)
  have "0 < mib_needed n"
    by (simp add: mib_needed_def unat_word_max)
  then show "snd q \<noteq> None"
    using le by (auto simp: held_def split: option.splits)
qed

lemma reserve_more_mono: "reserve_more n p = (r, q) \<Longrightarrow> held (snd p) \<le> held (snd q)"
  by (auto simp: reserve_more_def reserve_unfold held_def [of "Some _"] split: prod.splits if_splits)

lemma still_budget_chunks: "still budget (read_metadata_chunks cs body)"
proof (induction cs arbitrary: body)
  case (Cons c cs)
  then show ?case
    unfolding read_metadata_chunks.simps by (intro still_bind still_lift) (auto intro!: still_bind)
qed simp

lemma still_budget_body [intro, simp]: "still budget (read_metadata_body resp)"
  unfolding read_metadata_body_def Let_def by (intro still_bind still_lift still_budget_reserve still_budget_chunks)

lemma still_budget_finish [intro, simp]: "still budget (finish_metadata E rw key resp)"
  unfolding finish_metadata_def conclude_metadata_def Let_def
  by (intro still_bind still_lift still_budget_reserve still_budget_body)
    (auto intro!: still_bind still_budget_stored)

lemma still_budget_serve_stored [intro, simp]: "still budget (serve_stored e)"
  unfolding serve_stored_def by (intro still_bind still_budget_reserve still_budget_stored still_return still_on_fs)

lemma with_reservation_memory:
  assumes "still budget m" and "with_reservation m a = (r, b)"
  shows "case r of Inr (_, res) \<Rightarrow> memory b + held res = memory a | Inl _ \<Rightarrow> memory b = memory a"
proof -
  obtain x c q where m: "m (a, None) = (x, (c, q))"
    by (metis prod.collapse)
  have "budget (c, q) = budget (a, None)"
    using stillD [OF assms(1) m] .
  then show ?thesis
    using assms(2) m
    by (auto simp: with_reservation_def budget_def held_def drop_reservation_def release_reservation_def memory_def
        split: sum.splits)
qed

subsection \<open>Bodies\<close>

text \<open>What a body is: the chunks, none of which is an error, one after the other.\<close>

definition body_is :: "bytes \<Rightarrow> (string + bytes) list \<Rightarrow> bool" where
  "body_is b cs \<longleftrightarrow> list_all (\<lambda>c. \<not> isl c) cs \<and> b = concat (map projr cs)"

lemma unat_MAX [simp]: "unat MAX_METADATA_BODY_LEN = 134217728"
  by (simp add: MAX_METADATA_BODY_LEN_def)

lemma unat_of_nat_small: "n < 2 ^ 64 \<Longrightarrow> unat (of_nat n :: usize) = n"
  by (simp add: unat_of_nat)

lemma read_metadata_chunks_Inr:
  assumes "read_metadata_chunks cs body p = (Inr b, q)" and "length body \<le> 134217728"
    and "length body \<le> held (snd p) * unat MIB"
  shows "\<exists>rest. body_is rest cs \<and> b = body @ rest \<and> length b \<le> 134217728 \<and> length b \<le> held (snd q) * unat MIB
    \<and> held (snd p) \<le> held (snd q) \<and> (snd p \<noteq> None \<longrightarrow> snd q \<noteq> None)"
  using assms
proof (induction cs arbitrary: body p)
  case Nil
  then show ?case
    by (auto simp: body_is_def io_simps)
next
  case (Cons c cs)
  obtain chunk where c: "c = Inr chunk"
    using Cons.prems(1) by (cases c) (auto simp: next_chunk_def io_bind_def io_simps)
  have le: "\<not> length chunk > 134217728 - length body"
    using Cons.prems(1) by (auto simp: c next_chunk_def io_bind_def io_simps)
  then obtain p' where res: "reserve_more (of_nat (length body + length chunk)) p = (Inr (), p')"
    and run: "read_metadata_chunks cs (body @ chunk) p' = (Inr b, q)"
    using Cons.prems(1) by (auto simp: c next_chunk_def io_simps io_bind_def [of "io_lift _"] elim!: io_bind_InrE)
  have n: "unat (of_nat (length body + length chunk) :: usize) = length (body @ chunk)"
    using le Cons.prems(2) by (simp add: unat_of_nat_small del: of_nat_add)
  have "length (body @ chunk) \<le> 134217728"
    using le Cons.prems(2) by simp
  moreover have "length (body @ chunk) \<le> held (snd p') * unat MIB"
    using reserve_more_covers(1) [OF res] n by simp
  ultimately obtain rest where "body_is rest cs" "b = (body @ chunk) @ rest" "length b \<le> 134217728"
    "length b \<le> held (snd q) * unat MIB" "held (snd p') \<le> held (snd q)" "snd q \<noteq> None"
    using Cons.IH [OF run] reserve_more_covers(2) [OF res] by blast
  then show ?case
    using reserve_more_mono [OF res] by (intro exI [of _ "chunk @ rest"]) (auto simp: body_is_def c)
qed

lemma read_metadata_body_Inr:
  assumes "read_metadata_body resp p = (Inr b, q)"
  shows "body_is b (up_chunks resp)" and "length b \<le> 134217728" and "length b \<le> held (snd q) * unat MIB"
    and "snd q \<noteq> None"
proof -
  obtain n p' where "reserve_more n p = (Inr (), p')" "read_metadata_chunks (up_chunks resp) [] p' = (Inr b, q)"
    using assms by (auto simp: read_metadata_body_def io_simps Let_def elim!: io_bind_InrE)
  with read_metadata_chunks_Inr [of "up_chunks resp" "[]" p' b q] reserve_more_covers(2) [of n p p']
  show "body_is b (up_chunks resp)" "length b \<le> 134217728" "length b \<le> held (snd q) * unat MIB" "snd q \<noteq> None"
    by auto
qed

subsection \<open>Metadata fetches\<close>

lemma with_reservation_Inr:
  "with_reservation m a = (Inr (x, res), b) \<longleftrightarrow> m (a, None) = (Inr x, (b, res))"
  by (auto simp: with_reservation_def split: prod.splits sum.splits)

lemma finish_metadata_Inr:
  assumes "finish_metadata E rw key resp p = (Inr (meta, body), q)"
  obtains raw p1 p2 where "read_metadata_body resp p = (Inr raw, p1)"
    and "reserve_more (working_set rw (of_nat (length raw)) (output_bound rw (of_nat (length raw)))) p1 = (Inr (), p2)"
    and "apply_rewrite E rw raw = Inr body" and "length body \<le> 134217728"
    and "meta = meta_for_bytes (env_http E) (up_status resp) (up_headers resp) (of_nat (length body)) (rw = RewriteNone)"
    and "if up_status resp = 200 \<and> (meta_etag meta \<noteq> None \<or> meta_last_modified meta \<noteq> None)
      then on_app (on_store (store_metadata (env_codec E) key body meta)) p2 = (Inr (), q) else q = p2"
proof -
  obtain raw p1 p2 body' where raw: "read_metadata_body resp p = (Inr raw, p1)"
    and res: "reserve_more (working_set rw (of_nat (length raw)) (output_bound rw (of_nat (length raw)))) p1 = (Inr (), p2)"
    and rw: "apply_rewrite E rw raw = Inr body'" and fin: "conclude_metadata E rw key resp body' p2 = (Inr (meta, body), q)"
    using assms unfolding finish_metadata_def Let_def by (auto simp: io_simps elim!: io_bind_InrE)
  have "body' = body" "length body \<le> 134217728"
    "meta = meta_for_bytes (env_http E) (up_status resp) (up_headers resp) (of_nat (length body)) (rw = RewriteNone)"
    "if up_status resp = 200 \<and> (meta_etag meta \<noteq> None \<or> meta_last_modified meta \<noteq> None)
      then on_app (on_store (store_metadata (env_codec E) key body meta)) p2 = (Inr (), q) else q = p2"
    using fin unfolding conclude_metadata_def Let_def
    by (auto simp: io_simps split: if_splits elim!: io_bind_InrE)
  with raw res rw show thesis
    by (intro that) auto
qed

lemma finish_metadata_covers:
  assumes "finish_metadata E rw key resp p = (Inr (meta, body), q)"
  shows "snd q \<noteq> None" and "length body \<le> 134217728"
    and "rw = RewriteNone \<Longrightarrow> length body \<le> held (snd q) * unat MIB"
proof -
  obtain raw p1 p2 where raw: "read_metadata_body resp p = (Inr raw, p1)"
    and res: "reserve_more (working_set rw (of_nat (length raw)) (output_bound rw (of_nat (length raw)))) p1 = (Inr (), p2)"
    and rw: "apply_rewrite E rw raw = Inr body" and len: "length body \<le> 134217728"
    and fin: "if up_status resp = 200 \<and> (meta_etag meta \<noteq> None \<or> meta_last_modified meta \<noteq> None)
      then on_app (on_store (store_metadata (env_codec E) key body meta)) p2 = (Inr (), q) else q = p2"
    using assms by (rule finish_metadata_Inr)
  have q: "snd q = snd p2"
    using fin by (cases p2) (auto simp: on_app_def split: if_splits prod.splits)
  then show "snd q \<noteq> None"
    using reserve_more_covers(2) [OF res] by simp
  show "length body \<le> 134217728"
    by (rule len)
  assume "rw = RewriteNone"
  then have "length body \<le> held (snd p1) * unat MIB"
    using read_metadata_body_Inr(3) [OF raw] rw by (simp add: apply_rewrite_def)
  then show "length body \<le> held (snd q) * unat MIB"
    using reserve_more_mono [OF res] q by (metis le_trans mult_le_mono1)
qed

lemma serve_stored_Inr:
  assumes "serve_stored e p = (Inr (meta, body), q)"
  shows "meta = entry_meta e" and "length body = unat (entry_body_len e)" and "snd q \<noteq> None"
    and "length body \<le> held (snd q) * unat MIB"
proof -
  obtain p1 where res: "reserve_more (entry_body_len e) p = (Inr (), p1)"
    and read: "on_app (on_store (on_fs (read_body e))) p1 = (Inr body, q)" and meta: "meta = entry_meta e"
    using assms by (auto simp: serve_stored_def io_simps elim!: io_bind_InrE)
  have q: "snd q = snd p1"
    using read by (cases p1) (auto simp: on_app_def split: prod.splits)
  have "fst (read_body e (st_fs (app_store (fst p1)))) = Inr body"
    using read by (cases p1) (auto simp: io_simps)
  then show "length body = unat (entry_body_len e)"
    by (auto simp: read_body_def read_exact_at_def fs_op_def Let_def split: if_splits prod.splits option.splits)
  then show "meta = entry_meta e" "snd q \<noteq> None" "length body \<le> held (snd q) * unat MIB"
    using meta q reserve_more_covers [OF res] by auto
qed

lemma memory_count_event [simp]: "count_event f a = (Inr (), b) \<Longrightarrow> memory b = memory a"
  by (auto simp: count_event_def memory_def)

lemma do_metadata_fetch_cases:
  assumes "do_metadata_fetch E net u ty rw entry0 key a = (r, b)"
  obtains (failed) e where "r = Inl e" and "b = a\<lparr>app_stats := record_metadata_fetch ty (app_stats a)\<rparr>"
  | (answered) resp m where "net ((get_request u)\<lparr>ur_headers := conditional_headers (usable_entry entry0)\<rparr>) = Inr resp"
    and "with_reservation m (a\<lparr>app_stats := record_metadata_fetch ty (app_stats a)\<rparr>) = (r, b)"
    and "(\<exists>e. up_status resp = 304 \<and> usable_entry entry0 = Some e \<and> m = serve_stored e)
      \<or> \<not> (up_status resp = 304 \<and> usable_entry entry0 \<noteq> None) \<and> m = finish_metadata E rw key resp"
proof (cases "net ((get_request u)\<lparr>ur_headers := conditional_headers (usable_entry entry0)\<rparr>)")
  case (Inl e)
  then show ?thesis
    using assms failed
    by (auto simp: do_metadata_fetch_def Let_def io_bind_def io_simps count_event_def send_request_def)
next
  case (Inr resp)
  let ?m = "case (up_status resp = 304, usable_entry entry0) of
      (True, Some e) \<Rightarrow> serve_stored e | _ \<Rightarrow> finish_metadata E rw key resp"
  have "with_reservation ?m (a\<lparr>app_stats := record_metadata_fetch ty (app_stats a)\<rparr>) = (r, b)"
    using assms Inr
    by (simp add: do_metadata_fetch_def Let_def io_bind_def io_simps count_event_def send_request_def)
  then show ?thesis
    by (rule answered [OF Inr]) (cases "up_status resp = 304"; cases "usable_entry entry0"; simp)
qed

lemma do_metadata_fetch_memory:
  assumes "do_metadata_fetch E net u ty rw entry0 key a = (r, b)"
  shows "case r of
      Inl _ \<Rightarrow> memory b = memory a
    | Inr ((meta, body), res) \<Rightarrow>
        memory b + held res = memory a \<and> res \<noteq> None \<and> length body \<le> 134217728
        \<and> (rw = RewriteNone \<longrightarrow> length body \<le> held res * unat MIB)"
  using assms
proof (cases rule: do_metadata_fetch_cases)
  case (failed e)
  then show ?thesis
    by simp
next
  case (answered resp m)
  have budget: "still budget m"
    using answered(3) by auto
  have acc: "case r of Inr (_, res) \<Rightarrow> memory b + held res = memory a | Inl _ \<Rightarrow> memory b = memory a"
    using with_reservation_memory [OF budget answered(2)] unfolding memory_stats .
  have "res \<noteq> None \<and> length body \<le> 134217728 \<and> (rw = RewriteNone \<longrightarrow> length body \<le> held res * unat MIB)"
    if "r = Inr ((meta, body), res)" for meta body res
  proof -
    note run = answered(2) [unfolded that with_reservation_Inr]
    show ?thesis
      using answered(3)
    proof (elim disjE exE conjE)
      fix e assume e: "usable_entry entry0 = Some e" and m: "m = serve_stored e"
      have "unat (entry_body_len e) \<le> 134217728"
        using e by (auto simp: usable_entry_def word_less_nat_alt split: option.splits if_splits)
      then show ?thesis
        using serve_stored_Inr [OF run [unfolded m]] by simp
    next
      assume m: "m = finish_metadata E rw key resp"
      show ?thesis
        using finish_metadata_covers [OF run [unfolded m]] by simp
    qed
  qed
  then show ?thesis
    using acc by (cases r) auto
qed

lemma metadata_phase_memory:
  assumes "metadata_fetch_phase E net u ty rw leader a = (r, b)"
  shows "case r of
      Inl _ \<Rightarrow> memory b = memory a
    | Inr ((meta, body), res) \<Rightarrow>
        memory b + held res = memory a \<and> res \<noteq> None \<and> length body \<le> 134217728
        \<and> (rw = RewriteNone \<longrightarrow> length body \<le> held res * unat MIB)"
proof -
  obtain x a' where load: "on_store (load (env_codec E) (ml_key leader)) a = (x, a')"
    by force
  have mem: "memory a' = memory a"
    using stillD [OF still_memory_on_store [OF still_load] load] .
  show ?thesis
  proof (cases x)
    case (Inl e)
    then show ?thesis
      using assms load mem by (auto simp: metadata_fetch_phase_def io_bind_def)
  next
    case (Inr entry0)
    then have "do_metadata_fetch E net u ty rw entry0 (ml_key leader) a' = (r, b)"
      using assms load by (simp add: metadata_fetch_phase_def io_bind_def)
    then show ?thesis
      using do_metadata_fetch_memory unfolding mem [symmetric] by blast
  qed
qed

subsection \<open>Revalidation\<close>

lemma reserve_more_enough:
  assumes "mib_needed n \<le> held r + st_memory_permits (app_store a)" and "st_memory_permits (app_store a) < 2 ^ 32"
  obtains s r' where "reserve_more n (a, r) = (Inr (), (a\<lparr>app_store := s\<rparr>, r'))" and "st_fs s = st_fs (app_store a)"
proof -
  obtain x s where x: "reserve n r (app_store a) = (x, s)"
    by force
  show thesis
  proof (cases x)
    case (Inl e)
    then show ?thesis
      using reserve_Inl(3) [OF x [unfolded Inl]] assms by auto
  next
    case (Inr r')
    have "st_fs s = st_fs (app_store a)"
      using x Inr by (auto simp: reserve_unfold split: if_splits)
    with x Inr show ?thesis
      by (intro that [of s r']) (simp_all add: reserve_more_def)
  qed
qed

lemma serve_stored_run:
  assumes "mib_needed (entry_body_len e) \<le> memory a" and "memory a < 2 ^ 32"
    and "read_body e (st_fs (app_store a)) = (Inr body, st_fs (app_store a))"
  shows "\<exists>res c. with_reservation (serve_stored e) a = (Inr ((entry_meta e, body), res), c)"
proof -
  obtain s r' where "reserve_more (entry_body_len e) (a, None) = (Inr (), (a\<lparr>app_store := s\<rparr>, r'))"
    and "st_fs s = st_fs (app_store a)"
    using reserve_more_enough [of "entry_body_len e" None a] assms(1,2) by (auto simp: held_def memory_def)
  then show ?thesis
    using assms(3) by (simp add: with_reservation_Inr serve_stored_def io_bind_def io_simps)
qed

lemma finish_metadata_stores:
  assumes "finish_metadata E rw key resp (a, None) = (Inr (meta, body), (b, res))"
    and "up_status resp = 200" and "meta_etag meta \<noteq> None \<or> meta_last_modified meta \<noteq> None"
  obtains s where "st_fs s = st_fs (app_store a)" and "st_max_cache_size s = st_max_cache_size (app_store a)"
    and "st_temp_counter s = st_temp_counter (app_store a)"
    and "store_metadata (env_codec E) key body meta s = (Inr (), app_store b)" and "length body \<le> 134217728"
proof -
  define same where "same p \<longleftrightarrow> st_fs (app_store (fst p)) = st_fs (app_store a)
      \<and> st_max_cache_size (app_store (fst p)) = st_max_cache_size (app_store a)
      \<and> st_temp_counter (app_store (fst p)) = st_temp_counter (app_store a)" for p :: "app \<times> reservation"
  have reserve: "keeps same (reserve_more n)" for n
    by (rule keepsI) (auto simp: same_def reserve_more_def reserve_unfold split: prod.split)
  have chunks: "keeps same (read_metadata_chunks cs bs)" for cs bs
    by (induction cs arbitrary: bs) (auto intro!: keeps_bind reserve)
  have read: "keeps same (read_metadata_body resp)"
    unfolding read_metadata_body_def Let_def by (intro keeps_bind keeps_lift reserve chunks)
  obtain raw p1 p2 where raw: "read_metadata_body resp (a, None) = (Inr raw, p1)"
    and res: "reserve_more (working_set rw (of_nat (length raw)) (output_bound rw (of_nat (length raw)))) p1 = (Inr (), p2)"
    and len: "length body \<le> 134217728"
    and fin: "if up_status resp = 200 \<and> (meta_etag meta \<noteq> None \<or> meta_last_modified meta \<noteq> None)
      then on_app (on_store (store_metadata (env_codec E) key body meta)) p2 = (Inr (), (b, res)) else (b, res) = p2"
    using assms(1) by (rule finish_metadata_Inr)
  have "same p1"
    using keepsD [OF read, of "(a, None)"] raw by (simp add: same_def)
  then have p2: "same p2"
    using keepsD [OF reserve] res by (metis snd_conv)
  have "on_app (on_store (store_metadata (env_codec E) key body meta)) p2 = (Inr (), (b, res))"
    using fin assms(2,3) by simp
  then have "store_metadata (env_codec E) key body meta (app_store (fst p2)) = (Inr (), app_store b)"
    by (cases p2) (auto simp: io_simps prod_eq_iff)
  with p2 len show thesis
    by (intro that [of "app_store (fst p2)"]) (auto simp: same_def)
qed

text \<open>
  C38: Revalidation gives back what was served.  After a fetch that the upstream answered with status 200
  and a validator, a later fetch of the same key that the upstream answers with 304 returns the same
  metadata and the same (rewritten) body, read from the cache, when no file operation fails, the entry
  fits in the cache and there is memory for it.
\<close>

theorem revalidation_roundtrip:
  assumes "do_metadata_fetch E net u ty rw entry0 key a = (Inr ((meta, body), res), b)"
    and "net ((get_request u)\<lparr>ur_headers := conditional_headers (usable_entry entry0)\<rparr>) = Inr resp"
    and "up_status resp = 200" and "meta_etag meta \<noteq> None \<or> meta_last_modified meta \<noteq> None"
    and "wf_fs (st_fs (app_store a))" and "fs_faults (st_fs (app_store a)) = []" and "key_ok key"
    and "pack_footer (env_codec E) body meta = Inr packed" and "codec_round_trip (env_codec E) meta"
    and "length packed < 2 ^ 64"
    and "view (st_fs (app_store a)) (shard_path key) = Some Dir
      \<or> view (st_fs (app_store a)) (shard_path key) = None \<and> (\<forall>name. view (st_fs (app_store a)) [take 2 key, name] = None)"
    and "view (st_fs (app_store a)) (body_path key) \<noteq> Some Dir"
    and "view (st_fs (app_store a)) (metadata_temp_path (app_store a) key) \<noteq> Some Dir"
    and "total_size (entries_of (st_fs (app_store a))) + length packed \<le> unat (st_max_cache_size (app_store a))"
    and "mib_needed (of_nat (length body)) \<le> memory a" and "memory a < 2 ^ 32"
    and "net' ((get_request u)\<lparr>ur_headers :=
        (case meta_etag meta of None \<Rightarrow> [] | Some v \<Rightarrow> [(''if-none-match'', v)]) @
        (case meta_last_modified meta of None \<Rightarrow> [] | Some v \<Rightarrow> [(''if-modified-since'', v)])\<rparr>) = Inr resp'"
    and "up_status resp' = 304"
  shows "\<exists>res' c. metadata_fetch_phase E net' u ty rw \<lparr>ml_inflight = i, ml_key = key\<rparr> (drop_reservation res b)
    = (Inr ((meta, body), res'), c)"
proof -
  let ?a = "a\<lparr>app_stats := record_metadata_fetch ty (app_stats a)\<rparr>"
  let ?b = "drop_reservation res b"
  have run: "with_reservation (finish_metadata E rw key resp) ?a = (Inr ((meta, body), res), b)"
    using assms(1) by (cases rule: do_metadata_fetch_cases) (use assms(2,3) in auto)
  have mem: "memory ?b = memory a"
    using with_reservation_memory [OF still_budget_finish run]
    by (simp add: drop_reservation_def release_reservation_def memory_def)
  obtain s where s: "st_fs s = st_fs (app_store a)" "st_max_cache_size s = st_max_cache_size (app_store a)"
      "st_temp_counter s = st_temp_counter (app_store a)"
    and store: "store_metadata (env_codec E) key body meta s = (Inr (), app_store b)" and len: "length body \<le> 134217728"
    using finish_metadata_stores [OF run [unfolded with_reservation_Inr] assms(3,4)] by auto
  obtain t where "store_metadata (env_codec E) key body meta s = (Inr (), t)" and t: "fs_faults (st_fs t) = []"
    "view (st_fs t) (body_path key) = Some (File packed)"
    using store_metadata_run [of s key "env_codec E" body meta packed] assms(5-8,10-14) by (auto simp: s)
  then have b: "fs_faults (st_fs (app_store ?b)) = []" "view (st_fs (app_store ?b)) (body_path key) = Some (File packed)"
    using store by (simp_all add: drop_reservation_def release_reservation_def)
  obtain entry where load: "load (env_codec E) key (app_store ?b) = (Inr (Some entry), app_store ?b)"
    and entry: "entry_meta entry = meta" "read_body entry (st_fs (app_store ?b)) = (Inr body, st_fs (app_store ?b))"
    using load_packed [OF b assms(10,8,9)] by blast
  have "length body = unat (entry_body_len entry)"
    using entry(2) b(1) by (auto simp: read_body_def read_exact_at_def fs_op_no_faults Let_def split: if_splits)
  then have blen: "entry_body_len entry = of_nat (length body)" "usable_entry (Some entry) = Some entry"
    using len by (simp_all add: usable_entry_def word_less_nat_alt)
  let ?c = "?b\<lparr>app_stats := record_metadata_fetch ty (app_stats ?b)\<rparr>"
  obtain res' c where "with_reservation (serve_stored entry) ?c = (Inr ((meta, body), res'), c)"
    using serve_stored_run [of entry ?c body] entry assms(15,16) mem blen(1) by auto
  moreover have "on_store (load (env_codec E) key) ?b = (Inr (Some entry), ?b)"
    using load by (simp add: io_simps)
  moreover have "conditional_headers (Some entry) =
      (case meta_etag meta of None \<Rightarrow> [] | Some v \<Rightarrow> [(''if-none-match'', v)]) @
      (case meta_last_modified meta of None \<Rightarrow> [] | Some v \<Rightarrow> [(''if-modified-since'', v)])"
    by (simp add: conditional_headers_def entry)
  ultimately show ?thesis
    using assms(17,18) blen(2)
    by (simp add: metadata_fetch_phase_def do_metadata_fetch_def io_bind_def io_simps count_event_def send_request_def Let_def)
qed

subsection \<open>Artifact fetches\<close>

text \<open>The rule for staged operations that corresponds to \<open>ends\<close>.\<close>

definition sends :: "('s \<Rightarrow> bool) \<Rightarrow> ('a \<Rightarrow> 's \<Rightarrow> bool) \<Rightarrow> ('s, 'a) staged \<Rightarrow> 's \<Rightarrow> bool" where
  "sends E Q m s \<longleftrightarrow> (case m s of (Inl _, t) \<Rightarrow> E t | (Inr x, t) \<Rightarrow> Q x t)"

lemma sends_stage:
  "ends (\<lambda>_. E) R m s \<Longrightarrow> (\<And>x t. R x t \<Longrightarrow> sends E Q (k x) t) \<Longrightarrow> sends E Q (stage name m k) s"
  by (cases "m s"; cases "fst (m s)") (auto simp: sends_def stage_def ends_def)

lemma sends_bind:
  "sends E R m s \<Longrightarrow> (\<And>x t. R x t \<Longrightarrow> sends E Q (k x) t) \<Longrightarrow> sends E Q (staged_bind m k) s"
  by (cases "m s"; cases "fst (m s)") (auto simp: sends_def staged_bind_def)

lemma sends_if: "(c \<Longrightarrow> sends E Q m s) \<Longrightarrow> (\<not> c \<Longrightarrow> sends E Q m' s) \<Longrightarrow> sends E Q (if c then m else m') s"
  by simp

lemma ends_on_files:
  assumes "ends (\<lambda>_ f. E f) Q m (st_fs (app_store a))"
  shows "ends (\<lambda>_ b. E (st_fs (app_store b))) (\<lambda>x b. Q x (st_fs (app_store b))) (on_files m) a"
  using assms by (auto simp: ends_def on_files_def on_store_def on_fs_def split: prod.splits sum.splits)

text \<open>Opening a file reads the tree and changes nothing but the oracle of faults.\<close>

lemma open_file_Inr:
  assumes "open_file p s = (Inr i, t)"
  shows "fs_lookup s p = Some (NFile i)"
  using assms by (auto simp: open_file_def fs_op_def draw_def split: list.splits option.splits node.splits prod.splits)

lemma open_file_same: "open_file p s = (r, t) \<Longrightarrow> t = s\<lparr>fs_faults := fs_faults t\<rparr>"
  by (auto simp: open_file_def fs_op_def draw_def split: list.splits option.splits node.splits prod.splits)

lemma commit_artifact_effect:
  assumes "wf_fs (st_fs s)" and "temp \<noteq> body_path key" and "temp \<noteq> []"
  shows "ends (\<lambda>_ t. changes_at temp (st_fs s) (st_fs t))
    (\<lambda>p t. pub_key p = key \<and> wf_fs (st_fs t) \<and> (\<forall>q. q \<notin> {temp, body_path key} \<longrightarrow> view (st_fs t) q = view (st_fs s) q))
    (commit_artifact C key meta temp) s"
proof -
  let ?E = "\<lambda>_ t. changes_at temp (st_fs s) (st_fs t)"
  let ?Q = "\<lambda>p t. pub_key p = key \<and> wf_fs (st_fs t)
    \<and> (\<forall>q. q \<notin> {temp, body_path key} \<longrightarrow> view (st_fs t) q = view (st_fs s) q)"
  let ?W = "\<lambda>i t. changes_at temp (st_fs s) (st_fs t) \<and> (\<exists>bs. writing temp i bs (st_fs t))"
  have opened: "ends ?E ?W (on_fs (open_file temp)) s"
  proof (rule ends_on_fs, rule endsI)
    fix r f assume run: "open_file temp (st_fs s) = (r, f)"
    note same = open_file_same [OF run]
    have "changes_at temp (st_fs s) f"
      using changes_at_faults [OF assms(1) same] .
    moreover have "writing temp i (fs_data f i @ fs_pending f i) f" if "r = Inr i" for i
      using open_file_Inr [OF run [unfolded that]] assms(1) unfolding writing_def
      by (simp add: faults_same(2,3) [OF same])
    ultimately show "case r of Inl e \<Rightarrow> changes_at temp (st_fs s) (st_fs (s\<lparr>st_fs := f\<rparr>))
       | Inr i \<Rightarrow> ?W i (s\<lparr>st_fs := f\<rparr>)"
      by (cases r) auto
  qed
  have written: "ends ?E (\<lambda>_. ?W i) (on_fs (write_all i new)) t" if t: "?W i t" for i new t
  proof (rule ends_on_fs, rule endsI)
    fix r f assume run: "write_all i new (st_fs t) = (r, f)"
    obtain bs where "writing temp i bs (st_fs t)"
      using t by blast
    from write_all_view [OF this run] t
    show "case r of Inl e \<Rightarrow> changes_at temp (st_fs s) (st_fs (t\<lparr>st_fs := f\<rparr>)) | Inr x \<Rightarrow> ?W i (t\<lparr>st_fs := f\<rparr>)"
      by (cases r) (auto intro: changes_at_trans)
  qed
  have renamed: "ends ?E ?Q (\<lambda>u. case pin key u of (published, t) \<Rightarrow>
      io_try (on_fs (rename_file temp (body_path key)))
        (\<lambda>r. case r of Inr _ \<Rightarrow> io_return published | Inl e \<Rightarrow> (\<lambda>u. (Inl e, drop_published published u))) t) t"
    if t: "?W i t" for i t
  proof -
    obtain bs where w: "writing temp i bs (st_fs t)"
      using t by blast
    obtain r f where run: "rename_file temp (body_path key) (st_fs t) = (r, f)"
      by force
    have wf: "wf_fs (st_fs t)" "view (st_fs t) temp = Some (File (fs_data (st_fs t) i))"
      using w by (auto simp: writing_def view_File)
    have "body_path key \<noteq> []"
      by (simp add: body_path_eq)
    note ren = rename_file_view [OF wf assms(2,3) this run]
    obtain p u where pin: "pin key t = (p, u)" "st_fs u = st_fs t" "pub_key p = key"
      by (auto simp: pin_def Let_def)
    have other: "view (st_fs t) q = view (st_fs s) q" if "q \<noteq> temp" for q
      using changes_at_other that t by blast
    show ?thesis
    proof (cases r)
      case (Inl e)
      then have "changes_at temp (st_fs s) f"
        using ren t changes_at_same changes_at_trans by fastforce
      then show ?thesis
        using run Inl pin by (simp add: ends_def io_try_def io_simps flight_simps)
    next
      case (Inr x)
      then show ?thesis
        using run ren other pin by (auto simp: ends_def io_try_def io_simps)
    qed
  qed
  show ?thesis
    unfolding commit_artifact_def Let_def
    apply (rule ends_bind [OF ends_lift [where Q = "\<lambda>_ t. t = s"]])
      apply (simp add: changes_at_refl assms(1))
     apply simp
    apply (rule ends_bind [OF ends_lift [where Q = "\<lambda>_ t. t = s"]])
      apply (simp add: changes_at_refl assms(1))
     apply simp
    apply (simp only:)
    apply (rule ends_bind [OF opened], rule ends_bind [OF written], assumption)
    apply (rule ends_bind [OF written], assumption, rule renamed, assumption)
    done
qed

lemma download_effect:
  assumes "changes_at temp f (st_fs (app_store a)) \<and> writing temp i bs (st_fs (app_store a))"
  shows "sends (\<lambda>b. changes_at temp f (st_fs (app_store b)))
    (\<lambda>_ b. changes_at temp f (st_fs (app_store b)) \<and> (\<exists>bs. writing temp i bs (st_fs (app_store b))))
    (download i cs n) a"
  using assms
proof (induction cs arbitrary: n bs a)
  case Nil
  then show ?case
    by (auto simp: sends_def)
next
  case (Cons c cs)
  let ?E = "\<lambda>b. changes_at temp f (st_fs (app_store b))"
  have written: "ends (\<lambda>_. ?E) (\<lambda>_ b. ?E b \<and> writing temp i (bs @ chunk) (st_fs (app_store b)))
      (on_files (write_all i chunk)) a" for chunk
    using Cons.prems write_all_view [of temp i bs "st_fs (app_store a)" chunk]
    by (intro ends_on_files endsI) (auto split: sum.splits intro: changes_at_trans)
  show ?case
    unfolding download.simps
    by (rule sends_stage [where R = "\<lambda>_ t. t = a"])
      (use Cons.prems in \<open>auto simp: ends_def io_simps split: sum.split intro!: sends_stage [OF written] Cons.IH\<close>)
qed

lemma do_artifact_fetch_effect:
  assumes "wf_fs (st_fs (app_store a))" and "al_paths leader = paths_for (al_key leader)"
  shows "sends (\<lambda>b. changes_at (paths_temp (paths_for (al_key leader))) (st_fs (app_store a)) (st_fs (app_store b)))
    (\<lambda>x b. wf_fs (st_fs (app_store b)) \<and> (case x of
        FetchNonOk _ _ \<Rightarrow> st_fs (app_store b) = st_fs (app_store a)
      | FetchCached p \<Rightarrow> pub_key p = al_key leader
          \<and> (\<forall>q. q \<notin> {paths_temp (paths_for (al_key leader)), body_path (al_key leader)} \<longrightarrow>
              view (st_fs (app_store b)) q = view (st_fs (app_store a)) q)))
    (do_artifact_fetch E net u ty leader) a"
proof -
  let ?f = "st_fs (app_store a)" and ?temp = "paths_temp (paths_for (al_key leader))" and ?dest = "body_path (al_key leader)"
  let ?E = "\<lambda>b. changes_at ?temp ?f (st_fs (app_store b))"
  let ?W = "\<lambda>i b. ?E b \<and> (\<exists>bs. writing ?temp i bs (st_fs (app_store b)))"
  let ?Q = "\<lambda>x b. wf_fs (st_fs (app_store b)) \<and> (case x of
      FetchNonOk _ _ \<Rightarrow> st_fs (app_store b) = ?f
    | FetchCached p \<Rightarrow> pub_key p = al_key leader
        \<and> (\<forall>q. q \<notin> {?temp, ?dest} \<longrightarrow> view (st_fs (app_store b)) q = view ?f q))"
  let ?S = "\<lambda>b. st_fs (app_store b) = ?f"
  have neq: "?temp \<noteq> ?dest" "?temp \<noteq> []"
    by (simp_all add: temp_path_eq body_path_eq)
  have refl: "?E b" if "?S b" for b
    using that assms(1) by (simp add: changes_at_refl)
  have pure: "ends (\<lambda>_. ?E) (\<lambda>_. ?S) (io_lift x) b" if "?S b" for x b
    using that refl by (intro ends_lift) auto
  have counted: "ends (\<lambda>_. ?E) (\<lambda>_. ?S) (count_event (record_artifact_fetch ty)) a"
    by (simp add: ends_def count_event_def)
  have create: "ends (\<lambda>_. ?E) ?W (on_files (create_file ?temp)) b" if "?S b" for b
    using create_file_view [OF assms(1) neq(2)] that
    by (intro ends_on_files [where Q = "\<lambda>i f. changes_at ?temp ?f f \<and> (\<exists>bs. writing ?temp i bs f)"] endsI)
      (auto split: sum.splits)
  have load_body: "sends ?E (\<lambda>_. ?W i) (download i cs n) b" if "?W i b" for i cs n b
    using that download_effect [of ?temp ?f b i] by blast
  have flush: "ends (\<lambda>_. ?E) (\<lambda>_. ?W i) (on_files (flush_file i)) b" if w: "?W i b" for i b
  proof -
    obtain bs where "?E b" "writing ?temp i bs (st_fs (app_store b))"
      using w by blast
    with flush_file_view [of ?temp i bs "st_fs (app_store b)"] show ?thesis
      by (intro ends_on_files [where Q = "\<lambda>_ f. changes_at ?temp ?f f \<and> (\<exists>bs. writing ?temp i bs f)"] endsI)
        (auto split: sum.splits intro: changes_at_trans)
  qed
  have commit: "ends (\<lambda>_. ?E) (\<lambda>p. ?Q (FetchCached p))
      (on_store (commit_artifact (env_codec E) (al_key leader) meta ?temp)) b" if "?W i b" for i b meta
  proof -
    have "wf_fs (st_fs (app_store b))" and b: "?E b"
      using that by (auto simp: changes_at_def)
    from commit_artifact_effect [OF this(1) neq, of "env_codec E" meta] show ?thesis
      using changes_at_trans [OF b] changes_at_other [OF b]
      by (auto simp: ends_def on_store_def split: prod.splits sum.splits)
  qed
  show "sends ?E ?Q (do_artifact_fetch E net u ty leader) a"
    unfolding do_artifact_fetch_def Let_def assms(2)
    apply (rule sends_stage [OF counted])
    apply (rule sends_stage [OF pure], assumption)
    apply (rule sends_if)
     apply (rule sends_stage [OF pure], assumption)
     apply (simp add: sends_def assms(1))
    apply (rule sends_stage [OF create], assumption)
    apply (rule sends_bind [OF load_body], assumption)
    apply (rule sends_stage [OF flush], assumption)
    apply (rule sends_stage [OF commit], assumption)
    apply (simp add: sends_def)
    done
qed

text \<open>
  A download touches nothing but its own names.  Whatever the upstream sends and wherever an operation
  fails, a failed download leaves every entry of the cache as it was; an upstream error is passed on
  without writing at all; and a download that is published changes only the entry's name and its temp
  file.
\<close>

lemma artifact_fetch_effect:
  assumes "wf_fs (st_fs (app_store a))" and "al_paths leader = paths_for (al_key leader)"
    and "artifact_fetch_phase E net u ty leader a = (r, b)"
  shows "wf_fs (st_fs (app_store b)) \<and>
    (case r of
       Inl _ \<Rightarrow> \<forall>p. p \<noteq> paths_temp (al_paths leader) \<longrightarrow> view (st_fs (app_store b)) p = view (st_fs (app_store a)) p
     | Inr (FetchNonOk _ _) \<Rightarrow> st_fs (app_store b) = st_fs (app_store a)
     | Inr (FetchCached p) \<Rightarrow> pub_key p = al_key leader
         \<and> (\<forall>q. q \<notin> {paths_temp (al_paths leader), paths_body (al_paths leader)} \<longrightarrow>
              view (st_fs (app_store b)) q = view (st_fs (app_store a)) q))"
proof -
  let ?f = "st_fs (app_store a)" and ?temp = "paths_temp (paths_for (al_key leader))"
  have "changes_at ?temp ?f (st_fs (app_store (snd (on_files (remove_file ?temp) c))))"
    if "changes_at ?temp ?f (st_fs (app_store c))" for c
  proof -
    have "wf_fs (st_fs (app_store c))" "?temp \<noteq> []"
      using that by (simp_all add: changes_at_def temp_path_eq)
    then show ?thesis
      using remove_file_changes changes_at_trans [OF that] by (simp add: on_files_def io_simps)
  qed
  then have "case r of Inl _ \<Rightarrow> changes_at ?temp ?f (st_fs (app_store b))
      | Inr x \<Rightarrow> wf_fs (st_fs (app_store b)) \<and> (case x of
          FetchNonOk _ _ \<Rightarrow> st_fs (app_store b) = ?f
        | FetchCached p \<Rightarrow> pub_key p = al_key leader
            \<and> (\<forall>q. q \<notin> {?temp, body_path (al_key leader)} \<longrightarrow> view (st_fs (app_store b)) q = view ?f q))"
    using do_artifact_fetch_effect [OF assms(1,2), of E net u ty] assms(2,3)
    by (auto simp: artifact_fetch_phase_def sends_def split: prod.splits sum.splits)
  then show ?thesis
    using assms(2) by (auto simp: changes_at_def split: sum.splits fetch_outcome.splits)
qed

lemma write_all_run:
  assumes "fs_faults f = []" and "writing p i bs f"
  obtains g where "write_all i new f = (Inr (), g)" and "fs_faults g = []" and "writing p i (bs @ new) g"
    and "fs_lookup g = fs_lookup f"
proof -
  let ?g = "(settle i f)\<lparr>fs_pending := (fs_pending (settle i f))(i := new)\<rparr>"
  have run: "write_all i new f = (Inr (), ?g)"
    using assms(1) by (simp add: write_all_def draw_no_faults Let_def)
  show thesis
    by (rule that [OF run])
      (use assms write_all_view [OF assms(2) run] in \<open>simp_all add: settle_def\<close>)
qed

lemma download_run:
  assumes "body_is body cs" and "fs_faults (st_fs (app_store a)) = []" and "writing temp i bs (st_fs (app_store a))"
  shows "\<exists>f. download i cs n a = (Inr (n + of_nat (length body)), on_app_store (\<lambda>s. s\<lparr>st_fs := f\<rparr>) a)
    \<and> fs_faults f = [] \<and> writing temp i (bs @ body) f \<and> fs_lookup f = fs_lookup (st_fs (app_store a))"
  using assms
proof (induction cs arbitrary: n bs a body)
  case Nil
  then show ?case
    by (intro exI [of _ "st_fs (app_store a)"]) (auto simp: body_is_def on_app_store_def)
next
  case (Cons c cs)
  obtain chunk rest where c: "c = Inr chunk" and rest: "body = chunk @ rest" "body_is rest cs"
    using Cons.prems(1) by (cases c) (auto simp: body_is_def)
  obtain g where g: "write_all i chunk (st_fs (app_store a)) = (Inr (), g)" "fs_faults g = []"
    "writing temp i (bs @ chunk) g" "fs_lookup g = fs_lookup (st_fs (app_store a))"
    using write_all_run [OF Cons.prems(2,3)] by blast
  let ?a = "on_app_store (\<lambda>s. s\<lparr>st_fs := g\<rparr>) a"
  have one: "download i (c # cs) n a = download i cs (n + of_nat (length chunk)) ?a"
    using g(1) by (simp add: stage_def c next_chunk_def io_simps on_files_def on_app_store_def)
  obtain f where "download i cs (n + of_nat (length chunk)) ?a =
      (Inr (n + of_nat (length chunk) + of_nat (length rest)), on_app_store (\<lambda>s. s\<lparr>st_fs := f\<rparr>) ?a)"
    "fs_faults f = []" "writing temp i ((bs @ chunk) @ rest) f" "fs_lookup f = fs_lookup g"
    using Cons.IH [OF rest(2), of ?a "bs @ chunk" "n + of_nat (length chunk)"] g by (auto simp: on_app_store_def)
  then show ?case
    using g(4) by (intro exI [of _ f]) (simp add: one rest on_app_store_def add.assoc del: download.simps)
qed

lemma create_file_run:
  assumes "fs_faults f = []" and "wf_fs f" and "fs_lookup f [d] = Some NDir" and "fs_lookup f [d, n] \<noteq> Some NDir"
  obtains i g where "create_file [d, n] f = (Inr i, g)" and "fs_faults g = []" and "writing [d, n] i [] g"
    and "\<And>p. p \<noteq> [d, n] \<Longrightarrow> fs_lookup g p = fs_lookup f p"
proof -
  obtain i g where run: "create_file [d, n] f = (Inr i, g)" and g: "fs_faults g = []"
    "\<And>p. p \<noteq> [d, n] \<Longrightarrow> fs_lookup g p = fs_lookup f p"
  proof (cases "fs_lookup f [d, n]")
    case None
    then show ?thesis
      using that assms(1,3) by (simp add: create_file_def fs_op_no_faults Let_def fs_lookup_link)
  next
    case (Some nd)
    then obtain i where "fs_lookup f [d, n] = Some (NFile i)"
      using assms(4) by (cases nd) auto
    then show ?thesis
      using that assms(1) by (simp add: create_file_def fs_op_no_faults)
  qed
  from create_file_view [OF assms(2) _ run] show thesis
    by (intro that [OF run g(1) _ g(2)]) simp_all
qed

lemma artifact_fetch_run:
  assumes "wf_fs (st_fs (app_store a))" and "fs_faults (st_fs (app_store a)) = []" and "key_ok key"
    and "leader = \<lparr>al_inflight = j, al_key = key, al_paths = paths_for key\<rparr>"
    and "fs_lookup (st_fs (app_store a)) (shard_path key) = Some NDir"
    and "fs_lookup (st_fs (app_store a)) (body_path key) \<noteq> Some NDir"
    and "fs_lookup (st_fs (app_store a)) (paths_temp (paths_for key)) \<noteq> Some NDir"
    and "net (get_request u) = Inr resp" and "up_status resp = 200" and "body_is body (up_chunks resp)"
    and "meta = meta_from_upstream (env_http E) 200 (up_headers resp) (Some (of_nat (length body)))"
    and "codec_to_vec (env_codec E) meta = Inr mb" and "length mb \<le> MAX_META_LEN"
  obtains p b i where "artifact_fetch_phase E net u ty leader a = (Inr (FetchCached p), b)" and "pub_key p = key"
    and "live_pin (app_store b) key" and "fs_faults (st_fs (app_store b)) = []"
    and "writing (body_path key) i (body @ mb @ to_be_bytes (of_nat (length mb))) (st_fs (app_store b))"
proof -
  let ?C = "env_codec E" and ?temp = "paths_temp (paths_for key)"
  obtain i f where create: "create_file ?temp (st_fs (app_store a)) = (Inr i, f)"
    and f: "fs_faults f = []" "writing ?temp i [] f" "\<And>p. p \<noteq> ?temp \<Longrightarrow> fs_lookup f p = fs_lookup (st_fs (app_store a)) p"
    using create_file_run [OF assms(2,1,5)] assms(7) unfolding temp_path_eq(1) by blast
  let ?a1 = "on_app_store (\<lambda>s. s\<lparr>st_fs := f\<rparr>) (a\<lparr>app_stats := record_artifact_fetch ty (app_stats a)\<rparr>)"
  obtain g where down: "download i (up_chunks resp) 0 ?a1 =
      (Inr (of_nat (length body)), on_app_store (\<lambda>s. s\<lparr>st_fs := g\<rparr>) ?a1)"
    and g: "fs_faults g = []" "writing ?temp i body g" "fs_lookup g = fs_lookup f"
    using download_run [OF assms(10), of ?a1 ?temp i "[]" 0] f(1,2) by (auto simp: on_app_store_def)
  let ?h = "settle i g" and ?s = "(app_store a)\<lparr>st_fs := settle i g\<rparr>"
  have flush: "flush_file i g = (Inr (), ?h)"
    using g(1) by (simp add: flush_file_def draw_no_faults)
  have h: "writing ?temp i body ?h" "fs_pending ?h i = []" "fs_faults ?h = []" "fs_lookup ?h = fs_lookup f"
    using flush_file_view [OF g(2) flush] g by (auto simp: settle_def)
  have lookups: "fs_lookup ?h (shard_path key) = Some NDir" "fs_lookup ?h (body_path key) \<noteq> Some NDir"
    "fs_lookup ?h ?temp = Some (NFile i)" "fs_data ?h i = body" "wf_fs ?h"
    using h f(3) assms(5,6) by (auto simp: writing_def temp_path_eq body_path_eq)
  obtain p t where commit: "commit_artifact ?C key meta ?temp ?s = (Inr p, t)"
    and t: "live_pin t key" "wf_fs (st_fs t)" "fs_faults (st_fs t) = []" "fs_lookup (st_fs t) (body_path key) = Some (NFile i)"
      "fs_data (st_fs t) i = body @ mb" "fs_pending (st_fs t) i = to_be_bytes (of_nat (length mb))"
    by (rule commit_artifact_run [of ?s key ?C meta mb i body]) (use lookups h(2,3) assms(3,12,13) in auto)
  have pub: "pub_key p = key"
    using endsD [OF commit_artifact_effect [of ?s ?temp key ?C meta] commit] lookups(5) by (simp add: temp_path_eq body_path_eq)
  let ?b = "a\<lparr>app_stats := record_artifact_fetch ty (app_stats a), app_store := t\<rparr>"
  have run: "artifact_fetch_phase E net u ty leader a = (Inr (FetchCached p), ?b)"
    using assms(4,8,9,11) create down flush commit
    by (simp add: artifact_fetch_phase_def do_artifact_fetch_def stage_def staged_bind_def count_event_def io_simps
        send_request_def on_files_def on_app_store_def Let_def)
  show thesis
    by (rule that [OF run, of i]) (use t pub in \<open>simp_all add: writing_def\<close>)
qed

text \<open>
  C17: A download that succeeds publishes exactly what the upstream sent.  When no operation fails, the
  outcome is a pinned publication of the key, and once the last write has reached the file the
  entry holds the concatenation of the chunks under metadata with their length; an eviction pass under
  any bound does not change that.
\<close>

theorem artifact_fetch_publishes:
  assumes "wf_fs (st_fs (app_store a))" and "fs_faults (st_fs (app_store a)) = []" and "key_ok key"
    and "leader = \<lparr>al_inflight = j, al_key = key, al_paths = paths_for key\<rparr>"
    and "fs_lookup (st_fs (app_store a)) (shard_path key) = Some NDir"
    and "fs_lookup (st_fs (app_store a)) (body_path key) \<noteq> Some NDir"
    and "fs_lookup (st_fs (app_store a)) (paths_temp (paths_for key)) \<noteq> Some NDir"
    and "net (get_request u) = Inr resp" and "up_status resp = 200" and "body_is body (up_chunks resp)"
    and "meta = meta_from_upstream (env_http E) 200 (up_headers resp) (Some (of_nat (length body)))"
    and "codec_to_vec (env_codec E) meta = Inr mb" and "length mb \<le> MAX_META_LEN"
    and "codec_round_trip (env_codec E) meta" and "length body + length mb + FOOTER_LEN < 2 ^ 64"
  shows "\<exists>p b i entry u' entry'. artifact_fetch_phase E net u ty leader a = (Inr (FetchCached p), b)
    \<and> pub_key p = key \<and> live_pin (app_store b) key
    \<and> (let t = (app_store b)\<lparr>st_fs := settle i (st_fs (app_store b))\<rparr> in
       load (env_codec E) key t = (Inr (Some entry), t) \<and> entry_meta entry = meta
       \<and> read_body entry (st_fs t) = (Inr body, st_fs t)
       \<and> evict_files_to_bound t = (Inr (), u')
       \<and> load (env_codec E) key u' = (Inr (Some entry'), u') \<and> entry_meta entry' = meta
       \<and> read_body entry' (st_fs u') = (Inr body, st_fs u'))"
proof -
  let ?C = "env_codec E" and ?packed = "body @ mb @ to_be_bytes (of_nat (length mb))"
  obtain p b i where run: "artifact_fetch_phase E net u ty leader a = (Inr (FetchCached p), b)" "pub_key p = key"
      "live_pin (app_store b) key" and b: "fs_faults (st_fs (app_store b)) = []"
      "writing (body_path key) i ?packed (st_fs (app_store b))"
    by (rule artifact_fetch_run [where ty = ty and E = E and net = net and u = u, OF assms(1-13)])
  let ?t = "(app_store b)\<lparr>st_fs := settle i (st_fs (app_store b))\<rparr>"
  have "fs_faults (st_fs ?t) = []" "view (st_fs ?t) (body_path key) = Some (File ?packed)"
    using writing_settle(2,3) [OF b(2)] b(1) by (simp_all add: writing_def)
  moreover have pack: "pack_footer ?C body meta = Inr ?packed"
    using assms(12,13) by (simp add: pack_footer_Inr)
  ultimately obtain entry where "load ?C key ?t = (Inr (Some entry), ?t)" "entry_meta entry = meta"
    "read_body entry (st_fs ?t) = (Inr body, st_fs ?t)"
    using load_packed [of ?t key ?packed ?C body meta] assms(14,15) by (auto simp: FOOTER_LEN_def)
  moreover have "length ?packed < 2 ^ 64"
    using assms(15) by (simp add: FOOTER_LEN_def)
  from published_survives [OF run(3) b pack assms(14) this]
  obtain v entry' where "evict_files_to_bound ?t = (Inr (), v)" "load ?C key v = (Inr (Some entry'), v)"
    "entry_meta entry' = meta" "read_body entry' (st_fs v) = (Inr body, st_fs v)" .
  ultimately show ?thesis
    using run by (intro exI [of _ p] exI [of _ b] exI [of _ i] exI [of _ entry] exI [of _ v] exI [of _ entry'])
      (simp add: Let_def)
qed

section \<open>Instances\<close>

text \<open>A codec that knows one value, an application on an empty cache and an upstream that sends one small body.\<close>

definition only_codec :: "stored_response_meta \<Rightarrow> meta_codec" where
  "only_codec m =
     \<lparr>codec_to_vec = (\<lambda>x. if x = m then Inr ''{etag:1}'' else Inl ''unsupported''),
      codec_from_slice = (\<lambda>b. if b = ''{etag:1}'' then Inr m else Inl ''expected value'')\<rparr>"

definition sample_env :: "stored_response_meta \<Rightarrow> env" where
  "sample_env m =
     \<lparr>env_url = sample_lib,
      env_json = \<lparr>json_raw = Inr, json_object = (\<lambda>_. None), json_string = (\<lambda>_. None), json_write_string = (\<lambda>x. x)\<rparr>,
      env_utf8_message = (\<lambda>_. []), env_codec = only_codec m,
      env_digest = (\<lambda>_. sample_key), env_http = lenient_http, env_upstreams = sample_origins,
      env_public_base_url = ''https://mirror''\<rparr>"

definition sample_app :: "store \<Rightarrow> app" where
  "sample_app s = \<lparr>app_store = s, app_stats = default_stats\<rparr>"

definition sample_response :: "u16 \<Rightarrow> upstream_response" where
  "sample_response status =
     \<lparr>up_status = status, up_headers = [(''etag'', ''1'')], up_content_length = None, up_chunks = [Inr ''bo'', Inr ''dy'']\<rparr>"

definition page_meta :: stored_response_meta where
  "page_meta = meta_for_bytes lenient_http 200 [(''etag'', ''1'')] 4 True"

definition file_meta :: stored_response_meta where
  "file_meta = meta_from_upstream lenient_http 200 [(''etag'', ''1'')] (Some 4)"

lemma only_codec_round_trip: "codec_round_trip (only_codec m) x"
  by (simp add: codec_round_trip_def only_codec_def)

lemma sample_body: "body_is ''body'' (up_chunks (sample_response status))"
  by (simp add: body_is_def sample_response_def)

lemma mib_small: "n \<in> {0, 2, 4} \<Longrightarrow> mib_needed n = 1"
  by (auto simp: mib_needed_def MIB_def div_ceil_def)

lemma read_sample_body:
  assumes "1 \<le> st_memory_permits s"
  shows "read_metadata_body (sample_response status) (a\<lparr>app_store := s\<rparr>, None) =
    (Inr ''body'', (a\<lparr>app_store := s\<lparr>st_memory_permits := st_memory_permits s - 1\<rparr>\<rparr>, Some 1))"
  using assms mib_small
  by (simp add: read_metadata_body_def sample_response_def limited_initial_capacity_def io_bind_def io_simps
      reserve_more_def reserve_unfold held_def next_chunk_def Let_def)

lemma fresh_memory: "st_memory_permits fresh_store = 1024" "fs_lookup (st_fs fresh_store) (body_path sample_key) = None"
  by code_simp+

lemma load_fresh: "load C sample_key fresh_store = (Inr None, fresh_store)"
  by (rule load_missing [OF fresh_store_facts(1) fresh_memory(2)])

lemma artifact_fetch_publishes_witness:
  "\<exists>p b i entry u' entry'. artifact_fetch_phase (sample_env file_meta) (\<lambda>_. Inr (sample_response 200)) (npm sample_origins) ''npm''
       \<lparr>al_inflight = 0, al_key = sample_key, al_paths = paths_for sample_key\<rparr> (sample_app downloaded_store)
     = (Inr (FetchCached p), b)
     \<and> pub_key p = sample_key \<and> live_pin (app_store b) sample_key
     \<and> (let t = (app_store b)\<lparr>st_fs := settle i (st_fs (app_store b))\<rparr> in
        load (only_codec file_meta) sample_key t = (Inr (Some entry), t) \<and> entry_meta entry = file_meta
        \<and> read_body entry (st_fs t) = (Inr ''body'', st_fs t)
        \<and> evict_files_to_bound t = (Inr (), u')
        \<and> load (only_codec file_meta) sample_key u' = (Inr (Some entry'), u') \<and> entry_meta entry' = file_meta
        \<and> read_body entry' (st_fs u') = (Inr ''body'', st_fs u'))"
proof -
  have "file_meta = meta_from_upstream (env_http (sample_env file_meta)) 200 (up_headers (sample_response 200))
      (Some (of_nat (length ''body'')))"
    by (simp add: file_meta_def sample_env_def sample_response_def)
  moreover have "codec_to_vec (env_codec (sample_env file_meta)) file_meta = Inr ''{etag:1}''"
    by (simp add: sample_env_def only_codec_def)
  moreover have "codec_round_trip (env_codec (sample_env file_meta)) file_meta"
    by (simp add: sample_env_def only_codec_round_trip)
  ultimately show ?thesis
    using artifact_fetch_publishes [OF _ _ sample_key_ok refl _ _ _ _ _ sample_body, of "sample_app downloaded_store"
        "\<lambda>_. Inr (sample_response 200)" "npm sample_origins" 200 file_meta "sample_env file_meta" "''{etag:1}''" "''npm''" 0]
      downloaded_store_wf downloaded_store_facts
    by (simp add: sample_app_def sample_response_def sample_env_def MAX_META_LEN_def FOOTER_LEN_def)
qed

lemma only_codec_packed: "pack_footer (only_codec m) ''body'' m = Inr sample_bytes"
  using sample_packed by (simp add: format_defs only_codec_def sample_codec_def split: sum.splits if_splits)

lemma revalidation_roundtrip_witness:
  "\<exists>res b res' c. do_metadata_fetch (sample_env page_meta) (\<lambda>_. Inr (sample_response 200)) (npm sample_origins) ''npm''
       RewriteNone None sample_key (sample_app fresh_store) = (Inr ((page_meta, ''body''), res), b)
     \<and> metadata_fetch_phase (sample_env page_meta) (\<lambda>_. Inr (sample_response 304)) (npm sample_origins) ''npm''
         RewriteNone \<lparr>ml_inflight = 0, ml_key = sample_key\<rparr> (drop_reservation res b) = (Inr ((page_meta, ''body''), res'), c)"
proof -
  let ?a = "(sample_app fresh_store)\<lparr>app_stats := record_metadata_fetch ''npm'' default_stats\<rparr>"
  let ?s = "fresh_store\<lparr>st_memory_permits := 1023\<rparr>"
  let ?E = "sample_env page_meta"
  have packed: "pack_footer (env_codec ?E) ''body'' page_meta = Inr sample_bytes"
    using only_codec_packed by (simp add: sample_env_def)
  have len: "length sample_bytes < 2 ^ 64"
    by simp
  obtain t where store: "store_metadata (env_codec ?E) sample_key ''body'' page_meta ?s = (Inr (), t)"
    using store_metadata_run [of ?s sample_key "env_codec ?E" "''body''" page_meta sample_bytes]
      fresh_store_wf fresh_store_facts sample_key_ok packed len by auto
  have "read_metadata_body (sample_response 200) (?a, None) = (Inr ''body'', (?a\<lparr>app_store := ?s\<rparr>, Some 1))"
    using read_sample_body [of fresh_store 200 ?a] fresh_memory(1) by (simp add: sample_app_def)
  moreover have "meta_for_bytes (env_http ?E) 200 [(''etag'', ''1'')] 4 True = page_meta"
    by (simp add: page_meta_def sample_env_def)
  moreover have "meta_etag page_meta = Some ''1''"
    by code_simp
  ultimately have fin: "finish_metadata ?E RewriteNone sample_key (sample_response 200) (?a, None) =
      (Inr (page_meta, ''body''), (?a\<lparr>app_store := t\<rparr>, Some 1))"
    using store
    by (simp add: finish_metadata_def io_bind_def [of "read_metadata_body _"] working_set_def output_bound_def Let_def
        apply_rewrite_def io_bind_def io_simps reserve_more_def reserve_unfold mib_small held_def conclude_metadata_def
        sample_response_def sample_app_def)
  let ?b = "?a\<lparr>app_store := t\<rparr>"
  have run: "do_metadata_fetch ?E (\<lambda>_. Inr (sample_response 200)) (npm sample_origins) ''npm'' RewriteNone None sample_key
      (sample_app fresh_store) = (Inr ((page_meta, ''body''), Some 1), ?b)"
    using fin
    by (simp add: do_metadata_fetch_def io_bind_def io_simps count_event_def send_request_def with_reservation_def
        sample_app_def usable_entry_def conditional_headers_def sample_response_def)
  have "\<exists>res' c. metadata_fetch_phase ?E (\<lambda>_. Inr (sample_response 304)) (npm sample_origins) ''npm''
         RewriteNone \<lparr>ml_inflight = 0, ml_key = sample_key\<rparr> (drop_reservation (Some 1) ?b) = (Inr ((page_meta, ''body''), res'), c)"
    by (rule revalidation_roundtrip [OF run, where resp = "sample_response 200" and resp' = "sample_response 304" and packed = sample_bytes])
      (use fresh_store_wf fresh_store_facts sample_key_ok packed len fresh_memory(1) \<open>meta_etag page_meta = Some ''1''\<close> in
        \<open>simp_all add: sample_app_def sample_response_def sample_env_def only_codec_round_trip mib_small memory_def\<close>)
  with run show ?thesis
    by blast
qed

end
