(* ===== verification/SingleFlight.thy ===== *)
theory SingleFlight
  imports Main "HOL-Library.Multiset"
begin

text \<open>
  The contract of the in-flight table as an abstract machine: which flights exist, which of them have an
  outcome, who will end each one, who waits for it, and how many permits are left.  Everything a task
  does that does not concern this is left out.  The invariants are proved here once, by induction over the
  steps, and reach the proxy through the simulation of \<open>Flights\<close>.
\<close>

section \<open>The machine\<close>

text \<open>
  What a task is to the table: a waiter at the head of its loop, with a future created at an epoch, or
  asleep; the owner of a flight, which will end it, with or without a permit; the same between storing
  the outcome and waking the waiters, and after that; and a leader that has only its permit left.
\<close>

datatype phase =
    Waits nat
  | Armed nat nat
  | Sleeps nat nat
  | Owns string nat bool
  | Announces string nat bool
  | Closes string nat bool
  | Holds

record flights =
  fl_table :: "string \<rightharpoonup> nat"
  fl_settled :: "nat set"
  fl_next :: nat
  fl_permits :: nat
  fl_epochs :: "nat \<Rightarrow> nat"

type_synonym sf_state = "flights \<times> phase multiset"

fun flight_of :: "phase \<Rightarrow> nat option" where
  "flight_of (Waits i) = Some i"
| "flight_of (Armed i n) = Some i"
| "flight_of (Sleeps i n) = Some i"
| "flight_of (Owns k i p) = Some i"
| "flight_of (Announces k i p) = Some i"
| "flight_of (Closes k i p) = Some i"
| "flight_of Holds = None"

fun owned :: "phase \<Rightarrow> (string \<times> nat) option" where
  "owned (Owns k i p) = Some (k, i)"
| "owned (Announces k i p) = Some (k, i)"
| "owned (Closes k i p) = Some (k, i)"
| "owned _ = None"

fun permits_of :: "phase \<Rightarrow> nat" where
  "permits_of (Owns k i p) = of_bool p"
| "permits_of (Announces k i p) = of_bool p"
| "permits_of (Closes k i p) = of_bool p"
| "permits_of Holds = 1"
| "permits_of _ = 0"

inductive sf_step :: "sf_state \<Rightarrow> sf_state \<Rightarrow> bool" where
  join: "fl_table f k = Some i \<Longrightarrow> sf_step (f, P) (f, add_mset (Waits i) P)"
| lead: "fl_table f k = None \<Longrightarrow> 0 < fl_permits f \<Longrightarrow> W \<subseteq># {#Waits (fl_next f)#} \<Longrightarrow>
    sf_step (f, P)
      (f\<lparr>fl_table := (fl_table f)(k \<mapsto> fl_next f), fl_settled := fl_settled f - {fl_next f},
         fl_next := Suc (fl_next f), fl_permits := fl_permits f - 1\<rparr>,
       add_mset (Owns k (fl_next f) True) (W + P))"
| arm: "sf_step (f, add_mset (Waits i) P) (f, add_mset (Armed i (fl_epochs f i)) P)"
| see: "i \<in> fl_settled f \<Longrightarrow> sf_step (f, add_mset (Armed i n) P) (f, P)"
| sleep: "i \<notin> fl_settled f \<Longrightarrow> sf_step (f, add_mset (Armed i n) P) (f, add_mset (Sleeps i n) P)"
| wake: "n < fl_epochs f i \<Longrightarrow> sf_step (f, add_mset (Sleeps i n) P) (f, add_mset (Waits i) P)"
| settle: "i \<notin> fl_settled f \<Longrightarrow>
    sf_step (f, add_mset (Owns k i p) P)
      (f\<lparr>fl_settled := insert i (fl_settled f)\<rparr>, add_mset (Announces k i p) P)"
| settled: "i \<in> fl_settled f \<Longrightarrow> sf_step (f, add_mset (Owns k i p) P) (f, add_mset (Closes k i p) P)"
| announce: "sf_step (f, add_mset (Announces k i p) P)
      (f\<lparr>fl_epochs := (fl_epochs f)(i := Suc (fl_epochs f i))\<rparr>, add_mset (Closes k i p) P)"
| close: "sf_step (f, add_mset (Closes k i p) P)
      (f\<lparr>fl_table := (fl_table f)(k := None)\<rparr>, (if p then {#Holds#} else {#}) + P)"
| release: "sf_step (f, add_mset Holds P) (f\<lparr>fl_permits := Suc (fl_permits f)\<rparr>, P)"
| abandon: "q \<in> {Owns k i True, Closes k i True} \<Longrightarrow>
    sf_step (f, add_mset q P) (f\<lparr>fl_permits := Suc (fl_permits f)\<rparr>, add_mset (Owns k i False) P)"
| leave: "owned q = None \<Longrightarrow> q \<noteq> Holds \<Longrightarrow> sf_step (f, add_mset q P) (f, P)"
| forget: "\<forall>q\<in>#P. flight_of q \<noteq> Some i \<Longrightarrow> i \<notin> ran (fl_table f) \<Longrightarrow>
    sf_step (f, P) (f\<lparr>fl_settled := fl_settled f - {i}\<rparr>, P)"

definition sf_init :: "nat \<Rightarrow> sf_state \<Rightarrow> bool" where
  "sf_init cap x \<longleftrightarrow> fl_table (fst x) = Map.empty \<and> fl_permits (fst x) = cap \<and> snd x = {#}"

section \<open>Invariants\<close>

definition owners :: "string \<Rightarrow> phase multiset \<Rightarrow> nat" where
  "owners k P = (\<Sum>q\<in>#P. of_bool (map_option fst (owned q) = Some k))"

text \<open>Permits are conserved.\<close>

definition permits_ok :: "nat \<Rightarrow> sf_state \<Rightarrow> bool" where
  "permits_ok cap x \<longleftrightarrow> fl_permits (fst x) + (\<Sum>q\<in>#snd x. permits_of q) = cap"

text \<open>A key has an owner if and only if it is in the table, and then just one; it owns the flight of the table.\<close>

definition owners_ok :: "sf_state \<Rightarrow> bool" where
  "owners_ok x \<longleftrightarrow>
     (\<forall>k. owners k (snd x) = (if fl_table (fst x) k = None then 0 else 1))
     \<and> (\<forall>q\<in>#snd x. \<forall>k i. owned q = Some (k, i) \<longrightarrow> fl_table (fst x) k = Some i)
     \<and> (\<forall>k i. fl_table (fst x) k = Some i \<longrightarrow> i < fl_next (fst x))
     \<and> (\<forall>k k' i. fl_table (fst x) k = Some i \<longrightarrow> fl_table (fst x) k' = Some i \<longrightarrow> k = k')"

text \<open>A flight that somebody waits for has an outcome or is in the table.\<close>

fun waits_for :: "phase \<Rightarrow> nat option" where
  "waits_for (Waits i) = Some i"
| "waits_for (Armed i n) = Some i"
| "waits_for (Sleeps i n) = Some i"
| "waits_for _ = None"

definition waiters_ok :: "sf_state \<Rightarrow> bool" where
  "waiters_ok x \<longleftrightarrow>
     (\<forall>q\<in>#snd x. \<forall>i. flight_of q = Some i \<longrightarrow> i < fl_next (fst x))
     \<and> (\<forall>q\<in>#snd x. \<forall>i. waits_for q = Some i \<longrightarrow> i \<in> fl_settled (fst x) \<or> i \<in> ran (fl_table (fst x)))
     \<and> (\<forall>k i p. Announces k i p \<in># snd x \<or> Closes k i p \<in># snd x \<longrightarrow> i \<in> fl_settled (fst x))"

text \<open>
  A sleeper whose flight has an outcome is awake already, or somebody is about to wake it: no wake-up is
  lost between looking and sleeping.
\<close>

definition wakeups_ok :: "sf_state \<Rightarrow> bool" where
  "wakeups_ok x \<longleftrightarrow>
     (\<forall>i n. Armed i n \<in># snd x \<or> Sleeps i n \<in># snd x \<longrightarrow> n \<le> fl_epochs (fst x) i)
     \<and> (\<forall>i n. Sleeps i n \<in># snd x \<longrightarrow> i \<in> fl_settled (fst x) \<longrightarrow>
          n < fl_epochs (fst x) i \<or> (\<exists>k p. Announces k i p \<in># snd x))"

text \<open>The epoch of a flight advances only after it has its outcome.\<close>

definition awake_ok :: "sf_state \<Rightarrow> bool" where
  "awake_ok x \<longleftrightarrow>
     (\<forall>i n. Armed i n \<in># snd x \<or> Sleeps i n \<in># snd x \<longrightarrow> n < fl_epochs (fst x) i \<longrightarrow> i \<in> fl_settled (fst x))"

definition sf_inv :: "nat \<Rightarrow> sf_state \<Rightarrow> bool" where
  "sf_inv cap x \<longleftrightarrow> permits_ok cap x \<and> owners_ok x \<and> waiters_ok x \<and> wakeups_ok x \<and> awake_ok x"

lemma owners_simps [simp]:
  "owners k {#} = 0" "owners k (P + Q) = owners k P + owners k Q"
  "owners k (add_mset q P) = of_bool (map_option fst (owned q) = Some k) + owners k P"
  by (simp_all add: owners_def)

lemma sf_init_inv: "sf_init cap x \<Longrightarrow> sf_inv cap x"
  by (simp add: sf_init_def sf_inv_def permits_ok_def owners_ok_def waiters_ok_def wakeups_ok_def awake_ok_def)

lemma sub_single: "W \<subseteq># {#a#} \<Longrightarrow> W = {#} \<or> W = {#a#}"
  by (metis mset_subset_eq_single nonempty_subseteq_mset_iff_single)

lemma permits_step: "sf_step x y \<Longrightarrow> permits_ok cap x \<Longrightarrow> permits_ok cap y"
proof (induction rule: sf_step.induct)
  case (lead f k W P)
  then show ?case
    using sub_single [OF lead(3)] by (auto simp: permits_ok_def)
next
  case (leave q f P)
  then show ?case
    by (cases q) (auto simp: permits_ok_def)
qed (auto simp: permits_ok_def)

lemma owners_okD:
  assumes "owners_ok (f, P)"
  shows "owners k P = (if fl_table f k = None then 0 else 1)"
    and "q \<in># P \<Longrightarrow> owned q = Some (k, i) \<Longrightarrow> fl_table f k = Some i"
    and "fl_table f k = Some i \<Longrightarrow> i < fl_next f"
    and "fl_table f k = Some i \<Longrightarrow> fl_table f k' = Some i \<Longrightarrow> k = k'"
  using assms unfolding owners_ok_def fst_conv snd_conv by blast+

lemma owners_okI:
  assumes "\<And>k. owners k P = (if fl_table f k = None then 0 else 1)"
    and "\<And>q k i. q \<in># P \<Longrightarrow> owned q = Some (k, i) \<Longrightarrow> fl_table f k = Some i"
    and "\<And>k i. fl_table f k = Some i \<Longrightarrow> i < fl_next f"
    and "\<And>k k' i. fl_table f k = Some i \<Longrightarrow> fl_table f k' = Some i \<Longrightarrow> k = k'"
  shows "owners_ok (f, P)"
  unfolding owners_ok_def fst_conv snd_conv using assms by blast

text \<open>Steps that leave the table alone and exchange owners for owners of the same flight.\<close>

lemma owners_ok_cong:
  assumes "owners_ok (f, P)" and "fl_table g = fl_table f" and "fl_next g = fl_next f"
    and "\<And>k. owners k Q = owners k P" and "\<And>q. q \<in># Q \<Longrightarrow> owned q = None \<or> (\<exists>q'\<in>#P. owned q' = owned q)"
  shows "owners_ok (g, Q)"
proof (rule owners_okI)
  fix q k i
  assume "q \<in># Q" "owned q = Some (k, i)"
  with assms(5) [of q] obtain q' where "q' \<in># P" "owned q' = Some (k, i)"
    by auto
  then show "fl_table g k = Some i"
    using owners_okD(2) [OF assms(1)] assms(2) by simp
qed (use owners_okD(1,3,4) [OF assms(1)] assms(2-4) in auto)

lemma owners_step: "sf_step x y \<Longrightarrow> owners_ok x \<Longrightarrow> owners_ok y"
proof (induction rule: sf_step.induct)
  case (lead f k W P)
  have W: "owners k' W = 0" "q \<in># W \<Longrightarrow> owned q = None" for k' q
    using sub_single [OF lead(3)] by (elim disjE; simp)+
  note old = owners_okD [OF lead(4)]
  show ?case
  proof (rule owners_okI)
    show "owners k' (add_mset (Owns k (fl_next f) True) (W + P)) =
      (if fl_table (f\<lparr>fl_table := (fl_table f)(k \<mapsto> fl_next f), fl_settled := fl_settled f - {fl_next f},
         fl_next := Suc (fl_next f), fl_permits := fl_permits f - 1\<rparr>) k' = None then 0 else 1)" for k'
      using lead(1) by (simp add: W old(1))
  next
    fix q k' i
    assume "q \<in># add_mset (Owns k (fl_next f) True) (W + P)" "owned q = Some (k', i)"
    then show "fl_table (f\<lparr>fl_table := (fl_table f)(k \<mapsto> fl_next f), fl_settled := fl_settled f - {fl_next f},
         fl_next := Suc (fl_next f), fl_permits := fl_permits f - 1\<rparr>) k' = Some i"
      using lead(1) old(2) W(2) by auto
  qed (auto dest: old(3,4) split: if_splits intro: less_SucI)
next
  case (close f k i p P)
  note old = owners_okD [OF close]
  have k: "fl_table f k = Some i"
    using old(2) [of "Closes k i p"] by simp
  then have "owners k P = 0"
    using old(1) [of k] by simp
  then have none: "owned q \<noteq> Some (k, j)" if "q \<in># P" for q j
    using that by (auto dest!: multi_member_split)
  have cnt: "owners k' P = (if ((fl_table f)(k := None)) k' = None then 0 else 1)" for k'
    using old(1) [of k'] \<open>owners k P = 0\<close> by auto
  show ?case
  proof (rule owners_okI)
    fix q k' j
    assume "q \<in># (if p then {#Holds#} else {#}) + P" "owned q = Some (k', j)"
    then have "q \<in># P" "owned q = Some (k', j)"
      by (auto split: if_splits)
    then show "fl_table (f\<lparr>fl_table := (fl_table f)(k := None)\<rparr>) k' = Some j"
      using none old(2) [of q] by auto
  qed (use cnt old(3,4) in \<open>auto split: if_splits\<close>)
qed (erule owners_ok_cong; force)+

lemma waiters_okI:
  assumes "\<And>q i. q \<in># P \<Longrightarrow> flight_of q = Some i \<Longrightarrow> i < fl_next f"
    and "\<And>q i. q \<in># P \<Longrightarrow> waits_for q = Some i \<Longrightarrow> i \<in> fl_settled f \<or> i \<in> ran (fl_table f)"
    and "\<And>k i p. Announces k i p \<in># P \<or> Closes k i p \<in># P \<Longrightarrow> i \<in> fl_settled f"
  shows "waiters_ok (f, P)"
  unfolding waiters_ok_def fst_conv snd_conv using assms by blast

lemma waiters_okD:
  assumes "waiters_ok (f, P)"
  shows "q \<in># P \<Longrightarrow> flight_of q = Some i \<Longrightarrow> i < fl_next f"
    and "q \<in># P \<Longrightarrow> waits_for q = Some i \<Longrightarrow> i \<in> fl_settled f \<or> i \<in> ran (fl_table f)"
    and "Announces k i p \<in># P \<or> Closes k i p \<in># P \<Longrightarrow> i \<in> fl_settled f"
  using assms unfolding waiters_ok_def fst_conv snd_conv by blast+

lemma waits_for_flight: "waits_for q = Some i \<Longrightarrow> flight_of q = Some i"
  by (cases q) auto

lemma waiters_step: "sf_step x y \<Longrightarrow> owners_ok x \<Longrightarrow> waiters_ok x \<Longrightarrow> waiters_ok y"
proof (induction rule: sf_step.induct)
  case (join f k i P)
  then show ?case
    using owners_okD(3) [OF join(2) join(1)] waiters_okD [OF join(3)]
    by (intro waiters_okI) (auto intro: ranI)
next
  case (lead f k W P)
  note old = waiters_okD [OF lead(5)]
  have W: "q = Waits (fl_next f)" if "q \<in># W" for q
    using sub_single [OF lead(3)] that by auto
  have ran: "i \<in> ran ((fl_table f)(k \<mapsto> fl_next f))" if "i \<in> ran (fl_table f)" for i
    using that lead(1) by (simp add: ran_map_upd)
  show ?case
  proof (rule waiters_okI)
    fix q i assume "q \<in># add_mset (Owns k (fl_next f) True) (W + P)" "flight_of q = Some i"
    then show "i < fl_next (f\<lparr>fl_table := (fl_table f)(k \<mapsto> fl_next f), fl_settled := fl_settled f - {fl_next f},
         fl_next := Suc (fl_next f), fl_permits := fl_permits f - 1\<rparr>)"
      by (auto dest: W old(1) intro: less_SucI)
  next
    fix q i assume "q \<in># add_mset (Owns k (fl_next f) True) (W + P)" "waits_for q = Some i"
    then show "i \<in> fl_settled (f\<lparr>fl_table := (fl_table f)(k \<mapsto> fl_next f), fl_settled := fl_settled f - {fl_next f},
         fl_next := Suc (fl_next f), fl_permits := fl_permits f - 1\<rparr>)
      \<or> i \<in> ran (fl_table (f\<lparr>fl_table := (fl_table f)(k \<mapsto> fl_next f), fl_settled := fl_settled f - {fl_next f},
         fl_next := Suc (fl_next f), fl_permits := fl_permits f - 1\<rparr>))"
      using old(1) [OF _ waits_for_flight, of q i] old(2) [of q i] by (auto dest!: W intro: ran ranI [of _ k])
  next
    fix k' i p
    assume "Announces k' i p \<in># add_mset (Owns k (fl_next f) True) (W + P)
      \<or> Closes k' i p \<in># add_mset (Owns k (fl_next f) True) (W + P)"
    then have "Announces k' i p \<in># P \<or> Closes k' i p \<in># P"
      by (auto dest: W)
    then show "i \<in> fl_settled (f\<lparr>fl_table := (fl_table f)(k \<mapsto> fl_next f), fl_settled := fl_settled f - {fl_next f},
         fl_next := Suc (fl_next f), fl_permits := fl_permits f - 1\<rparr>)"
      using old(1,3) by (fastforce dest: old(1))
  qed
next
  case (close f k i p P)
  note old = waiters_okD [OF close(2)]
  have k: "fl_table f k = Some i"
    using owners_okD(2) [OF close(1), of "Closes k i p" k i] by simp
  have "j \<in> fl_settled f \<or> j \<in> ran ((fl_table f)(k := None))" if "q \<in># P" "waits_for q = Some j" for q j
  proof (cases "j = i")
    case True
    then show ?thesis
      using old(3) [of k i p] by simp
  next
    case False
    have "j \<in> fl_settled f \<or> j \<in> ran (fl_table f)"
      by (rule old(2) [of q]) (use that in simp_all)
    moreover have "j \<in> ran ((fl_table f)(k := None))" if r: "j \<in> ran (fl_table f)"
    proof -
      obtain k' where "fl_table f k' = Some j"
        using r by (auto simp: ran_def)
      then have "((fl_table f)(k := None)) k' = Some j"
        using False k by auto
      then show ?thesis
        by (rule ranI)
    qed
    ultimately show ?thesis
      by blast
  qed
  moreover have "j \<in> fl_settled f" if "Announces k' j p' \<in># P \<or> Closes k' j p' \<in># P" for k' j p'
    using old(3) [of k' j p'] that by auto
  moreover have "j < fl_next f" if "q \<in># P" "flight_of q = Some j" for q j
    using old(1) [of q j] that by simp
  ultimately show ?case
    by (intro waiters_okI) (auto split: if_splits)
next
  case (leave q f P)
  then show ?case
    by (simp add: waiters_ok_def)
next
  case (forget P i f)
  note old = waiters_okD [OF forget(4)]
  show ?case
  proof (rule waiters_okI)
    fix q j assume "q \<in># P" "waits_for q = Some j"
    then show "j \<in> fl_settled (f\<lparr>fl_settled := fl_settled f - {i}\<rparr>) \<or> j \<in> ran (fl_table (f\<lparr>fl_settled := fl_settled f - {i}\<rparr>))"
      using old(2) forget(1) waits_for_flight by fastforce
  next
    fix k j p assume "Announces k j p \<in># P \<or> Closes k j p \<in># P"
    then show "j \<in> fl_settled (f\<lparr>fl_settled := fl_settled f - {i}\<rparr>)"
      using old(3) forget(1) by fastforce
  qed (use old(1) in auto)
qed (fastforce simp: waiters_ok_def)+

lemma wakeups_okI:
  assumes "\<And>i n. Armed i n \<in># P \<or> Sleeps i n \<in># P \<Longrightarrow> n \<le> fl_epochs f i"
    and "\<And>i n. Sleeps i n \<in># P \<Longrightarrow> i \<in> fl_settled f \<Longrightarrow> n < fl_epochs f i \<or> (\<exists>k p. Announces k i p \<in># P)"
  shows "wakeups_ok (f, P)"
  unfolding wakeups_ok_def fst_conv snd_conv using assms by blast

lemma wakeups_okD:
  assumes "wakeups_ok (f, P)"
  shows "Armed i n \<in># P \<or> Sleeps i n \<in># P \<Longrightarrow> n \<le> fl_epochs f i"
    and "Sleeps i n \<in># P \<Longrightarrow> i \<in> fl_settled f \<Longrightarrow> n < fl_epochs f i \<or> (\<exists>k p. Announces k i p \<in># P)"
  using assms unfolding wakeups_ok_def fst_conv snd_conv by blast+

text \<open>Steps that add no sleeper with an outcome and take no announcement away.\<close>

lemma wakeups_ok_cong:
  assumes "wakeups_ok (f, P)" and "fl_epochs g = fl_epochs f"
    and "\<And>i n. Armed i n \<in># Q \<or> Sleeps i n \<in># Q \<Longrightarrow> Armed i n \<in># P \<or> Sleeps i n \<in># P \<or> n = fl_epochs f i"
    and "\<And>i n. Sleeps i n \<in># Q \<Longrightarrow> i \<in> fl_settled g \<Longrightarrow>
      Sleeps i n \<in># P \<and> i \<in> fl_settled f \<or> (\<exists>k p. Announces k i p \<in># Q)"
    and "\<And>k i p. Announces k i p \<in># P \<Longrightarrow> Announces k i p \<in># Q"
  shows "wakeups_ok (g, Q)"
proof (rule wakeups_okI)
  show "n \<le> fl_epochs g i" if "Armed i n \<in># Q \<or> Sleeps i n \<in># Q" for i n
    using assms(3) [OF that] wakeups_okD(1) [OF assms(1)] assms(2) by auto
  show "n < fl_epochs g i \<or> (\<exists>k p. Announces k i p \<in># Q)" if "Sleeps i n \<in># Q" "i \<in> fl_settled g" for i n
    using assms(4) [OF that] wakeups_okD(2) [OF assms(1), of i n] assms(5) unfolding assms(2) by blast
qed

lemma wakeups_step: "sf_step x y \<Longrightarrow> wakeups_ok x \<Longrightarrow> wakeups_ok y"
proof (induction rule: sf_step.induct)
  case (lead f k W P)
  have W: "q = Waits (fl_next f)" if "q \<in># W" for q
    using sub_single [OF lead(3)] that by auto
  show ?case
    by (rule wakeups_ok_cong [OF lead(4)]) (auto dest: W)
next
  case (settle i f k p P)
  show ?case
    by (rule wakeups_ok_cong [OF settle(2)]) auto
next
  case (announce f k i p P)
  note old = wakeups_okD [OF announce]
  show ?case
  proof (rule wakeups_okI)
    fix j n
    assume "Armed j n \<in># add_mset (Closes k i p) P \<or> Sleeps j n \<in># add_mset (Closes k i p) P"
    then have "n \<le> fl_epochs f j"
      by (intro old(1)) auto
    then show "n \<le> fl_epochs (f\<lparr>fl_epochs := (fl_epochs f)(i := Suc (fl_epochs f i))\<rparr>) j"
      by auto
  next
    fix j n
    assume a: "Sleeps j n \<in># add_mset (Closes k i p) P"
      "j \<in> fl_settled (f\<lparr>fl_epochs := (fl_epochs f)(i := Suc (fl_epochs f i))\<rparr>)"
    then have "n \<le> fl_epochs f j"
      by (intro old(1)) auto
    then show "n < fl_epochs (f\<lparr>fl_epochs := (fl_epochs f)(i := Suc (fl_epochs f i))\<rparr>) j
        \<or> (\<exists>k' p'. Announces k' j p' \<in># add_mset (Closes k i p) P)"
      using old(2) [of j n] a by auto
  qed
next
  case (leave q f P)
  have "Announces k i p \<noteq> q" for k i p
    using leave(1) by auto
  then show ?case
    by (intro wakeups_ok_cong [OF leave(3)]) auto
qed (erule wakeups_ok_cong; auto split: if_splits)+

lemma awake_okD: "awake_ok (f, P) \<Longrightarrow> Armed i n \<in># P \<or> Sleeps i n \<in># P \<Longrightarrow> n < fl_epochs f i \<Longrightarrow> i \<in> fl_settled f"
  unfolding awake_ok_def fst_conv snd_conv by blast

lemma awake_ok_cong:
  assumes "awake_ok (f, P)"
    and "\<And>i n. Armed i n \<in># Q \<or> Sleeps i n \<in># Q \<Longrightarrow> n < fl_epochs g i \<Longrightarrow>
      i \<in> fl_settled g \<or> (Armed i n \<in># P \<or> Sleeps i n \<in># P) \<and> n < fl_epochs f i \<and> (i \<in> fl_settled f \<longrightarrow> i \<in> fl_settled g)"
  shows "awake_ok (g, Q)"
  unfolding awake_ok_def fst_conv snd_conv using awake_okD [OF assms(1)] assms(2) by blast

lemma awake_step: "sf_step x y \<Longrightarrow> waiters_ok x \<Longrightarrow> awake_ok x \<Longrightarrow> awake_ok y"
proof (induction rule: sf_step.induct)
  case (lead f k W P)
  have W: "q = Waits (fl_next f)" if "q \<in># W" for q
    using sub_single [OF lead(3)] that by auto
  have "i \<noteq> fl_next f" if "Armed i n \<in># P \<or> Sleeps i n \<in># P" for i n
    using waiters_okD(1) [OF lead(4), of "Armed i n" i] waiters_okD(1) [OF lead(4), of "Sleeps i n" i] that by auto
  then show ?case
    by (intro awake_ok_cong [OF lead(5)]) (auto dest: W)
next
  case (announce f k i p P)
  have "i \<in> fl_settled f"
    using waiters_okD(3) [OF announce(1), of k i p] by simp
  then show ?case
    by (intro awake_ok_cong [OF announce(2)]) (auto split: if_splits)
next
  case (forget P i f)
  have "j \<noteq> i" if "Armed j n \<in># P \<or> Sleeps j n \<in># P" for j n
    using forget(1) that by force
  then show ?case
    by (intro awake_ok_cong [OF forget(4)]) auto
qed (erule awake_ok_cong; auto split: if_splits)+

lemma sf_inv_step: "sf_step x y \<Longrightarrow> sf_inv cap x \<Longrightarrow> sf_inv cap y"
  unfolding sf_inv_def using permits_step owners_step waiters_step wakeups_step awake_step by blast

section \<open>Consequences\<close>

lemma owners_pos: "0 < owners k P \<Longrightarrow> \<exists>q\<in>#P. map_option fst (owned q) = Some k"
  by (induction P) (auto split: if_splits)

text \<open>At most one owner per key, and it owns what the table says.\<close>

lemma one_owner:
  assumes "owners_ok (f, add_mset q P)" and "owned q = Some (k, i)"
  shows "fl_table f k = Some i" and "q' \<in># P \<Longrightarrow> owned q' \<noteq> Some (k, j)"
proof -
  show k: "fl_table f k = Some i"
    using owners_okD(2) [OF assms(1), of q] assms(2) by simp
  then have "owners k P = 0"
    using owners_okD(1) [OF assms(1), of k] assms(2) by simp
  then show "q' \<in># P \<Longrightarrow> owned q' \<noteq> Some (k, j)"
    by (auto dest!: multi_member_split)
qed

lemma table_owner:
  assumes "owners_ok (f, P)" and "fl_table f k = Some i"
  obtains q where "q \<in># P" and "owned q = Some (k, i)"
proof -
  have "owners k P = 1"
    using owners_okD(1) [OF assms(1), of k] assms(2) by simp
  then obtain q where q: "q \<in># P" "map_option fst (owned q) = Some k"
    using owners_pos [of k P] by auto
  then obtain j where "owned q = Some (k, j)"
    by (cases "owned q") auto
  moreover from this have "j = i"
    using owners_okD(2) [OF assms(1) q(1)] assms(2) by simp
  ultimately show thesis
    using that q(1) by blast
qed

text \<open>An outcome stays while somebody refers to its flight.\<close>

lemma settled_stays:
  assumes "sf_step (f, P) (g, Q)" and "waiters_ok (f, P)" and "q \<in># P" and "flight_of q = Some i" and "i \<in> fl_settled f"
  shows "i \<in> fl_settled g"
  using assms(1)
proof cases
  case (lead k W)
  then show ?thesis
    using waiters_okD(1) [OF assms(2-4)] assms(5) by auto
next
  case (forget j)
  then show ?thesis
    using assms(3-5) by auto
qed (use assms(5) in auto)

text \<open>
  Nobody waits for nothing: a sleeper can wake up, or its flight is owned by somebody who will give it an
  outcome or wake it.
\<close>

lemma sleeper_progress:
  assumes "sf_inv cap (f, P)" and "Sleeps i n \<in># P"
  shows "n < fl_epochs f i \<or> (\<exists>q\<in>#P. \<exists>k. owned q = Some (k, i))"
proof (cases "i \<in> fl_settled f")
  case True
  have "wakeups_ok (f, P)"
    using assms(1) by (simp add: sf_inv_def)
  from wakeups_okD(2) [OF this assms(2) True] show ?thesis
    by force
next
  case False
  have w: "waiters_ok (f, P)" and ow: "owners_ok (f, P)"
    using assms(1) by (simp_all add: sf_inv_def)
  obtain k where "fl_table f k = Some i"
    using waiters_okD(2) [OF w assms(2)] False by (auto simp: ran_def)
  then show ?thesis
    using table_owner [OF ow] by metis
qed

section \<open>Implementations\<close>

text \<open>
  What a concurrent program promises when it implements the table: every step of it is a step of the
  machine or does not concern it.  Then every state it reaches satisfies the invariants.
\<close>

locale single_flight_program =
  fixes conc_init :: "nat \<Rightarrow> 'c \<Rightarrow> bool"
    and conc_step :: "'c \<Rightarrow> 'c \<Rightarrow> bool"
    and view_of :: "'c \<Rightarrow> sf_state"
  assumes init_simulates: "conc_init cap x \<Longrightarrow> sf_init cap (view_of x)"
    and step_simulates: "conc_step x y \<Longrightarrow> view_of x = view_of y \<or> sf_step (view_of x) (view_of y)"
begin

lemma run_inv:
  assumes "conc_init cap x" and "conc_step\<^sup>*\<^sup>* x y"
  shows "sf_inv cap (view_of y)"
  using assms(2)
proof (induction rule: rtranclp_induct)
  case base
  then show ?case
    using sf_init_inv [OF init_simulates [OF assms(1)]] .
next
  case (step y z)
  then show ?case
    using step_simulates [OF step(2)] sf_inv_step by metis
qed

end

end
