(* ===== verification/Flights.thy ===== *)
theory Flights
  imports Proxy SingleFlight
begin

text \<open>
  The proxy as concurrent tasks: \<^verbatim>\<open>handle_artifact\<close>, \<^verbatim>\<open>handle_metadata\<close>, \<^verbatim>\<open>run_artifact_fetch\<close>,
  \<^verbatim>\<open>run_metadata_fetch\<close>, \<^verbatim>\<open>serve_inflight\<close> of \<^verbatim>\<open>src/proxy.rs\<close> and \<^verbatim>\<open>wait_for_outcome\<close>, the janitor and the
  drop guards, cut where another task may run in between: at the acquisition of a lock and between
  storing an outcome and waking the waiters.  A task is the rest of its program; a step of the system
  advances one task, cancels one (its future is dropped), admits a new request, or frees what nothing
  refers to any more.  The tasks are the calls that use the table; a fetch is one step of its task.  The
  requests that do not use it, and the points of a fetch, are in \<open>Jobs\<close>.

  \<^verbatim>\<open>Notify\<close> is an epoch per flight: \<^verbatim>\<open>notified()\<close> remembers the epoch, \<^verbatim>\<open>notify_waiters\<close> advances it, and
  awaiting is over as soon as the epoch has advanced, which is what the crate documents for a
  \<^verbatim>\<open>Notified\<close> future created before the call.
\<close>

section \<open>Tasks\<close>

record call =
  call_artifact :: bool
  call_head :: bool
  call_upstream :: url
  call_type :: string
  call_rewrite :: metadata_rewrite
  call_key :: string

definition artifact_call :: "env \<Rightarrow> url \<Rightarrow> string \<Rightarrow> call" where
  "artifact_call E upstream upstream_type =
     \<lparr>call_artifact = True, call_head = False, call_upstream = upstream, call_type = upstream_type,
      call_rewrite = RewriteNone, call_key = artifact_key (env_digest E) (lib_as_str (env_url E) upstream)\<rparr>"

definition metadata_call :: "env \<Rightarrow> bool \<Rightarrow> url \<Rightarrow> string \<Rightarrow> metadata_rewrite \<Rightarrow> call" where
  "metadata_call E head upstream upstream_type rewrite =
     \<lparr>call_artifact = False, call_head = head, call_upstream = upstream, call_type = upstream_type,
      call_rewrite = rewrite,
      call_key = metadata_key (env_digest E) (lib_as_str (env_url E) upstream) (cache_identity rewrite)\<rparr>"

text \<open>The calls the handlers make: the key belongs to the upstream.\<close>

definition made_by :: "env \<Rightarrow> call \<Rightarrow> bool" where
  "made_by E c \<longleftrightarrow>
     c = (if call_artifact c then artifact_call E (call_upstream c) (call_type c)
          else metadata_call E (call_head c) (call_upstream c) (call_type c) (call_rewrite c))"

text \<open>
  Who ends a flight: its leader, with the answer it owes its own client (a spawned artifact fetch owes
  none), or the guard of a cancelled leader.
\<close>

datatype role = Leader "response io_result option" | Guard

datatype task =
    Arrived call
  | Loading call
  | MakingShard call
  | Leading call
  | Arming call nat
  | Checking call nat nat
  | Sleeping call nat nat
  | Serving call nat inflight_outcome
  | Fetching call nat
  | Completing call nat inflight_outcome role
  | Notifying call nat role
  | Finishing call nat role
  | Releasing call nat "response io_result option"
  | Cleaning call nat
  | Done "nat option" "response io_result"

record system =
  sys_app :: app
  sys_epochs :: "nat \<Rightarrow> nat"
  sys_held :: "nat \<Rightarrow> reservation"

definition the_store :: "system \<Rightarrow> store" where
  "the_store s = app_store (sys_app s)"

definition with_store :: "(store \<Rightarrow> store) \<Rightarrow> system \<Rightarrow> system" where
  "with_store f s = s\<lparr>sys_app := on_app_store f (sys_app s)\<rparr>"

definition run_app :: "(app \<Rightarrow> 'r \<times> app) \<Rightarrow> system \<Rightarrow> 'r \<times> system" where
  "run_app m s = (case m (sys_app s) of (r, a) \<Rightarrow> (r, s\<lparr>sys_app := a\<rparr>))"

section \<open>Steps of a task\<close>

definition start_task :: "call \<Rightarrow> task" where
  "start_task c = (if call_artifact c then Arrived c else Leading c)"

text \<open>\<^verbatim>\<open>handle_metadata_head\<close> drops the body of the answer.\<close>

definition answer :: "call \<Rightarrow> response io_result \<Rightarrow> response io_result" where
  "answer c r = (if call_head c then map_sum id response_without_body r else r)"

definition count_join :: "call \<Rightarrow> system \<Rightarrow> system" where
  "count_join c s =
     (if call_artifact c
      then snd (run_app (count_event (record_artifact_join (call_type c))) s) else s)"

definition leader_of :: "call \<Rightarrow> nat \<Rightarrow> artifact_leader" where
  "leader_of c i = \<lparr>al_inflight = i, al_key = call_key c, al_paths = paths_for (call_key c)\<rparr>"

definition step_arrived :: "call \<Rightarrow> system \<Rightarrow> task list \<times> system" where
  "step_arrived c s =
     (case st_inflight (the_store s) (call_key c) of
        Some i \<Rightarrow> ([Arming c i], count_join c s)
      | None \<Rightarrow> ([Loading c], s))"

definition step_loading :: "env \<Rightarrow> call \<Rightarrow> system \<Rightarrow> task list \<times> system" where
  "step_loading E c s =
     (case run_app (on_store (load (env_codec E) (call_key c))) s of
        (Inl e, t) \<Rightarrow> ([Done None (Inl e)], t)
      | (Inr None, t) \<Rightarrow> ([MakingShard c], t)
      | (Inr (Some entry), t) \<Rightarrow>
          (case run_app (on_files (file_response (env_http E) entry)) t of
             (r, u) \<Rightarrow> ([Done None r], u)))"

definition step_making_shard :: "call \<Rightarrow> system \<Rightarrow> task list \<times> system" where
  "step_making_shard c s =
     (case run_app (on_store (make_shard (call_key c))) s of
        (Inl e, t) \<Rightarrow> ([Done None (Inl e)], t)
      | (Inr _, t) \<Rightarrow> ([Leading c], t))"

definition step_leading :: "call \<Rightarrow> system \<Rightarrow> task list \<times> system" where
  "step_leading c s =
     (case run_app (on_store (join_or_lead (call_key c))) s of
        (Inl e, t) \<Rightarrow> ([Done None (answer c (Inl e))], t)
      | (Inr (Inl i), t) \<Rightarrow> ([Arming c i], count_join c t)
      | (Inr (Inr i), t) \<Rightarrow> (if call_artifact c then [Arming c i, Fetching c i] else [Fetching c i], t))"

text \<open>One turn of the loop of \<^verbatim>\<open>wait_for_outcome\<close>: create the future, look, and sleep if there is nothing.\<close>

definition clone_outcome :: "inflight_outcome \<Rightarrow> store \<Rightarrow> store" where
  "clone_outcome outcome = (case outcome of Cached p \<Rightarrow> clone_published p | _ \<Rightarrow> id)"

definition step_checking :: "call \<Rightarrow> nat \<Rightarrow> nat \<Rightarrow> system \<Rightarrow> task list \<times> system" where
  "step_checking c i n s =
     (case st_outcomes (the_store s) i of
        Some outcome \<Rightarrow> ([Serving c i outcome], with_store (clone_outcome outcome) s)
      | None \<Rightarrow> ([Sleeping c i n], s))"

definition step_serving :: "env \<Rightarrow> call \<Rightarrow> nat \<Rightarrow> inflight_outcome \<Rightarrow> system \<Rightarrow> task list \<times> system" where
  "step_serving E c i outcome s =
     (if call_artifact c
      then
        (case run_app (serve_outcome E (call_key c) outcome) s of
           (r, t) \<Rightarrow> ([Done (Some i) r], with_store (drop_outcome outcome) t))
      else ([Done (Some i) (answer c (serve_metadata_outcome E outcome))], with_store (drop_outcome outcome) s))"

definition step_fetching :: "env \<Rightarrow> network \<Rightarrow> call \<Rightarrow> nat \<Rightarrow> system \<Rightarrow> task list \<times> system" where
  "step_fetching E net c i s =
     (if call_artifact c
      then
        (case run_app (artifact_fetch_phase E net (call_upstream c) (call_type c) (leader_of c i)) s of
           (r, t) \<Rightarrow> ([Completing c i (artifact_outcome r) (Leader None)], t))
      else
        (case run_app (metadata_fetch_phase E net (call_upstream c) (call_type c) (call_rewrite c)
                         \<lparr>ml_inflight = i, ml_key = call_key c\<rparr>) s of
           (r, t) \<Rightarrow>
             ([Completing c i (metadata_outcome r) (Leader (Some (answer c (metadata_reply E r))))],
              t\<lparr>sys_held := (sys_held t)(i := (case r of Inr (_, res) \<Rightarrow> res | Inl _ \<Rightarrow> None))\<rparr>)))"

definition step_completing :: "call \<Rightarrow> nat \<Rightarrow> inflight_outcome \<Rightarrow> role \<Rightarrow> system \<Rightarrow> task list \<times> system" where
  "step_completing c i outcome r s =
     (case complete i outcome (the_store s) of
        (notify, t) \<Rightarrow> ([if notify then Notifying c i r else Finishing c i r], with_store (\<lambda>_. t) s))"

definition step_notifying :: "call \<Rightarrow> nat \<Rightarrow> role \<Rightarrow> system \<Rightarrow> task list \<times> system" where
  "step_notifying c i r s =
     ([Finishing c i r], s\<lparr>sys_epochs := (sys_epochs s)(i := Suc (sys_epochs s i))\<rparr>)"

definition step_finishing :: "call \<Rightarrow> nat \<Rightarrow> role \<Rightarrow> system \<Rightarrow> task list \<times> system" where
  "step_finishing c i r s =
     (case r of Leader reply \<Rightarrow> [Releasing c i reply] | Guard \<Rightarrow> [], with_store (finish_inflight (call_key c)) s)"

definition step_releasing :: "call \<Rightarrow> nat \<Rightarrow> response io_result option \<Rightarrow> system \<Rightarrow> task list \<times> system" where
  "step_releasing c i reply s =
     (case reply of None \<Rightarrow> [] | Some r \<Rightarrow> [Done (Some i) r], with_store release_upstream_permit s)"

definition cancelled_message :: "call \<Rightarrow> string" where
  "cancelled_message c =
     (if call_artifact c then ''artifact fetch cancelled'' else ''metadata fetch cancelled'')"

definition step_cleaning :: "call \<Rightarrow> nat \<Rightarrow> system \<Rightarrow> task list \<times> system" where
  "step_cleaning c i s =
     ([Completing c i (Failed Interrupted (cancelled_message c)) Guard],
      if call_artifact c
      then snd (run_app (on_files (remove_file (paths_temp (paths_for (call_key c))))) s)
      else s)"

text \<open>\<open>None\<close> is a task that waits, or that is done.\<close>

fun advance :: "env \<Rightarrow> network \<Rightarrow> task \<Rightarrow> system \<Rightarrow> (task list \<times> system) option" where
  "advance E net (Arrived c) s = Some (step_arrived c s)"
| "advance E net (Loading c) s = Some (step_loading E c s)"
| "advance E net (MakingShard c) s = Some (step_making_shard c s)"
| "advance E net (Leading c) s = Some (step_leading c s)"
| "advance E net (Arming c i) s = Some ([Checking c i (sys_epochs s i)], s)"
| "advance E net (Checking c i n) s = Some (step_checking c i n s)"
| "advance E net (Sleeping c i n) s = (if n < sys_epochs s i then Some ([Arming c i], s) else None)"
| "advance E net (Serving c i outcome) s = Some (step_serving E c i outcome s)"
| "advance E net (Fetching c i) s = Some (step_fetching E net c i s)"
| "advance E net (Completing c i outcome r) s = Some (step_completing c i outcome r s)"
| "advance E net (Notifying c i r) s = Some (step_notifying c i r s)"
| "advance E net (Finishing c i r) s = Some (step_finishing c i r s)"
| "advance E net (Releasing c i reply) s = Some (step_releasing c i reply s)"
| "advance E net (Cleaning c i) s = Some (step_cleaning c i s)"
| "advance E net (Done i r) s = None"

text \<open>
  Dropping the future of a task at an await point.  A leader's guard spawns the cleanup, and its permit
  is returned; with an outcome that nobody saw, the memory of its body is freed.  A waiter's clone of the
  outcome is dropped.  Between storing an outcome and waking the waiters, and after leaving the table,
  there is no await point.
\<close>

definition abandon_fetched :: "nat \<Rightarrow> inflight_outcome \<Rightarrow> system \<Rightarrow> system" where
  "abandon_fetched i outcome s =
     (with_store (release_upstream_permit \<circ> (release_reservation (sys_held s i) \<circ> drop_outcome outcome)) s)
       \<lparr>sys_held := (sys_held s)(i := None)\<rparr>"

fun cancel :: "task \<Rightarrow> system \<Rightarrow> (task list \<times> system) option" where
  "cancel (Fetching c i) s = Some ([Cleaning c i], with_store release_upstream_permit s)"
| "cancel (Completing c i outcome (Leader reply)) s =
     Some ([Cleaning c i], abandon_fetched i outcome s)"
| "cancel (Completing c i outcome Guard) s = None"
| "cancel (Finishing c i (Leader reply)) s = Some ([Cleaning c i], with_store release_upstream_permit s)"
| "cancel (Finishing c i Guard) s = None"
| "cancel (Notifying c i r) s = None"
| "cancel (Releasing c i reply) s = None"
| "cancel (Cleaning c i) s = None"
| "cancel (Serving c i outcome) s = Some ([], with_store (drop_outcome outcome) s)"
| "cancel (Arrived c) s = Some ([], s)"
| "cancel (Loading c) s = Some ([], s)"
| "cancel (MakingShard c) s = Some ([], s)"
| "cancel (Leading c) s = Some ([], s)"
| "cancel (Arming c i) s = Some ([], s)"
| "cancel (Checking c i n) s = Some ([], s)"
| "cancel (Sleeping c i n) s = Some ([], s)"
| "cancel (Done i r) s = Some ([], s)"

section \<open>The system\<close>

text \<open>The flight a task has an \<^verbatim>\<open>Arc\<close> of, or a body that belongs to it.\<close>

fun refers :: "task \<Rightarrow> nat option" where
  "refers (Arming c i) = Some i"
| "refers (Checking c i n) = Some i"
| "refers (Sleeping c i n) = Some i"
| "refers (Serving c i outcome) = Some i"
| "refers (Fetching c i) = Some i"
| "refers (Completing c i outcome r) = Some i"
| "refers (Notifying c i r) = Some i"
| "refers (Finishing c i r) = Some i"
| "refers (Releasing c i reply) = Some i"
| "refers (Cleaning c i) = Some i"
| "refers (Done i r) = i"
| "refers _ = None"

text \<open>The last owner of a flight is gone: its outcome and the memory its body holds are freed.\<close>

definition reap :: "nat \<Rightarrow> system \<Rightarrow> system" where
  "reap i s =
     (case st_outcomes (the_store s) i of
        None \<Rightarrow> s
      | Some outcome \<Rightarrow>
          (with_store (release_reservation (sys_held s i) \<circ> drop_outcome outcome
             \<circ> (\<lambda>t. t\<lparr>st_outcomes := (st_outcomes t)(i := None)\<rparr>)) s)\<lparr>sys_held := (sys_held s)(i := None)\<rparr>)"

text \<open>The janitor takes everything from its queue and evicts once; an error is ignored.\<close>

definition janitor :: "system \<Rightarrow> system" where
  "janitor s = with_store (\<lambda>t. snd (evict_files_to_bound (t\<lparr>st_janitor_queue := 0\<rparr>))) s"

text \<open>
  What happens to the files on its own: the background thread of a file that was dropped writes what is
  pending (or fails after some of it, which nobody learns), and time passes.
\<close>

definition background_write :: "nat \<Rightarrow> nat \<Rightarrow> system \<Rightarrow> system" where
  "background_write n i = with_store (\<lambda>t. t\<lparr>st_fs := settle_partly n i (st_fs t)\<rparr>)"

definition tick :: "system \<Rightarrow> system" where
  "tick = with_store (\<lambda>t. t\<lparr>st_fs := (st_fs t)\<lparr>fs_clock := Suc (fs_clock (st_fs t))\<rparr>\<rparr>)"

type_synonym configuration = "system \<times> task multiset"

inductive run_step :: "env \<Rightarrow> configuration \<Rightarrow> configuration \<Rightarrow> bool" for E where
  run: "advance E net t s = Some (ts, s') \<Longrightarrow> run_step E (s, add_mset t M) (s', mset ts + M)"

inductive_cases run_stepE: "run_step E (s, M) (s', M')"

inductive step :: "env \<Rightarrow> configuration \<Rightarrow> configuration \<Rightarrow> bool" for E where
  running: "run_step E x y \<Longrightarrow> step E x y"
| cancelling: "cancel t s = Some (ts, s') \<Longrightarrow> step E (s, add_mset t M) (s', mset ts + M)"
| admitting: "made_by E c \<Longrightarrow> step E (s, M) (s, add_mset (start_task c) M)"
| reaping: "\<forall>t\<in>#M. refers t \<noteq> Some i \<Longrightarrow> i \<notin> ran (st_inflight (the_store s)) \<Longrightarrow> step E (s, M) (reap i s, M)"
| evicting: "0 < st_janitor_queue (the_store s) \<Longrightarrow> step E (s, M) (janitor s, M)"
| settling: "fs_pending (st_fs (the_store s)) i \<noteq> [] \<Longrightarrow> step E (s, M) (background_write n i s, M)"
| ticking: "step E (s, M) (tick s, M)"

definition initial :: "store \<Rightarrow> system" where
  "initial t = \<lparr>sys_app = \<lparr>app_store = t, app_stats = default_stats\<rparr>, sys_epochs = (\<lambda>_. 0), sys_held = (\<lambda>_. None)\<rparr>"

text \<open>What the system can reach from a store as \<^verbatim>\<open>CacheStore::new\<close> leaves it, without any task.\<close>

inductive reachable :: "env \<Rightarrow> nat \<Rightarrow> configuration \<Rightarrow> bool" for E cap where
  start: "st_inflight t = Map.empty \<Longrightarrow> st_upstream_permits t = cap \<Longrightarrow> reachable E cap (initial t, {#})"
| steps: "reachable E cap x \<Longrightarrow> step E x y \<Longrightarrow> reachable E cap y"

section \<open>What the fetches leave alone\<close>

definition app_table :: "app \<Rightarrow> (string \<rightharpoonup> nat) \<times> (nat \<Rightarrow> inflight_outcome option) \<times> nat \<times> nat" where
  "app_table a = table (app_store a)"

text \<open>The table with the memory permits.\<close>

definition app_tables ::
  "app \<Rightarrow> ((string \<rightharpoonup> nat) \<times> (nat \<Rightarrow> inflight_outcome option) \<times> nat \<times> nat) \<times> nat" where
  "app_tables a = tables (app_store a)"

lemma still_app_tables:
  assumes "still app_tables m"
  shows "still app_table m" and "still memory m"
  using still_comp [OF assms, of fst] still_comp [OF assms, of snd]
  by (simp_all add: app_tables_def tables_def app_table_def [abs_def] memory_def [abs_def])

lemma still_tables_store [intro]: "still tables m \<Longrightarrow> still app_tables (on_store m)"
  using still_on_store [of tables m] by (simp add: app_tables_def [abs_def])

lemma still_tables_files [intro, simp]: "still app_tables (on_files m)"
  unfolding on_files_def by (intro still_tables_store still_on_fs)

lemma still_tables_count [intro, simp]: "still app_tables (count_event f)"
  by (simp add: still_def count_event_def app_tables_def)

lemmas still_app_store [intro] = still_tables_store [THEN still_app_tables(1)]
  and still_app_files [intro, simp] = still_tables_files [THEN still_app_tables(1)]
  and still_app_count [intro, simp] = still_tables_count [THEN still_app_tables(1)]

abbreviation pair_table :: "app \<times> reservation \<Rightarrow> (string \<rightharpoonup> nat) \<times> (nat \<Rightarrow> inflight_outcome option) \<times> nat \<times> nat" where
  "pair_table p \<equiv> app_table (fst p)"

lemma still_pair_reserve [intro, simp]: "still pair_table (reserve_more n)"
  by (rule stillI) (auto simp: reserve_more_def reserve_unfold app_table_def table_def split: prod.split)

lemma still_pair_app [intro]: "still app_table m \<Longrightarrow> still pair_table (on_app m)"
  by (rule still_on_app)

lemma still_pair_body [intro, simp]: "still pair_table (read_metadata_body resp)"
proof -
  have "still pair_table (read_metadata_chunks cs body)" for cs body
    by (induction cs arbitrary: body) (auto intro!: still_bind)
  then show ?thesis
    unfolding read_metadata_body_def Let_def by (intro still_bind still_lift still_pair_reserve)
qed

lemma still_with_reservation [intro]: "still pair_table m \<Longrightarrow> still app_table (with_reservation m)"
proof (rule stillI)
  fix a assume m: "still pair_table m"
  obtain x b r where run: "m (a, None) = (x, (b, r))"
    by (metis prod.collapse)
  then have "app_table b = app_table a"
    using stillD [OF m run] by simp
  moreover have "app_table (drop_reservation r b) = app_table b"
    by (simp add: app_table_def drop_reservation_def release_reservation_def table_def)
  ultimately show "app_table (snd (with_reservation m a)) = app_table a"
    using run by (simp add: with_reservation_def split: sum.split)
qed

lemma still_metadata_phase [intro, simp]: "still app_table (metadata_fetch_phase E net u ty rw leader)"
proof -
  have "still pair_table (finish_metadata E rw key resp)" for key resp
    unfolding finish_metadata_def conclude_metadata_def Let_def
    by (intro still_bind still_lift still_pair_reserve still_pair_body)
      (auto intro!: still_bind still_pair_app still_app_store)
  moreover have "still pair_table (serve_stored e)" for e
    unfolding serve_stored_def by (intro still_bind still_return still_pair_reserve still_pair_app still_app_store still_on_fs)
  ultimately have "still app_table (do_metadata_fetch E net u ty rw entry key)" for entry key
    unfolding do_metadata_fetch_def Let_def
    by (intro still_bind still_lift still_app_count still_with_reservation) (auto split: option.split bool.split)
  then show ?thesis
    unfolding metadata_fetch_phase_def by (intro still_bind still_app_store still_load)
qed

lemma still_stage:
  assumes "still f m" and "\<And>x. still f (k x)"
  shows "still f (stage name m k)"
proof (rule stillI)
  fix s
  obtain r t where "m s = (r, t)"
    by force
  with stillD [OF assms(1) this] assms(2) show "f (snd (stage name m k s)) = f s"
    by (cases r) (simp_all add: stage_def still_def)
qed

lemma still_staged_bind:
  assumes "still f m" and "\<And>x. still f (k x)"
  shows "still f (staged_bind m k)"
proof (rule stillI)
  fix s
  obtain r t where "m s = (r, t)"
    by force
  with stillD [OF assms(1) this] assms(2) show "f (snd (staged_bind m k s)) = f s"
    by (cases r) (simp_all add: staged_bind_def still_def)
qed

lemma still_pure: "still f (\<lambda>s. (x, s))"
  by (simp add: still_def)

lemma still_if: "still f m \<Longrightarrow> still f m' \<Longrightarrow> still f (if c then m else m')"
  by simp

lemma still_artifact_tables: "still app_tables (artifact_fetch_phase E net u ty leader)"
proof -
  have "still app_tables (download i cs n)" for i cs n
    by (induction cs arbitrary: n) (auto intro!: still_stage still_pure)
  then have fetch: "still app_tables (do_artifact_fetch E net u ty leader)"
    unfolding do_artifact_fetch_def Let_def
    by (intro still_stage still_staged_bind still_lift still_tables_count still_if still_pure still_tables_files
        still_tables_store still_commit_artifact)
  show ?thesis
  proof (rule stillI)
    fix a
    obtain r b where b: "do_artifact_fetch E net u ty leader a = (r, b)"
      by force
    with stillD [OF fetch b]
    show "app_tables (snd (artifact_fetch_phase E net u ty leader a)) = app_tables a"
      by (cases r) (simp_all add: artifact_fetch_phase_def still_snd [OF still_tables_files])
  qed
qed

lemma still_serve_tables: "still app_tables (serve_outcome E key q)"
  unfolding serve_outcome_def
  by (cases q) (auto intro!: still_bind still_tables_store split: option.split)

lemmas still_artifact_phase [intro, simp] = still_artifact_tables [THEN still_app_tables(1)]
  and still_serve_outcome [intro, simp] = still_serve_tables [THEN still_app_tables(1)]

section \<open>The simulation\<close>

fun is_leader :: "role \<Rightarrow> bool" where
  "is_leader (Leader reply) = True"
| "is_leader Guard = False"

text \<open>What a task is to the in-flight table.\<close>

fun phase_of :: "task \<Rightarrow> phase multiset" where
  "phase_of (Arming c i) = {#Waits i#}"
| "phase_of (Checking c i n) = {#Armed i n#}"
| "phase_of (Sleeping c i n) = {#Sleeps i n#}"
| "phase_of (Fetching c i) = {#Owns (call_key c) i True#}"
| "phase_of (Completing c i outcome r) = {#Owns (call_key c) i (is_leader r)#}"
| "phase_of (Cleaning c i) = {#Owns (call_key c) i False#}"
| "phase_of (Notifying c i r) = {#Announces (call_key c) i (is_leader r)#}"
| "phase_of (Finishing c i r) = {#Closes (call_key c) i (is_leader r)#}"
| "phase_of (Releasing c i reply) = {#Holds#}"
| "phase_of _ = {#}"

definition phases :: "task multiset \<Rightarrow> phase multiset" where
  "phases M = (\<Sum>t\<in>#M. phase_of t)"

definition flights_of :: "system \<Rightarrow> flights" where
  "flights_of s =
     \<lparr>fl_table = st_inflight (the_store s), fl_settled = dom (st_outcomes (the_store s)),
      fl_next = st_next_inflight (the_store s), fl_permits = st_upstream_permits (the_store s),
      fl_epochs = sys_epochs s\<rparr>"

definition view_of :: "configuration \<Rightarrow> sf_state" where
  "view_of x = (flights_of (fst x), phases (snd x))"

lemma phases_simps [simp]:
  "phases {#} = {#}" "phases (M + N) = phases M + phases N" "phases (add_mset t M) = phase_of t + phases M"
  by (simp_all add: phases_def)

lemma phases_in: "q \<in># phases M \<Longrightarrow> \<exists>t\<in>#M. q \<in># phase_of t"
  by (induction M) auto

lemma phase_refers: "q \<in># phase_of t \<Longrightarrow> flight_of q = Some i \<Longrightarrow> refers t = Some i"
  by (cases t) auto

subsection \<open>The table part of a state\<close>

named_theorems table_simps \<open>the table part of a state after an operation\<close>

lemma flights_of_cong:
  "app_table (sys_app t) = app_table (sys_app s) \<Longrightarrow> sys_epochs t = sys_epochs s \<Longrightarrow> flights_of t = flights_of s"
  by (simp add: flights_of_def app_table_def table_def the_store_def)

lemma flights_sel [simp]:
  "fl_table (flights_of s) = st_inflight (the_store s)"
  "i \<in> fl_settled (flights_of s) \<longleftrightarrow> st_outcomes (the_store s) i \<noteq> None"
  "fl_next (flights_of s) = st_next_inflight (the_store s)"
  "fl_permits (flights_of s) = st_upstream_permits (the_store s)"
  "fl_epochs (flights_of s) = sys_epochs s"
  by (auto simp: flights_of_def)

lemma run_app_flights: "still app_table m \<Longrightarrow> run_app m s = (r, t) \<Longrightarrow> flights_of t = flights_of s"
  by (rule flights_of_cong) (auto simp: run_app_def dest: stillD split: prod.splits)

lemma with_store_simps [table_simps]:
  "the_store (with_store f s) = f (the_store s)" "sys_epochs (with_store f s) = sys_epochs s"
  by (simp_all add: with_store_def the_store_def on_app_store_def)

lemma with_store_flights:
  "table (f (the_store s)) = table (the_store s) \<Longrightarrow> flights_of (with_store f s) = flights_of s"
  by (simp add: flights_of_def table_def table_simps)

lemma held_flights [table_simps]: "flights_of (s\<lparr>sys_held := h\<rparr>) = flights_of s"
  by (simp add: flights_of_def the_store_def)

lemma clone_outcome_table [table_simps]: "table (clone_outcome q s) = table s"
  by (cases q) (simp_all add: clone_outcome_def clone_published_def table_def)

lemma drop_outcome_table [table_simps]: "table (drop_outcome q s) = table s"
  by (simp add: table_def flight_simps)

lemma count_join_flights [table_simps]: "flights_of (count_join c s) = flights_of s"
  by (auto simp: count_join_def intro!: run_app_flights [OF still_app_count] prod_eqI)

text \<open>Every step of a task is a step of the machine, or does not concern it.\<close>

definition simulated :: "task \<Rightarrow> system \<Rightarrow> task list \<times> system \<Rightarrow> bool" where
  "simulated t s r \<longleftrightarrow>
     (\<forall>M. let x = view_of (s, add_mset t M); y = view_of (snd r, mset (fst r) + M) in x = y \<or> sf_step x y)"

lemma simulated_same:
  "phase_of t = phases (mset ts) \<Longrightarrow> flights_of s' = flights_of s \<Longrightarrow> simulated t s (ts, s')"
  by (simp add: simulated_def view_of_def)

lemma simulated_step:
  "(\<And>P. sf_step (flights_of s, phase_of t + P) (flights_of s', phases (mset ts) + P)) \<Longrightarrow> simulated t s (ts, s')"
  by (simp add: simulated_def view_of_def)

lemma simulated_joins:
  assumes "st_inflight (the_store s) k = Some i" and "flights_of s' = flights_of s" and "phase_of t = {#}"
  shows "simulated t s ([Arming c i], s')"
  using sf_step.join [of "flights_of s" k i] assms by (intro simulated_step) (simp add: flights_of_def)

lemma simulated_leading: "simulated (Leading c) s (step_leading c s)"
proof -
  let ?t = "the_store s"
  let ?new = "?t\<lparr>st_upstream_permits := st_upstream_permits ?t - 1,
      st_inflight := (st_inflight ?t)(call_key c \<mapsto> st_next_inflight ?t),
      st_outcomes := (st_outcomes ?t)(st_next_inflight ?t := None),
      st_next_inflight := Suc (st_next_inflight ?t)\<rparr>"
  let ?s = "s\<lparr>sys_app := (sys_app s)\<lparr>app_store := ?new\<rparr>\<rparr>"
  have run: "run_app (on_store (join_or_lead (call_key c))) s =
      (case st_inflight ?t (call_key c) of
         Some i \<Rightarrow> (Inr (Inl i), s)
       | None \<Rightarrow>
           if st_upstream_permits ?t = 0 then (Inl (IoError WouldBlock ''upstream capacity exhausted''), s)
           else (Inr (Inr (st_next_inflight ?t)), ?s))"
    by (simp add: run_app_def io_simps join_or_lead_run the_store_def split: option.split)
  show ?thesis
  proof (cases "st_inflight ?t (call_key c)")
    case (Some i)
    then show ?thesis
      using run by (simp add: step_leading_def simulated_joins [OF Some] table_simps)
  next
    case None
    have "sf_step (flights_of s, P) (flights_of ?s, add_mset (Owns (call_key c) (st_next_inflight ?t) True) (W + P))"
      if "st_upstream_permits ?t \<noteq> 0" "W \<subseteq># {#Waits (st_next_inflight ?t)#}" for W P
      using sf_step.lead [of "flights_of s" "call_key c" W P] None that by (simp add: flights_of_def the_store_def)
    note lead = this [of "{#Waits (st_next_inflight ?t)#}"] this [of "{#}"]
    show ?thesis
    proof (cases "st_upstream_permits ?t = 0")
      case True
      then show ?thesis
        using None run by (simp add: step_leading_def simulated_same)
    next
      case False
      then show ?thesis
        using None run lead by (simp add: step_leading_def add_mset_commute simulated_step)
    qed
  qed
qed

lemma simulated_checking: "simulated (Checking c i n) s (step_checking c i n s)"
proof (cases "st_outcomes (the_store s) i")
  case None
  then show ?thesis
    using sf_step.sleep [of i "flights_of s"] by (simp add: step_checking_def simulated_step)
next
  case (Some q)
  then have "flights_of (with_store (clone_outcome q) s) = flights_of s"
    by (auto intro!: with_store_flights simp: table_simps)
  then show ?thesis
    using sf_step.see [of i "flights_of s"] Some by (simp add: step_checking_def simulated_step)
qed

lemma simulated_completing: "simulated (Completing c i q r) s (step_completing c i q r s)"
proof (cases "st_outcomes (the_store s) i")
  case None
  then have "complete i q (the_store s) = (True, (the_store s)\<lparr>st_outcomes := (st_outcomes (the_store s))(i \<mapsto> q)\<rparr>)"
    by (simp add: complete_def)
  moreover have "flights_of (with_store (\<lambda>_. (the_store s)\<lparr>st_outcomes := (st_outcomes (the_store s))(i \<mapsto> q)\<rparr>) s) =
      (flights_of s)\<lparr>fl_settled := insert i (fl_settled (flights_of s))\<rparr>"
    by (simp add: flights_of_def table_simps)
  ultimately show ?thesis
    using sf_step.settle [of i "flights_of s" "call_key c"] None
    by (simp add: step_completing_def simulated_step)
next
  case (Some q')
  then have "complete i q (the_store s) = (False, drop_outcome q (the_store s))"
    by (simp add: complete_def)
  moreover have "flights_of (with_store (\<lambda>_. drop_outcome q (the_store s)) s) = flights_of s"
    by (intro with_store_flights) (simp add: table_simps)
  ultimately show ?thesis
    using sf_step.settled [of i "flights_of s" "call_key c"] Some
    by (simp add: step_completing_def simulated_step)
qed

lemma run_app_cases:
  assumes "still app_table m"
  obtains r t where "run_app m s = (r, t)" and "flights_of t = flights_of s"
  using run_app_flights [OF assms] by (metis surj_pair)

lemma simulated_loading: "simulated (Loading c) s (step_loading E c s)"
proof -
  obtain r t where t: "run_app (on_store (load (env_codec E) (call_key c))) s = (r, t)" "flights_of t = flights_of s"
    using still_app_store [OF still_load] by (rule run_app_cases)
  show ?thesis
  proof (cases r)
    case (Inr hit)
    obtain r' u where "run_app (on_files (file_response (env_http E) (the hit))) t = (r', u)" "flights_of u = flights_of t"
      using still_app_files by (rule run_app_cases)
    then show ?thesis
      using t Inr by (cases hit) (simp_all add: step_loading_def simulated_same)
  qed (use t in \<open>simp add: step_loading_def simulated_same\<close>)
qed

lemma simulated_making_shard: "simulated (MakingShard c) s (step_making_shard c s)"
proof -
  obtain r t where "run_app (on_store (make_shard (call_key c))) s = (r, t)" "flights_of t = flights_of s"
    using still_app_store [OF still_make_shard] by (rule run_app_cases)
  then show ?thesis
    by (cases r) (simp_all add: step_making_shard_def simulated_same)
qed

lemma simulated_serving: "simulated (Serving c i q) s (step_serving E c i q s)"
proof -
  have drop: "flights_of (with_store (drop_outcome q) t) = flights_of t" for t
    by (intro with_store_flights) (simp add: table_simps)
  obtain r t where "run_app (serve_outcome E (call_key c) q) s = (r, t)" "flights_of t = flights_of s"
    using still_serve_outcome by (rule run_app_cases)
  then show ?thesis
    using drop by (simp add: step_serving_def simulated_same)
qed

lemma simulated_fetching: "simulated (Fetching c i) s (step_fetching E net c i s)"
proof (cases "call_artifact c")
  case True
  obtain r t where "run_app (artifact_fetch_phase E net (call_upstream c) (call_type c) (leader_of c i)) s = (r, t)"
    "flights_of t = flights_of s"
    using still_artifact_phase by (rule run_app_cases)
  then show ?thesis
    using True by (simp add: step_fetching_def simulated_same)
next
  case False
  obtain r t where "run_app (metadata_fetch_phase E net (call_upstream c) (call_type c) (call_rewrite c)
                         \<lparr>ml_inflight = i, ml_key = call_key c\<rparr>) s = (r, t)"
    "flights_of t = flights_of s"
    using still_metadata_phase by (rule run_app_cases)
  then show ?thesis
    using False by (simp add: step_fetching_def simulated_same table_simps)
qed

lemma simulated_cleaning: "simulated (Cleaning c i) s (step_cleaning c i s)"
proof -
  obtain r t where "run_app (on_files (remove_file (paths_temp (paths_for (call_key c))))) s = (r, t)"
    "flights_of t = flights_of s"
    using still_app_files by (rule run_app_cases)
  then show ?thesis
    by (simp add: step_cleaning_def simulated_same)
qed

lemma simulated_finishing: "simulated (Finishing c i r) s (step_finishing c i r s)"
proof -
  have "flights_of (with_store (finish_inflight (call_key c)) s) =
      (flights_of s)\<lparr>fl_table := (fl_table (flights_of s))(call_key c := None)\<rparr>"
    by (simp add: flights_of_def table_simps flight_simps)
  then show ?thesis
    using sf_step.close [of "flights_of s" "call_key c" i "is_leader r"]
    by (cases r) (simp_all add: step_finishing_def simulated_step)
qed

lemma simulated_notifying: "simulated (Notifying c i r) s (step_notifying c i r s)"
proof -
  have "flights_of (s\<lparr>sys_epochs := (sys_epochs s)(i := Suc (sys_epochs s i))\<rparr>) =
      (flights_of s)\<lparr>fl_epochs := (fl_epochs (flights_of s))(i := Suc (fl_epochs (flights_of s) i))\<rparr>"
    by (simp add: flights_of_def the_store_def)
  then show ?thesis
    using sf_step.announce [of "flights_of s" "call_key c" i "is_leader r"]
    by (simp add: step_notifying_def simulated_step)
qed

lemma released_flights:
  "table (f (the_store s)) = table (the_store s) \<Longrightarrow>
    flights_of (with_store (release_upstream_permit \<circ> f) s) = (flights_of s)\<lparr>fl_permits := Suc (fl_permits (flights_of s))\<rparr>"
  "flights_of (with_store release_upstream_permit s) = (flights_of s)\<lparr>fl_permits := Suc (fl_permits (flights_of s))\<rparr>"
  by (simp_all add: flights_of_def table_simps release_upstream_permit_def table_def)

lemma simulated_releasing: "simulated (Releasing c i reply) s (step_releasing c i reply s)"
  using sf_step.release [of "flights_of s"] released_flights(2) [of s]
  by (cases reply) (simp_all add: step_releasing_def simulated_step)

lemma simulated_arrived: "simulated (Arrived c) s (step_arrived c s)"
  by (auto simp: step_arrived_def table_simps intro: simulated_same simulated_joins split: option.split)

lemma advance_simulated: "advance E net t s = Some r \<Longrightarrow> simulated t s r"
proof (cases t)
  case (Arming c i)
  then show "advance E net t s = Some r \<Longrightarrow> simulated t s r"
    using sf_step.arm [of "flights_of s" i] by (auto intro: simulated_step)
next
  case (Sleeping c i n)
  then show "advance E net t s = Some r \<Longrightarrow> simulated t s r"
    using sf_step.wake [of n "flights_of s" i] by (auto intro: simulated_step split: if_splits)
qed (auto intro: simulated_arrived simulated_loading simulated_making_shard simulated_leading simulated_checking
    simulated_serving simulated_fetching simulated_completing simulated_notifying simulated_finishing
    simulated_releasing simulated_cleaning)

lemma cancel_simulated:
  assumes "cancel t s = Some r"
  shows "simulated t s r"
proof -
  have leave: "simulated t s ([], s)" if "phase_of t = {#q#}" "owned q = None" "q \<noteq> Holds" for t q
    using sf_step.leave [OF that(2,3), of "flights_of s"] that(1) by (intro simulated_step) simp
  have abandon: "simulated t s ([Cleaning c i], s')"
    if "phase_of t = {#q#}" "q \<in> {Owns (call_key c) i True, Closes (call_key c) i True}"
      "flights_of s' = (flights_of s)\<lparr>fl_permits := Suc (fl_permits (flights_of s))\<rparr>" for q c i s'
    using sf_step.abandon [OF that(2), of "flights_of s"] that(1,3) by (intro simulated_step) simp
  have fetched: "flights_of (abandon_fetched i q s) = (flights_of s)\<lparr>fl_permits := Suc (fl_permits (flights_of s))\<rparr>"
    for i q
    unfolding abandon_fetched_def held_flights
    by (rule released_flights(1)) (use drop_outcome_table [of q "the_store s"] in \<open>simp add: release_reservation_def table_def\<close>)
  show ?thesis
  proof (cases t)
    case (Completing c i q r')
    then show ?thesis
      using assms abandon [OF _ _ fetched, of _ c i] by (cases r') auto
  next
    case (Finishing c i r')
    then show ?thesis
      using assms abandon [OF _ _ released_flights(2), of _ c i] by (cases r') auto
  next
    case (Fetching c i)
    then show ?thesis
      using assms abandon [OF _ _ released_flights(2), of _ c i] by auto
  next
    case (Serving c i q)
    then show ?thesis
      using assms by (auto intro!: simulated_same with_store_flights simp: table_simps)
  qed (use assms leave [of t "Waits _"] leave [of t "Armed _ _"] leave [of t "Sleeps _ _"] in \<open>auto intro: simulated_same\<close>)
qed

lemma reap_simulated:
  assumes "\<forall>t\<in>#M. refers t \<noteq> Some i" and "i \<notin> ran (st_inflight (the_store s))"
  shows "view_of (s, M) = view_of (reap i s, M) \<or> sf_step (view_of (s, M)) (view_of (reap i s, M))"
proof (cases "st_outcomes (the_store s) i")
  case None
  then show ?thesis
    by (simp add: reap_def)
next
  case (Some q)
  have "flights_of (reap i s) = (flights_of s)\<lparr>fl_settled := fl_settled (flights_of s) - {i}\<rparr>"
    using Some
    by (auto simp: reap_def flights_of_def table_simps flight_simps release_reservation_def the_store_def with_store_def
        on_app_store_def)
  moreover have "\<forall>q\<in>#phases M. flight_of q \<noteq> Some i"
    using assms(1) phases_in phase_refers by metis
  ultimately show ?thesis
    using sf_step.forget [of "phases M" i "flights_of s"] assms(2) by (simp add: view_of_def)
qed

lemma janitor_flights: "flights_of (janitor s) = flights_of s"
  unfolding janitor_def
proof (rule with_store_flights)
  let ?t = "the_store s"
  have "tables (snd (evict_files_to_bound (?t\<lparr>st_janitor_queue := 0\<rparr>))) = tables (?t\<lparr>st_janitor_queue := 0\<rparr>)"
    by (rule still_snd [OF still_evict])
  then show "table (snd (evict_files_to_bound (?t\<lparr>st_janitor_queue := 0\<rparr>))) = table ?t"
    by (simp add: tables_def table_def)
qed

lemma run_simulates:
  assumes "run_step E x y"
  shows "view_of x = view_of y \<or> sf_step (view_of x) (view_of y)"
  using assms by cases (use advance_simulated in \<open>fastforce simp: simulated_def Let_def\<close>)

lemma step_simulates:
  assumes "step E x y"
  shows "view_of x = view_of y \<or> sf_step (view_of x) (view_of y)"
  using assms
proof cases
  case running
  then show ?thesis
    by (rule run_simulates)
next
  case (cancelling t s ts s' M)
  then show ?thesis
    using cancel_simulated [of t s "(ts, s')"] by (simp add: simulated_def Let_def)
next
  case (admitting c s M)
  then show ?thesis
    by (simp add: view_of_def start_task_def)
next
  case (reaping M i s)
  then show ?thesis
    using reap_simulated by blast
next
  case (evicting s M)
  then show ?thesis
    by (simp add: view_of_def janitor_flights)
next
  case (settling s i M n)
  then show ?thesis
    by (simp add: view_of_def background_write_def with_store_flights table_def)
next
  case (ticking s M)
  then show ?thesis
    by (simp add: view_of_def tick_def with_store_flights table_def)
qed

definition starting :: "nat \<Rightarrow> configuration \<Rightarrow> bool" where
  "starting cap x \<longleftrightarrow> (\<exists>t. st_inflight t = Map.empty \<and> st_upstream_permits t = cap \<and> x = (initial t, {#}))"

interpretation proxy: single_flight_program starting "step E" view_of for E
proof unfold_locales
  show "starting cap x \<Longrightarrow> sf_init cap (view_of x)" for cap x
    by (auto simp: starting_def sf_init_def view_of_def initial_def the_store_def)
qed (rule step_simulates)

lemma reachable_steps: "reachable E cap x \<Longrightarrow> \<exists>y. starting cap y \<and> (step E)\<^sup>*\<^sup>* y x"
proof (induction rule: reachable.induct)
  case (start t)
  then show ?case
    by (auto simp: starting_def)
next
  case (steps x y)
  then show ?case
    by (meson rtranclp.rtrancl_into_rtrancl)
qed

lemma reachable_inv: "reachable E cap x \<Longrightarrow> sf_inv cap (view_of x)"
  using reachable_steps proxy.run_inv by blast

section \<open>Properties of the proxy\<close>

text \<open>Which tasks hold a permit, and which flight a task will end.\<close>

fun holds_permit :: "task \<Rightarrow> bool" where
  "holds_permit (Fetching c i) = True"
| "holds_permit (Completing c i outcome r) = is_leader r"
| "holds_permit (Notifying c i r) = is_leader r"
| "holds_permit (Finishing c i r) = is_leader r"
| "holds_permit (Releasing c i reply) = True"
| "holds_permit _ = False"

fun will_end :: "task \<Rightarrow> (string \<times> nat) option" where
  "will_end (Fetching c i) = Some (call_key c, i)"
| "will_end (Completing c i outcome r) = Some (call_key c, i)"
| "will_end (Notifying c i r) = Some (call_key c, i)"
| "will_end (Finishing c i r) = Some (call_key c, i)"
| "will_end (Cleaning c i) = Some (call_key c, i)"
| "will_end _ = None"

lemma permits_phases: "(\<Sum>q\<in>#phases M. permits_of q) = size {#t \<in># M. holds_permit t#}"
proof (induction M)
  case (add t M)
  then show ?case
    by (cases t) auto
qed simp

lemma owners_phases: "owners k (phases M) = size {#t \<in># M. map_option fst (will_end t) = Some k#}"
proof (induction M)
  case (add t M)
  then show ?case
    by (cases t) auto
qed simp

lemma will_end_phase: "will_end t = Some (k, i) \<longleftrightarrow> (\<exists>q\<in>#phase_of t. owned q = Some (k, i))"
  by (cases t) auto

lemma phase_in: "t \<in># M \<Longrightarrow> q \<in># phase_of t \<Longrightarrow> q \<in># phases M"
  by (auto dest!: multi_member_split)

text \<open>
  C12: The proxy implements the in-flight table.  Every step the system can take, whatever the upstream
  answers and whichever task is advanced, cancelled, admitted or freed, is a step of the abstract
  single-flight machine or leaves its state as it is.
\<close>

theorem flights_refine:
  assumes "step E x y"
  shows "view_of x = view_of y \<or> sf_step (view_of x) (view_of y)"
  using assms by (rule step_simulates)

text \<open>
  C4: One fetch per key, and no permit is lost.  In every reachable state the permits that are left and
  those held by leaders add up to the configured number; a key is in the table exactly when one task is
  going to end its flight, and never more than one; and that task's flight is the one in the table.
\<close>

theorem single_flight:
  assumes "reachable E cap (s, M)"
  shows "st_upstream_permits (the_store s) + size {#t \<in># M. holds_permit t#} = cap
    \<and> (\<forall>key. size {#t \<in># M. map_option fst (will_end t) = Some key#} =
         (if st_inflight (the_store s) key = None then 0 else 1))
    \<and> (\<forall>t\<in>#M. \<forall>key i. will_end t = Some (key, i) \<longrightarrow> st_inflight (the_store s) key = Some i)"
proof -
  have inv: "permits_ok cap (flights_of s, phases M)" "owners_ok (flights_of s, phases M)"
    using reachable_inv [OF assms] by (simp_all add: sf_inv_def view_of_def)
  have "st_inflight (the_store s) key = Some i" if t: "t \<in># M" and e: "will_end t = Some (key, i)" for t key i
  proof -
    obtain q where q: "q \<in># phase_of t" "owned q = Some (key, i)"
      using e will_end_phase by blast
    have "q \<in># phases M"
      using phase_in [OF t q(1)] .
    from owners_okD(2) [OF inv(2) this q(2)] show ?thesis
      by simp
  qed
  then show ?thesis
    using inv(1) owners_okD(1) [OF inv(2)] by (simp add: permits_ok_def permits_phases owners_phases)
qed

text \<open>
  C10: No wake-up is lost and no waiter is orphaned.  In every reachable state a request that sleeps on a
  flight can be woken at once, or some task is going to end that very flight; a request that waits for a
  flight without an outcome finds it still in the table.
\<close>

theorem no_orphaned_waiter:
  assumes "reachable E cap (s, M)" and "Sleeping c i n \<in># M"
  shows "n < sys_epochs s i \<or> (\<exists>t\<in>#M. \<exists>key. will_end t = Some (key, i))"
proof -
  have "Sleeps i n \<in># phases M"
    by (rule phase_in [OF assms(2)]) simp
  from sleeper_progress [OF reachable_inv [OF assms(1), unfolded view_of_def fst_conv snd_conv] this]
  show ?thesis
    using phases_in will_end_phase by (metis flights_sel(5))
qed

section \<open>Every request is answered\<close>

text \<open>
  How much a task still has to do.  A request that waits has less to do once there is an outcome, since it
  will not sleep again.
\<close>

fun weight :: "system \<Rightarrow> task \<Rightarrow> nat" where
  "weight s (Arrived c) = 16"
| "weight s (Loading c) = 15"
| "weight s (MakingShard c) = 14"
| "weight s (Leading c) = 13"
| "weight s (Arming c i) = (if st_outcomes (the_store s) i = None then 7 else 3)"
| "weight s (Checking c i n) = (if st_outcomes (the_store s) i = None then 6 else 2)"
| "weight s (Sleeping c i n) = (if st_outcomes (the_store s) i = None then 5 else 4)"
| "weight s (Serving c i outcome) = 1"
| "weight s (Fetching c i) = 5"
| "weight s (Completing c i outcome r) = 4"
| "weight s (Notifying c i r) = 3"
| "weight s (Finishing c i r) = 2"
| "weight s (Releasing c i reply) = 1"
| "weight s (Cleaning c i) = 5"
| "weight s (Done i r) = 0"

definition work :: "configuration \<Rightarrow> nat" where
  "work x = (\<Sum>t\<in>#snd x. weight (fst x) t)"

fun is_done :: "task \<Rightarrow> bool" where
  "is_done (Done i r) = True"
| "is_done _ = False"

text \<open>The number of answers a task owes.\<close>

fun owes :: "task \<Rightarrow> nat" where
  "owes (Fetching c i) = (if call_artifact c then 0 else 1)"
| "owes (Completing c i outcome (Leader (Some r))) = 1"
| "owes (Completing c i outcome (Leader None)) = 0"
| "owes (Completing c i outcome Guard) = 0"
| "owes (Notifying c i (Leader (Some r))) = 1"
| "owes (Notifying c i (Leader None)) = 0"
| "owes (Notifying c i Guard) = 0"
| "owes (Finishing c i (Leader (Some r))) = 1"
| "owes (Finishing c i (Leader None)) = 0"
| "owes (Finishing c i Guard) = 0"
| "owes (Releasing c i (Some r)) = 1"
| "owes (Releasing c i None) = 0"
| "owes (Cleaning c i) = 0"
| "owes _ = 1"

lemmas task_steps =
  step_arrived_def step_loading_def step_making_shard_def step_leading_def step_checking_def step_serving_def
  step_fetching_def step_completing_def step_notifying_def step_finishing_def step_releasing_def step_cleaning_def

lemma advance_weight:
  assumes "advance E net t s = Some (ts, s')" and "\<And>c i n. t = Sleeping c i n \<Longrightarrow> st_outcomes (the_store s) i \<noteq> None"
  shows "(\<Sum>u\<in>#mset ts. weight s' u) < weight s t"
  using assms
  by (cases t) (auto simp: task_steps split: option.splits prod.splits sum.splits if_splits role.splits)

lemma advance_owes:
  assumes "advance E net t s = Some (ts, s')"
  shows "(\<Sum>u\<in>#mset ts. owes u) = owes t"
proof (cases t)
  case (Completing c i q r)
  then show ?thesis
    using assms by (cases r) (auto simp: step_completing_def split: prod.splits option.splits, (metis owes.simps option.exhaust)+)
next
  case (Notifying c i r)
  then show ?thesis
    using assms by (cases r) (auto simp: step_notifying_def, (metis owes.simps option.exhaust)+)
next
  case (Finishing c i r)
  then show ?thesis
    using assms by (cases r) (auto simp: step_finishing_def, (metis owes.simps option.exhaust)+)
next
  case (Releasing c i reply)
  then show ?thesis
    using assms by (cases reply) (auto simp: step_releasing_def)
qed (use assms in \<open>auto simp: task_steps split: option.splits prod.splits sum.splits if_splits\<close>)

lemma weight_mono:
  assumes "run_step E (s, M) (s', M')" and "waiters_ok (view_of (s, M))" and "t \<in># M"
  shows "weight s' t \<le> weight s t"
proof -
  have stays: "st_outcomes (the_store s') i \<noteq> None"
    if "q \<in># phase_of t" "flight_of q = Some i" "st_outcomes (the_store s) i \<noteq> None" for q i
  proof -
    have q: "q \<in># phases M"
      using phase_in [OF assms(3) that(1)] .
    from run_simulates [OF assms(1)] show ?thesis
    proof
      assume "view_of (s, M) = view_of (s', M')"
      then have "flights_of s = flights_of s'"
        by (simp add: view_of_def)
      then show ?thesis
        using that(3) flights_sel(2) by metis
    next
      assume "sf_step (view_of (s, M)) (view_of (s', M'))"
      from settled_stays [OF this [unfolded view_of_def fst_conv snd_conv] _ q that(2)] assms(2) that(3)
      show ?thesis
        by (simp add: view_of_def)
    qed
  qed
  show ?thesis
    using stays by (cases t) (force simp: split: if_splits)+
qed

lemma run_step_work:
  assumes "run_step E (s, M) (s', M')" and "sf_inv cap (view_of (s, M))"
  shows "work (s', M') < work (s, M)"
  using assms(1)
proof cases
  case (run net t ts R)
  have inv: "waiters_ok (view_of (s, M))" "awake_ok (flights_of s, phases M)"
    using assms(2) by (simp_all add: sf_inv_def view_of_def)
  have "st_outcomes (the_store s) i \<noteq> None" if "t = Sleeping c i n" for c i n
  proof -
    have "n < sys_epochs s i"
      using run(3) that by (simp split: if_splits)
    moreover have "Sleeps i n \<in># phases M"
      using run(1) that by simp
    ultimately show ?thesis
      using awake_okD [OF inv(2), of i n] by simp
  qed
  then have "(\<Sum>u\<in>#mset ts. weight s' u) < weight s t"
    using advance_weight [OF run(3)] by blast
  moreover have "(\<Sum>u\<in>#R. weight s' u) \<le> (\<Sum>u\<in>#R. weight s u)"
  proof (rule sum_mset_mono)
    fix u assume "u \<in># R"
    then show "weight s' u \<le> weight s u"
      using weight_mono [OF assms(1) inv(1), of u] run(1) by simp
  qed
  ultimately show ?thesis
    using run(1,2) by (simp add: work_def)
qed

lemma run_step_owes:
  assumes "run_step E (s, M) (s', M')"
  shows "(\<Sum>t\<in>#M'. owes t) = (\<Sum>t\<in>#M. owes t)"
  using assms by cases (simp add: advance_owes)

lemma reachable_run: "reachable E cap x \<Longrightarrow> run_step E x y \<Longrightarrow> reachable E cap y"
  by (blast intro: reachable.steps step.running)

lemma ender_advances: "will_end t \<noteq> None \<Longrightarrow> \<exists>r. advance E net t s = Some r"
  by (cases t) auto

lemma progress:
  assumes "reachable E cap (s, M)" and "t \<in># M" and "\<not> is_done t"
  shows "\<exists>y. run_step E (s, M) y"
proof -
  have go: "\<exists>y. run_step E (s, M) y" if "u \<in># M" "advance E net u s = Some r" for u net r
    using run_step.run [of E net u s "fst r" "snd r" "M - {#u#}"] that by auto
  show ?thesis
  proof (cases "\<exists>r. advance E (\<lambda>_. Inl []) t s = Some r")
    case True
    then show ?thesis
      using go [OF assms(2)] by blast
  next
    case False
    then obtain c i n where t: "t = Sleeping c i n" "\<not> n < sys_epochs s i"
      using assms(3) by (cases t) (auto split: if_splits)
    have "Sleeps i n \<in># phases M"
      by (rule phase_in [OF assms(2)]) (simp add: t)
    from sleeper_progress [OF reachable_inv [OF assms(1), unfolded view_of_def fst_conv snd_conv] this]
    obtain q k where "q \<in># phases M" "owned q = Some (k, i)"
      using t(2) by auto
    then obtain u where "u \<in># M" "will_end u \<noteq> None"
      using phases_in will_end_phase by (metis option.distinct(1))
    then show ?thesis
      using go ender_advances by blast
  qed
qed

lemma runs_reachable:
  assumes "(run_step E ^^ n) x y" and "reachable E cap x"
  shows "reachable E cap y \<and> work y + n \<le> work x \<and> (\<Sum>t\<in>#snd y. owes t) = (\<Sum>t\<in>#snd x. owes t)"
  using assms(1)
proof (induction n arbitrary: y)
  case 0
  then show ?case
    using assms(2) by simp
next
  case (Suc n)
  then obtain z where z: "(run_step E ^^ n) x z" "run_step E z y"
    by auto
  have IH: "reachable E cap z" "work z + n \<le> work x" "(\<Sum>t\<in>#snd z. owes t) = (\<Sum>t\<in>#snd x. owes t)"
    using Suc.IH [OF z(1)] by auto
  have zy: "run_step E (fst z, snd z) (fst y, snd y)" "sf_inv cap (view_of (fst z, snd z))"
    using z(2) reachable_inv [OF IH(1)] by simp_all
  show ?case
    using IH reachable_run [OF IH(1) z(2)] run_step_work [OF zy] run_step_owes [OF zy(1)] by simp
qed

text \<open>
  C19: The system does not run forever on its own.  From any reachable state, the tasks that are there can
  take only as many steps as the work that is left, under any schedule: no task loops, in particular no
  waiter goes back to sleep after its flight has ended.
\<close>

theorem runs_terminate:
  assumes "reachable E cap x" and "(run_step E ^^ n) x y"
  shows "n \<le> work x"
  using runs_reachable [OF assms(2,1)] by simp

text \<open>
  C18: Every request is answered.  From any reachable state, however the tasks are scheduled and whatever
  the upstream answers, a run that cannot continue has ended every task with a response, one for each
  request that was pending; until then some task can take a step, so no state is a deadlock.
\<close>

theorem requests_answered:
  assumes "reachable E cap x" and "(run_step E ^^ n) x y"
  shows "(\<forall>t\<in>#snd y. is_done t) \<and> size (snd y) = (\<Sum>t\<in>#snd x. owes t) \<or> (\<exists>z. run_step E y z)"
proof (cases "\<forall>t\<in>#snd y. is_done t")
  case True
  have "size (snd y) = (\<Sum>t\<in>#snd y. owes t)" if "\<forall>t\<in>#snd y. is_done t"
  proof -
    have "owes t = 1" if "is_done t" for t
      using that by (cases t) auto
    then have "(\<Sum>t\<in>#snd y. owes t) = (\<Sum>t\<in>#snd y. 1)"
      using \<open>\<forall>t\<in>#snd y. is_done t\<close> by (intro arg_cong [of _ _ sum_mset] image_mset_cong) auto
    then show ?thesis
      by simp
  qed
  then show ?thesis
    using True runs_reachable [OF assms(2,1)] by simp
next
  case False
  then obtain t where t: "t \<in># snd y" "\<not> is_done t"
    by blast
  have "reachable E cap (fst y, snd y)"
    using runs_reachable [OF assms(2,1)] by simp
  then show ?thesis
    using progress t by fastforce
qed

section \<open>An instance\<close>

text \<open>Two requests for the same document on an empty cache: the first leads, the second sleeps on its flight.\<close>

definition sample_call :: call where
  "sample_call = metadata_call (sample_env page_meta) False (npm sample_origins) ''npm'' RewriteNone"

definition led :: system where
  "led = snd (step_leading sample_call (initial fresh_store))"

lemma fresh_flights: "st_inflight fresh_store = Map.empty" "st_upstream_permits fresh_store = 4"
  "st_next_inflight fresh_store = 0" "st_outcomes fresh_store = (\<lambda>_. None)"
  by (simp_all add: fresh_store_def empty_store_def)

lemma sample_call_fields: "call_key sample_call = sample_key" "\<not> call_artifact sample_call"
  by (simp_all add: sample_call_def metadata_call_def sample_env_def metadata_key_def hash_key_def)

lemma led_run: "step_leading sample_call (initial fresh_store) = ([Fetching sample_call 0], led)"
  and led_table: "st_inflight (the_store led) = [sample_key \<mapsto> 0]" "st_upstream_permits (the_store led) = 3"
    "st_outcomes (the_store led) 0 = None" "sys_epochs led 0 = 0"
  unfolding led_def
  by (simp_all add: step_leading_def run_app_def io_simps join_or_lead_run initial_def the_store_def fresh_flights
      sample_call_fields)

lemma sample_call_made: "made_by (sample_env page_meta) sample_call"
  by (simp add: made_by_def sample_call_def metadata_call_def)

lemma sample_reachable:
  "reachable (sample_env page_meta) 4 (initial fresh_store, {#Leading sample_call#})"
  "run_step (sample_env page_meta) (initial fresh_store, {#Leading sample_call#}) (led, {#Fetching sample_call 0#})"
  "reachable (sample_env page_meta) 4 (led, {#Fetching sample_call 0#})"
  "reachable (sample_env page_meta) 4 (led, {#Sleeping sample_call 0 0, Fetching sample_call 0#})"
proof -
  let ?E = "sample_env page_meta"
  have start: "start_task sample_call = Leading sample_call"
    by (simp add: start_task_def sample_call_fields)
  have admit: "reachable ?E 4 (s, M) \<Longrightarrow> reachable ?E 4 (s, add_mset (Leading sample_call) M)" for s M
    using reachable.steps step.admitting [OF sample_call_made, of s M] start by simp
  have "reachable ?E 4 (initial fresh_store, {#})"
    by (rule reachable.start) (simp_all add: fresh_flights)
  then show a: "reachable ?E 4 (initial fresh_store, {#Leading sample_call#})"
    by (rule admit)
  show b: "run_step ?E (initial fresh_store, {#Leading sample_call#}) (led, {#Fetching sample_call 0#})"
    using run_step.run [of ?E undefined "Leading sample_call" "initial fresh_store" "[Fetching sample_call 0]" led "{#}"] led_run
    by simp
  show c: "reachable ?E 4 (led, {#Fetching sample_call 0#})"
    using a b by (rule reachable_run)
  let ?M = "{#Fetching sample_call 0#}"
  have go: "reachable ?E 4 (led, add_mset t ?M) \<Longrightarrow> advance ?E undefined t led = Some ([u], led) \<Longrightarrow>
      reachable ?E 4 (led, add_mset u ?M)" for t u
    using run_step.run [of ?E undefined t led "[u]" led ?M] reachable_run [of ?E 4 "(led, add_mset t ?M)"]
    by (simp add: add_mset_commute)
  have "step_leading sample_call led = ([Arming sample_call 0], led)"
    using led_table(1)
    by (simp add: step_leading_def run_app_def io_simps join_or_lead_run the_store_def sample_call_fields count_join_def)
  then have "reachable ?E 4 (led, add_mset (Arming sample_call 0) ?M)"
    by (intro go [OF admit [OF c]]) simp
  then have "reachable ?E 4 (led, add_mset (Checking sample_call 0 0) ?M)"
    by (rule go) (simp add: led_table)
  then show "reachable ?E 4 (led, add_mset (Sleeping sample_call 0 0) ?M)"
    by (rule go) (simp add: step_checking_def led_table)
qed

lemma flights_refine_witness:
  "\<exists>x y. step (sample_env page_meta) x y \<and> view_of x \<noteq> view_of y \<and> sf_step (view_of x) (view_of y)"
proof -
  let ?x = "(initial fresh_store, {#Leading sample_call#})" and ?y = "(led, {#Fetching sample_call 0#})"
  have s: "step (sample_env page_meta) ?x ?y"
    using sample_reachable(2) by (rule step.running)
  moreover have "view_of ?x \<noteq> view_of ?y"
    by (simp add: view_of_def)
  ultimately show ?thesis
    using flights_refine [OF s] by blast
qed

lemma single_flight_witness:
  "reachable (sample_env page_meta) 4 (led, {#Fetching sample_call 0#})
    \<and> st_upstream_permits (the_store led) + size {#t \<in># {#Fetching sample_call 0#}. holds_permit t#} = 4
    \<and> st_inflight (the_store led) sample_key = Some 0"
proof -
  have "st_inflight (the_store led) sample_key = Some 0"
    using single_flight [OF sample_reachable(3)] by (simp add: sample_call_fields)
  then show ?thesis
    using single_flight [OF sample_reachable(3)] sample_reachable(3) by simp
qed

lemma no_orphaned_waiter_witness:
  "Sleeping sample_call 0 0 \<in># {#Sleeping sample_call 0 0, Fetching sample_call 0#}
    \<and> (0 < sys_epochs led 0
       \<or> (\<exists>t\<in>#{#Sleeping sample_call 0 0, Fetching sample_call 0#}. \<exists>key. will_end t = Some (key, 0)))"
  using no_orphaned_waiter [OF sample_reachable(4), of sample_call 0 0] by simp

lemma runs_terminate_witness:
  "(run_step (sample_env page_meta) ^^ 1) (initial fresh_store, {#Leading sample_call#}) (led, {#Fetching sample_call 0#})
    \<and> 1 \<le> work (initial fresh_store, {#Leading sample_call#})"
  using runs_terminate [OF sample_reachable(1), of 1 "(led, {#Fetching sample_call 0#})"] sample_reachable(2)
  by (simp add: eq_OO)

lemma requests_answered_witness:
  "(run_step (sample_env page_meta) ^^ 1) (initial fresh_store, {#Leading sample_call#}) (led, {#Fetching sample_call 0#})
    \<and> (\<Sum>t\<in>#{#Leading sample_call#}. owes t) = 1
    \<and> (\<exists>z. run_step (sample_env page_meta) (led, {#Fetching sample_call 0#}) z)"
  using requests_answered [OF sample_reachable(1), of 1 "(led, {#Fetching sample_call 0#})"] sample_reachable(2)
  by (simp add: eq_OO)

end
