(* ===== verification/Isolation.thy ===== *)
theory Isolation
  imports Proxy
begin

text \<open>
  Interference freedom.  \<open>Flights\<close> runs a whole fetch as one step; this theory shows why that is sound for the
  files: what a step of another task can do to a file that is being downloaded, or that is being read after
  it was opened, is nothing.  \<open>guarded\<close> is the assertion a task keeps about its file, and the locale
  \<open>bystander\<close> proves that every operation of the program that works on other names keeps it.
\<close>

section \<open>The assertion\<close>

text \<open>
  The inode \<open>j\<close> holds the bytes \<open>d\<close> and the pending bytes \<open>pn\<close>; it has none of the names \<open>W\<close> that are written
  to, and it has the names \<open>H\<close>.
\<close>

definition guarded :: "path set \<Rightarrow> path set \<Rightarrow> nat \<Rightarrow> bytes \<Rightarrow> bytes \<Rightarrow> fs \<Rightarrow> bool" where
  "guarded W H j d pn f \<longleftrightarrow>
     wf_fs f \<and> j < fs_next f \<and> fs_data f j = d \<and> fs_pending f j = pn
     \<and> (\<forall>q\<in>W. fs_lookup f q \<noteq> Some (NFile j)) \<and> (\<forall>p\<in>H. fs_lookup f p = Some (NFile j))"

lemma guardedI:
  assumes "wf_fs f" "j < fs_next f" "fs_data f j = d" "fs_pending f j = pn"
    and "\<And>q. q \<in> W \<Longrightarrow> fs_lookup f q \<noteq> Some (NFile j)" and "\<And>p. p \<in> H \<Longrightarrow> fs_lookup f p = Some (NFile j)"
  shows "guarded W H j d pn f"
  using assms by (simp add: guarded_def)

lemma guardedD:
  assumes "guarded W H j d pn f"
  shows "wf_fs f" "j < fs_next f" "fs_data f j = d" "fs_pending f j = pn"
    and "q \<in> W \<Longrightarrow> fs_lookup f q \<noteq> Some (NFile j)" and "p \<in> H \<Longrightarrow> fs_lookup f p = Some (NFile j)"
  using assms by (simp_all add: guarded_def)

text \<open>What the assertion depends on.\<close>

lemma guarded_cong:
  assumes "guarded W H j d pn f" and "fs_nodes g = fs_nodes f" "fs_next g = fs_next f"
    and "fs_data g j = fs_data f j" "fs_pending g j = fs_pending f j"
  shows "guarded W H j d pn g"
  using assms wf_fs_cong [of f g] by (simp add: guarded_def fs_lookup_cong [of g f])

lemma guarded_faults: "guarded W H j d pn f \<Longrightarrow> guarded W H j d pn (f\<lparr>fs_faults := fl\<rparr>)"
  by (erule guarded_cong) simp_all

lemma guarded_draw: "guarded W H j d pn f \<Longrightarrow> draw f = (r, g) \<Longrightarrow> guarded W H j d pn g"
  by (rule draw_cases [of f]) (metis guarded_faults prod.inject)

section \<open>Operations on other names\<close>

locale bystander =
  fixes W H :: "path set" and j :: nat and d pn :: bytes
  assumes apart: "p \<in> H \<Longrightarrow> p \<notin> W"
    and no_entry: "p \<in> H \<Longrightarrow> \<not> evictable s p"
    and rooted: "[] \<notin> W"
begin

abbreviation safe :: "fs \<Rightarrow> bool" where
  "safe \<equiv> guarded W H j d pn"

lemma safe_op: "keeps safe m \<Longrightarrow> keeps safe (fs_op m)"
  by (rule keeps_fs_op) (rule guarded_faults)

lemma safe_read: "read_only m \<Longrightarrow> keeps safe m"
  unfolding keeps_def read_only_def by (metis guarded_faults)

lemma safe_mkdir: "keeps safe (create_dir_all p)"
  unfolding create_dir_all_def
proof (rule safe_op, rule keepsI)
  fix f assume f: "safe f"
  show "safe (snd (case fs_lookup f p of Some NDir \<Rightarrow> (Inr (), f) | Some (NFile _) \<Rightarrow> (Inl file_exists_error, f)
      | None \<Rightarrow> (Inr (), fs_link p NDir f)))"
  proof (cases "fs_lookup f p")
    case None
    then show ?thesis
      using guardedD [OF f] by (auto intro!: guardedI wf_fs_link_dir simp: fs_lookup_link split: if_splits)
  qed (use f in \<open>auto split: node.split\<close>)
qed

lemma safe_remove: "p \<notin> H \<Longrightarrow> keeps safe (remove_file p)"
  unfolding remove_file_def
proof (rule safe_op, rule keepsI)
  fix f assume p: "p \<notin> H" and f: "safe f"
  have "safe (fs_unlink p f)"
    using guardedD [OF f] p by (auto intro!: guardedI wf_fs_unlink simp: fs_lookup_unlink split: if_splits)
  with f show "safe (snd (case fs_lookup f p of None \<Rightarrow> (Inl not_found_error, f)
      | Some NDir \<Rightarrow> (Inl is_a_directory_error, f) | Some (NFile _) \<Rightarrow> (Inr (), fs_unlink p f)))"
    by (auto split: option.split node.split)
qed

lemma safe_moved:
  assumes f: "safe f" and p: "p \<in> W" and q: "q \<notin> H" and n: "fs_lookup f p = Some n"
  shows "safe (fs_link q n (fs_unlink p f))"
proof (rule guardedI)
  note g = guardedD [OF f]
  have u: "wf_fs (fs_unlink p f)"
    using g(1) by (rule wf_fs_unlink)
  show "wf_fs (fs_link q n (fs_unlink p f))"
  proof (cases n)
    case (NFile i)
    have "i < fs_next (fs_unlink p f)"
      using n wf_fs_bound [OF g(1)] NFile by simp
    then show ?thesis
      using n NFile wf_fs_inj [OF g(1)] unfolding NFile
      by (intro wf_fs_link_file [OF u]) (auto simp: fs_lookup_unlink split: if_splits)
  qed (use wf_fs_link_dir [OF u] in simp)
  have "n \<noteq> NFile j"
    using g(5) [OF p] n by auto
  then show "fs_lookup (fs_link q n (fs_unlink p f)) r \<noteq> Some (NFile j)" if "r \<in> W" for r
    using g(5) [OF that] that by (auto simp: fs_lookup_link fs_lookup_unlink)
  show "fs_lookup (fs_link q n (fs_unlink p f)) r = Some (NFile j)" if "r \<in> H" for r
    using g(6) [OF that] that p q apart by (auto simp: fs_lookup_link fs_lookup_unlink)
qed (use guardedD [OF f] in simp_all)

lemma safe_rename: "p \<in> W \<Longrightarrow> q \<notin> H \<Longrightarrow> keeps safe (rename_file p q)"
  unfolding rename_file_def
  by (rule safe_op, rule keepsI) (auto simp: safe_moved split: option.split node.split)

lemma safe_writes:
  assumes "i \<noteq> j"
  shows "keeps safe (write_all i bs)" and "keeps safe (flush_file i)"
proof -
  have upd: "safe (settle i f)" "safe (settle_partly n i f)" "safe (f\<lparr>fs_pending := (fs_pending f)(i := bs)\<rparr>)"
    if "safe f" for f n bs
    using assms by (auto intro!: guarded_cong [OF that] simp: settle_def settle_partly_def)
  show "keeps safe (write_all i bs)"
    by (rule keepsI) (auto simp: write_all_def Let_def upd dest: guarded_draw split: prod.split option.split)
  show "keeps safe (flush_file i)"
    by (rule keepsI) (auto simp: flush_file_def upd dest: guarded_draw split: prod.split option.split)
qed

text \<open>A file that is opened under a name that is written to is another file.\<close>

lemma safe_open:
  assumes "p \<in> W" and "safe f"
  shows "ends (\<lambda>_. safe) (\<lambda>i g. safe g \<and> i \<noteq> j) (open_file p) f"
proof (rule endsI)
  fix r g assume run: "open_file p f = (r, g)"
  have "safe g"
    using guarded_faults [OF assms(2)] open_file_same [OF run] by metis
  then show "case r of Inl e \<Rightarrow> safe g | Inr i \<Rightarrow> safe g \<and> i \<noteq> j"
    using open_file_Inr [of p f _ g] run guardedD(5) [OF assms(2,1)] by (cases r) auto
qed

lemma ends_safe_op:
  assumes "safe f" and "\<And>g. safe g \<Longrightarrow> ends (\<lambda>_. safe) (\<lambda>x g. safe g \<and> Q x) m g"
  shows "ends (\<lambda>_. safe) (\<lambda>x g. safe g \<and> Q x) (fs_op m) f"
proof -
  obtain x g where d: "draw f = (x, g)"
    by force
  then have "safe g"
    using guarded_draw assms(1) by blast
  then show ?thesis
    using assms(2) [of g] d by (auto simp: ends_def fs_op_def split: option.split)
qed

lemma safe_create:
  assumes "p \<in> W" and "safe f"
  shows "ends (\<lambda>_. safe) (\<lambda>i g. safe g \<and> i \<noteq> j) (create_file p) f"
  unfolding create_file_def
proof (rule ends_safe_op [OF assms(2)])
  fix g assume g: "safe g"
  let ?new = "\<lambda>i g. g\<lparr>fs_data := (fs_data g)(i := []), fs_pending := (fs_pending g)(i := []),
                   fs_mtime := (fs_mtime g)(i := fs_clock g)\<rparr>"
  let ?made = "fs_link p (NFile (fs_next g)) ((?new (fs_next g) g)\<lparr>fs_next := Suc (fs_next g)\<rparr>)"
  note gd = guardedD [OF g]
  have p: "p \<noteq> []"
    using assms(1) rooted by auto
  have trunc: "safe (?new i g) \<and> i \<noteq> j" if "fs_lookup g p = Some (NFile i)" for i
    using that gd(5) [OF assms(1)] by (auto intro!: guarded_cong [OF g])
  have fresh: "safe ?made" "fs_next g \<noteq> j" if "fs_lookup g p = None" "fs_lookup g (butlast p) = Some NDir"
  proof -
    have "create_file p (g\<lparr>fs_faults := []\<rparr>) = (Inr (fs_next g), ?made\<lparr>fs_faults := []\<rparr>)"
      using that by (simp add: create_file_def fs_op_no_faults fs_link_def Let_def)
    then have "wf_fs (?made\<lparr>fs_faults := []\<rparr>)"
      using create_file_view [of "g\<lparr>fs_faults := []\<rparr>" p] gd(1) p by (fastforce simp: changes_at_def)
    moreover have "p \<notin> H"
      using assms(1) apart by auto
    ultimately show "safe ?made"
      using gd(2-4,6) gd(5) p by (auto intro!: guardedI simp: fs_lookup_link split: if_splits)
    show "fs_next g \<noteq> j"
      using gd(2) by simp
  qed
  show "ends (\<lambda>_. safe) (\<lambda>i g. safe g \<and> i \<noteq> j) (\<lambda>s.
     case fs_lookup s p of
       Some NDir \<Rightarrow> (Inl is_a_directory_error, s)
     | Some (NFile i) \<Rightarrow> (Inr i, ?new i s)
     | None \<Rightarrow>
         if fs_lookup s (butlast p) = Some NDir
         then (let i = fs_next s in (Inr i, fs_link p (NFile i) ((?new i s)\<lparr>fs_next := Suc i\<rparr>)))
         else (Inl not_found_error, s)) g"
    using g trunc fresh by (auto simp: ends_def Let_def split: option.split node.split)
qed

text \<open>The operations of the store, on other names.\<close>

abbreviation safe_store :: "store \<Rightarrow> bool" where
  "safe_store s \<equiv> safe (st_fs s)"

lemma safe_evict: "keeps safe_store evict_files_to_bound"
proof (rule keepsI)
  fix s assume s: "safe_store s"
  have ev: "only_evicts s (snd (evict_files_to_bound s))"
    by (rule evict_only_unpinned)
  then have names: "fs_lookup (st_fs (snd (evict_files_to_bound s))) p = fs_lookup (st_fs s) p
      \<or> fs_lookup (st_fs (snd (evict_files_to_bound s))) p = None \<and> evictable s p" for p
    by (simp add: only_evicts_def)
  note g = guardedD [OF s]
  show "safe_store (snd (evict_files_to_bound s))"
  proof (rule guardedI)
    show "fs_lookup (st_fs (snd (evict_files_to_bound s))) q \<noteq> Some (NFile j)" if "q \<in> W" for q
      using names [of q] g(5) [OF that] by auto
    show "fs_lookup (st_fs (snd (evict_files_to_bound s))) q = Some (NFile j)" if "q \<in> H" for q
      using names [of q] g(6) [OF that] no_entry [OF that] by auto
  qed (use ev g in \<open>simp_all add: only_evicts_def\<close>)
qed

lemma safe_write_and_rename:
  assumes "temp \<in> W" and "dest \<notin> H"
  shows "keeps safe (write_and_rename temp dest body mb ml)"
proof (rule keepsI)
  fix f assume f: "safe f"
  have "keeps safe (io_bind (write_all i body) (\<lambda>_. io_bind (write_all i mb) (\<lambda>_. io_bind (write_all i (to_be_bytes ml)) (\<lambda>_.
       io_bind (flush_file i) (\<lambda>_. rename_file temp dest)))))" if "i \<noteq> j" for i
    using that assms by (intro keeps_bind safe_writes safe_rename)
  then have "ends (\<lambda>_. safe) (\<lambda>_. safe) (write_and_rename temp dest body mb ml) f"
    unfolding write_and_rename_def
    by (intro ends_bind [OF safe_create [OF assms(1) f]]) (simp add: ends_same keepsD)
  then show "safe (snd (write_and_rename temp dest body mb ml f))"
    by (simp add: ends_same)
qed

lemma safe_store_metadata:
  assumes "\<And>n. unique_temp_path n (paths_temp (paths_for key)) \<in> W" and "body_path key \<notin> H"
  shows "keeps safe_store (store_metadata C key body meta)"
proof -
  let ?temp = "\<lambda>n. unique_temp_path n (paths_temp (paths_for key))"
  have publish: "keeps safe_store (with_temp_cleanup (?temp n) (on_fs (write_and_rename (?temp n) (body_path key) body mb ml)))"
    for n mb ml
  proof (rule keepsI)
    fix s assume s: "safe_store s"
    let ?f = "write_and_rename (?temp n) (body_path key) body mb ml (st_fs s)"
    have "safe (snd ?f)"
      using keepsD [OF safe_write_and_rename [OF assms] s] .
    moreover have "keeps safe (remove_file (?temp n))"
      using assms(1) apart by (intro safe_remove) blast
    ultimately show "safe_store (snd (with_temp_cleanup (?temp n)
        (on_fs (write_and_rename (?temp n) (body_path key) body mb ml)) s))"
      by (cases ?f; cases "fst ?f") (simp_all add: with_temp_cleanup_def io_simps keepsD)
  qed
  have temp: "ends (\<lambda>_. safe_store) (\<lambda>p t. safe_store t \<and> (\<exists>n. p = ?temp n)) (next_temp_path (paths_temp (paths_for key))) s"
    if "safe_store s" for s
    using that by (auto simp: ends_def next_temp_path_def)
  have "safe_store (snd (store_metadata C key body meta s))" if s: "safe_store s" for s
  proof -
    have mkdir: "ends (\<lambda>_. safe_store) (\<lambda>_. safe_store) (on_fs (create_dir_all (butlast (body_path key)))) s"
      using keepsD [OF keeps_on_fs [OF safe_mkdir] s] by (simp add: ends_same)
    have rest: "ends (\<lambda>_. safe_store) (\<lambda>_. safe_store) (io_bind (io_lift (serialize_meta C meta)) (\<lambda>meta_bytes.
        io_bind (io_lift (meta_len_u32 meta_bytes)) (\<lambda>meta_len.
        io_bind (with_temp_cleanup p (on_fs (write_and_rename p (body_path key) body meta_bytes meta_len))) (\<lambda>_.
        evict_files_to_bound)))) t" if "safe_store t \<and> (\<exists>n. p = ?temp n)" for p t
    proof -
      have "keeps safe_store (with_temp_cleanup p (on_fs (write_and_rename p (body_path key) body mb ml)))" for mb ml
        using that publish by auto
      then have "keeps safe_store (io_bind (io_lift (serialize_meta C meta)) (\<lambda>meta_bytes.
        io_bind (io_lift (meta_len_u32 meta_bytes)) (\<lambda>meta_len.
        io_bind (with_temp_cleanup p (on_fs (write_and_rename p (body_path key) body meta_bytes meta_len))) (\<lambda>_.
        evict_files_to_bound))))"
        by (intro keeps_bind keeps_lift safe_evict)
      from keepsD [OF this] that show ?thesis
        by (simp add: ends_same)
    qed
    have "ends (\<lambda>_. safe_store) (\<lambda>_. safe_store) (store_metadata C key body meta) s"
      unfolding store_metadata_def Let_def
      by (rule ends_bind [OF mkdir], rule ends_bind [OF temp], assumption) (rule rest)
    then show ?thesis
      by (simp add: ends_same)
  qed
  then show ?thesis
    by (rule keepsI)
qed

lemma safe_commit:
  assumes "temp \<in> W" and "body_path key \<notin> H"
  shows "keeps safe_store (commit_artifact C key meta temp)"
proof (rule keepsI)
  fix s assume s: "safe_store s"
  let ?finish = "\<lambda>u. case pin key u of (published, t) \<Rightarrow>
      io_try (on_fs (rename_file temp (body_path key)))
        (\<lambda>r. case r of Inr _ \<Rightarrow> io_return published | Inl e \<Rightarrow> (\<lambda>u. (Inl e, drop_published published u))) t"
  have "keeps safe_store (\<lambda>u. (Inl e, drop_published p u) :: published_entry io_result \<times> store)" for e p
    by (rule keepsI) (simp add: flight_simps)
  then have "keeps safe_store (io_try (on_fs (rename_file temp (body_path key)))
        (\<lambda>r. case r of Inr _ \<Rightarrow> io_return p | Inl e \<Rightarrow> (\<lambda>u. (Inl e, drop_published p u))))" for p
    using safe_rename [OF assms] by (intro keeps_try keeps_on_fs) (auto split: sum.split)
  note publish = this
  have named: "keeps safe_store ?finish"
  proof (rule keepsI)
    fix u assume "safe_store u"
    moreover obtain p t where "pin key u = (p, t)" "st_fs t = st_fs u"
      by (simp add: pin_def Let_def)
    ultimately show "safe_store (snd (?finish u))"
      using keepsD [OF publish, of t p] by simp
  qed
  have body: "keeps safe_store (io_bind (on_fs (write_all i mb)) (\<lambda>_. io_bind (on_fs (write_all i ml)) (\<lambda>_. ?finish)))"
    if "i \<noteq> j" for i mb ml
    using that by (intro keeps_bind keeps_on_fs safe_writes named)
  have writes: "ends (\<lambda>_. safe_store) (\<lambda>_. safe_store)
      (io_bind (on_fs (write_all i mb)) (\<lambda>_. io_bind (on_fs (write_all i ml)) (\<lambda>_. ?finish))) t"
    if "safe_store t \<and> i \<noteq> j" for i mb ml t
    unfolding ends_same by (rule keepsD [OF body]) (use that in simp_all)
  have opened: "ends (\<lambda>_. safe_store) (\<lambda>i t. safe_store t \<and> i \<noteq> j) (on_fs (open_file temp)) t" if "safe_store t" for t
    using safe_open [OF assms(1) that] by (intro ends_on_fs) simp
  have "ends (\<lambda>_. safe_store) (\<lambda>_. safe_store) (commit_artifact C key meta temp) s"
    unfolding commit_artifact_def Let_def
    by (rule ends_bind [OF ends_lift [where Q = "\<lambda>_. safe_store"]], rule s, rule s,
        rule ends_bind [OF ends_lift [where Q = "\<lambda>_. safe_store"]], assumption, assumption,
        rule ends_bind [OF opened], assumption, rule writes)
  then show "safe_store (snd (commit_artifact C key meta temp s))"
    by (simp add: ends_same)
qed

lemma safe_load: "keeps safe_store (load C key)"
proof -
  have "read_only (read_footer C i)" for i
    unfolding read_footer_def
    by (intro read_only_bind read_only_reads read_only_lift) (auto simp: short_footer_err_def intro!: read_only_bind)
  then show ?thesis
    unfolding load_def
    by (intro keeps_try keeps_on_fs safe_read) (auto intro!: keeps_try keeps_on_fs safe_read split: sum.split)
qed

lemma safe_make_shard: "keeps safe_store (make_shard key)"
  unfolding make_shard_def by (intro keeps_on_fs safe_mkdir)

text \<open>The fetches of a task that works on other names.\<close>

abbreviation safe_app :: "app \<Rightarrow> bool" where
  "safe_app a \<equiv> safe_store (app_store a)"

lemma safe_on_store: "keeps safe_store m \<Longrightarrow> keeps safe_app (on_store m)"
  by (simp add: keeps_def io_simps)

lemma safe_on_files: "keeps safe m \<Longrightarrow> keeps safe_app (on_files m)"
  unfolding on_files_def by (intro safe_on_store keeps_on_fs)

lemma safe_count: "keeps safe_app (count_event f)"
  by (simp add: keeps_def count_event_def)

lemma safe_serve: "keeps safe_app (serve_outcome E key outcome)"
proof -
  have "read_only (file_response (env_http E) entry)" for entry
    unfolding file_response_def by (auto intro!: read_only_fs_op split: option.split)
  then show ?thesis
    unfolding serve_outcome_def
    by (auto intro!: keeps_bind safe_on_store safe_load safe_on_files safe_read
        split: inflight_outcome.split option.split)
qed

abbreviation safe_pair :: "app \<times> reservation \<Rightarrow> bool" where
  "safe_pair p \<equiv> safe_app (fst p)"

lemma safe_on_app: "keeps safe_app m \<Longrightarrow> keeps safe_pair (on_app m)"
  by (auto simp: keeps_def io_simps)

lemma safe_reserve: "keeps safe_pair (reserve_more n)"
  by (rule keepsI) (auto simp: reserve_more_def reserve_unfold split: prod.split)

lemma safe_with_reservation:
  assumes "keeps safe_pair m"
  shows "keeps safe_app (with_reservation m)"
proof (rule keepsI)
  fix a assume "safe_app a"
  then have "safe_pair (snd (m (a, None)))"
    using keepsD [OF assms, of "(a, None)"] by simp
  then show "safe_app (snd (with_reservation m a))"
    by (auto simp: with_reservation_def drop_reservation_def release_reservation_def split: prod.split sum.split)
qed

lemma safe_read_body: "keeps safe_pair (read_metadata_body resp)"
proof -
  have "keeps safe_pair (read_metadata_chunks cs body)" for cs body
    by (induction cs arbitrary: body) (auto intro!: keeps_bind safe_reserve)
  then show ?thesis
    unfolding read_metadata_body_def Let_def by (intro keeps_bind keeps_lift safe_reserve)
qed

lemma safe_serve_stored: "keeps safe_pair (serve_stored e)"
proof -
  have "read_only (read_body e)"
    unfolding read_body_def by (intro read_only_reads)
  then show ?thesis
    unfolding serve_stored_def
    by (intro keeps_bind keeps_return safe_reserve safe_on_app safe_on_store keeps_on_fs safe_read)
qed

lemma safe_metadata_phase:
  assumes "\<And>n. unique_temp_path n (paths_temp (paths_for (ml_key leader))) \<in> W" and "body_path (ml_key leader) \<notin> H"
  shows "keeps safe_app (metadata_fetch_phase E net u ty rw leader)"
proof -
  have "keeps safe_pair (finish_metadata E rw (ml_key leader) resp)" for resp
    unfolding finish_metadata_def conclude_metadata_def Let_def
    by (intro keeps_bind keeps_lift safe_reserve safe_read_body)
      (auto intro!: keeps_bind safe_on_app safe_on_store safe_store_metadata assms)
  then have "keeps safe_app (do_metadata_fetch E net u ty rw entry (ml_key leader))" for entry
    unfolding do_metadata_fetch_def Let_def
    by (intro keeps_bind keeps_lift safe_count safe_with_reservation)
      (auto intro: safe_serve_stored split: option.split bool.split)
  then show ?thesis
    unfolding metadata_fetch_phase_def by (intro keeps_bind safe_on_store safe_load)
qed

lemma safe_download:
  assumes "i \<noteq> j" and "safe_app a"
  shows "sends safe_app (\<lambda>_. safe_app) (download i cs n) a"
  using assms(2)
proof (induction cs arbitrary: n a)
  case Nil
  then show ?case
    by (simp add: sends_def)
next
  case (Cons c cs)
  have written: "ends (\<lambda>_. safe_app) (\<lambda>_. safe_app) (on_files (write_all i chunk)) b" if "safe_app b" for chunk b
    using keepsD [OF safe_on_files [OF safe_writes(1) [OF assms(1)]] that] by (simp add: ends_same)
  show ?case
    unfolding download.simps
    by (rule sends_stage [OF ends_lift [where Q = "\<lambda>_. safe_app"]], rule Cons.prems, rule Cons.prems,
        rule sends_stage [OF written], assumption, erule Cons.IH)
qed

lemma safe_artifact_phase:
  assumes "paths_temp (al_paths leader) \<in> W" and "body_path (al_key leader) \<notin> H"
  shows "safe_app a \<Longrightarrow> safe_app (snd (artifact_fetch_phase E net u ty leader a))"
proof -
  let ?temp = "paths_temp (al_paths leader)"
  have keep: "ends (\<lambda>_. safe_app) (\<lambda>_. safe_app) m b" if "keeps safe_app m" "safe_app b" for m :: "(app, 'b) io" and b
    using keepsD [OF that] by (simp add: ends_same)
  have create: "ends (\<lambda>_. safe_app) (\<lambda>i b. safe_app b \<and> i \<noteq> j) (on_files (create_file ?temp)) b" if "safe_app b" for b
    using ends_on_files [OF safe_create [OF assms(1) that]] .
  assume a: "safe_app a"
  have "sends safe_app (\<lambda>_. safe_app) (do_artifact_fetch E net u ty leader) a"
    unfolding do_artifact_fetch_def Let_def
  proof (rule sends_stage [OF keep [OF safe_count a]], rule sends_stage [OF keep [OF keeps_lift]], assumption, rule sends_if)
    fix resp b assume b: "safe_app b"
    show "sends safe_app (\<lambda>_. safe_app) (stage ''read_error_response'' (io_lift
          (read_limited_body resp MAX_ERROR_BODY_LEN ''upstream error body exceeds 1 MiB limit'')) (\<lambda>body a.
        (Inr (FetchNonOk (meta_for_bytes (env_http E) (up_status resp) (up_headers resp) (of_nat (length body)) True) body), a))) b"
      by (rule sends_stage [OF keep [OF keeps_lift b]]) (simp add: sends_def)
    show "sends safe_app (\<lambda>_. safe_app) (stage ''create_temp_file'' (on_files (create_file ?temp)) (\<lambda>file.
        staged_bind (download file (up_chunks resp) 0) (\<lambda>content_length.
        stage ''flush_temp_file'' (on_files (flush_file file)) (\<lambda>_.
        stage ''commit_cache_entry'' (on_store (commit_artifact (env_codec E) (al_key leader)
             (meta_from_upstream (env_http E) (up_status resp) (up_headers resp) (Some content_length)) ?temp)) (\<lambda>published a.
        (Inr (FetchCached published), a)))))) b"
    proof (rule sends_stage [OF create [OF b]], elim conjE)
      fix i c assume c: "safe_app c" and i: "i \<noteq> j"
      show "sends safe_app (\<lambda>_. safe_app) (staged_bind (download i (up_chunks resp) 0) (\<lambda>content_length.
        stage ''flush_temp_file'' (on_files (flush_file i)) (\<lambda>_.
        stage ''commit_cache_entry'' (on_store (commit_artifact (env_codec E) (al_key leader)
             (meta_from_upstream (env_http E) (up_status resp) (up_headers resp) (Some content_length)) ?temp)) (\<lambda>published a.
        (Inr (FetchCached published), a))))) c"
        by (rule sends_bind [OF safe_download [OF i c]],
            rule sends_stage [OF keep [OF safe_on_files [OF safe_writes(2) [OF i]]]], assumption,
            rule sends_stage [OF keep [OF safe_on_store [OF safe_commit [OF assms]]]], assumption)
          (simp add: sends_def)
    qed
  qed
  moreover have "keeps safe_app (on_files (remove_file ?temp))"
    using assms(1) apart by (intro safe_on_files safe_remove) blast
  ultimately show "safe_app (snd (artifact_fetch_phase E net u ty leader a))"
    by (auto simp: artifact_fetch_phase_def sends_def dest: keepsD split: prod.splits sum.splits)
qed

end

end
