(* ===== verification/Interference.thy ===== *)
theory Interference
  imports Flights Isolation
begin

text \<open>
  What the tasks of \<open>Flights\<close> can do to each other's files.  The locale \<open>bystander\<close> is interpreted for a file
  that is read after it was opened and for a file that is being downloaded, and its lemmas are carried
  through every step of the system and every run.
\<close>

section \<open>Opening an entry\<close>

lemma load_SomeE:
  assumes "load C key s = (Inr (Some entry), t)"
  obtains i f m n g where "open_file (body_path key) (st_fs s) = (Inr i, f)" and "read_footer C i f = (Inr (m, n), g)"
    and "entry = \<lparr>entry_file = i, entry_body_len = n, entry_meta = m\<rparr>" and "t = s\<lparr>st_fs := g\<rparr>"
proof -
  obtain r f where op: "open_file (body_path key) (st_fs s) = (r, f)"
    by force
  with assms obtain i where r: "r = Inr i"
    by (cases r) (auto simp: load_def io_try_def io_simps split: if_splits)
  obtain r' g where ft: "read_footer C i f = (r', g)"
    by force
  with assms op r obtain m n where "r' = Inr (m, n)"
    by (cases r') (auto simp: load_def io_try_def io_simps split: if_splits)
  then show thesis
    using that [of i f m n g] assms op r ft by (simp add: load_def io_try_def io_simps)
qed

lemma read_only_footer: "read_only (read_footer C i)"
  unfolding read_footer_def
  by (intro read_only_bind read_only_reads read_only_lift) (auto simp: short_footer_err_def intro!: read_only_bind)

lemma load_Some:
  assumes "load C key s = (Inr (Some entry), t)"
  shows "fs_lookup (st_fs s) (body_path key) = Some (NFile (entry_file entry))"
    and "st_fs t = (st_fs s)\<lparr>fs_faults := fs_faults (st_fs t)\<rparr>"
proof -
  obtain i f m n g where op: "open_file (body_path key) (st_fs s) = (Inr i, f)"
    and ft: "read_footer C i f = (Inr (m, n), g)"
    and e: "entry = \<lparr>entry_file = i, entry_body_len = n, entry_meta = m\<rparr>" "t = s\<lparr>st_fs := g\<rparr>"
    using assms by (rule load_SomeE)
  have g: "g = f\<lparr>fs_faults := fs_faults g\<rparr>"
    using read_only_footer ft by (rule read_onlyD)
  have "g = (st_fs s)\<lparr>fs_faults := fs_faults g\<rparr>"
    by (subst g, subst open_file_same [OF op]) simp
  then show "st_fs t = (st_fs s)\<lparr>fs_faults := fs_faults (st_fs t)\<rparr>"
    by (simp add: e(2))
  show "fs_lookup (st_fs s) (body_path key) = Some (NFile (entry_file entry))"
    using open_file_Inr [OF op] e(1) by simp
qed

text \<open>The body of an entry that was loaded lies within the file.\<close>

lemma load_fits:
  assumes "load C key s = (Inr (Some entry), t)"
  shows "unat (entry_body_len entry) \<le> length (fs_data (st_fs s) (entry_file entry))"
proof -
  obtain i f m n g where op: "open_file (body_path key) (st_fs s) = (Inr i, f)"
    and ft: "read_footer C i f = (Inr (m, n), g)"
    and e: "entry = \<lparr>entry_file = i, entry_body_len = n, entry_meta = m\<rparr>" "t = s\<lparr>st_fs := g\<rparr>"
    using assms by (rule load_SomeE)
  obtain sz f' footer ml where len: "file_len i f = (Inr sz, f')" and "FOOTER_LEN \<le> unat sz"
    and "footer_geometry sz footer = Inr (n, ml)"
    using ft by (auto simp: read_footer_def io_simps split: if_splits elim!: io_bind_InrE)
  then have "unat n \<le> unat sz"
    using footer_geometry_Inr by fastforce
  moreover have "sz = of_nat (length (fs_data f i))"
    using len by (auto simp: file_len_def fs_op_def draw_def split: list.splits option.splits)
  then have "unat sz \<le> length (fs_data f i)"
    by (simp add: unat_of_nat)
  ultimately show ?thesis
    using faults_same(4) [OF open_file_same [OF op]] e(1) by simp
qed

section \<open>Steps on other names\<close>

abbreviation files_of :: "system \<Rightarrow> fs" where
  "files_of s \<equiv> st_fs (the_store s)"

text \<open>The names a fetch of a key writes to, but for the entry itself.\<close>

definition temp_names :: "string \<Rightarrow> path set" where
  "temp_names key = insert (paths_temp (paths_for key)) (range (\<lambda>n. unique_temp_path n (paths_temp (paths_for key))))"

lemma temp_names_simps:
  "p \<in> temp_names key \<Longrightarrow> p \<noteq> []" "p \<in> temp_names key \<Longrightarrow> \<not> evictable s p"
  "paths_temp (paths_for key) \<in> temp_names key" "unique_temp_path n (paths_temp (paths_for key)) \<in> temp_names key"
  by (auto simp: temp_names_def temp_not_committed) (auto simp: temp_path_eq)

lemma temp_names_body: "key_ok key \<Longrightarrow> body_path key \<notin> temp_names k"
  using temp_neq_body [of key _ k] digest_chars_no_dot [of key 64]
  by (auto simp: temp_names_def key_ok_def temp_path_eq body_path_eq)

text \<open>
  What is left of a file that had the bytes \<open>d\<close> and the pending bytes \<open>pn\<close>: only its own background write may
  have run.
\<close>

definition carried :: "path set \<Rightarrow> path set \<Rightarrow> nat \<Rightarrow> bytes \<Rightarrow> bytes \<Rightarrow> fs \<Rightarrow> bool" where
  "carried W H j d pn f \<longleftrightarrow>
     (\<exists>d' pn'. guarded W H j d' pn' f \<and> prefix d d' \<and> prefix (d' @ pn') (d @ pn))"

lemma carried_guarded: "guarded W H j d pn f \<Longrightarrow> carried W H j d pn f"
  unfolding carried_def by blast

text \<open>The steps of a flight that do not touch the files.\<close>

lemma files_untouched [simp]:
  "st_fs (clone_outcome q t) = st_fs t" "st_fs (drop_outcome q t) = st_fs t"
  "st_fs (release_upstream_permit t) = st_fs t" "st_fs (finish_inflight k t) = st_fs t"
  "st_fs (snd (complete i q t)) = st_fs t" "st_fs (release_reservation r t) = st_fs t"
  "st_fs (snd (join_or_lead k t)) = st_fs t"
  by (auto simp: clone_outcome_def clone_published_def flight_simps release_upstream_permit_def complete_def
      release_reservation_def join_or_lead_run split: inflight_outcome.split option.split)

lemma files_of_simps [simp]:
  "files_of (with_store f s) = st_fs (f (the_store s))" "files_of (s\<lparr>sys_held := h\<rparr>) = files_of s"
  "files_of (s\<lparr>sys_epochs := e\<rparr>) = files_of s" "files_of (count_join c s) = files_of s"
  "files_of (reap i s) = files_of s" "files_of (abandon_fetched i q s) = files_of s"
  by (auto simp: abandon_fetched_def table_simps the_store_def count_join_def run_app_def count_event_def reap_def with_store_def
      on_app_store_def split: option.split)

text \<open>A task may write under the names of its own flight only.\<close>

definition apart_from :: "path set \<Rightarrow> path set \<Rightarrow> task \<Rightarrow> bool" where
  "apart_from W H t \<longleftrightarrow> (\<forall>k i. will_end t = Some (k, i) \<longrightarrow> temp_names k \<subseteq> W \<and> body_path k \<notin> H)"

lemma apart_fromD:
  assumes "apart_from W H t" and "will_end t = Some (k, i)"
  shows "paths_temp (paths_for k) \<in> W" "unique_temp_path n (paths_temp (paths_for k)) \<in> W" "body_path k \<notin> H"
  using assms temp_names_simps(3) [of k] temp_names_simps(4) [of n k] unfolding apart_from_def by blast+

context bystander
begin

lemma safe_runE:
  assumes "keeps safe_app m" and "safe (files_of s)"
  obtains r t where "run_app m s = (r, t)" and "safe (files_of t)"
proof -
  obtain r a where m: "m (sys_app s) = (r, a)"
    by force
  moreover have "safe_app a"
    using keepsD [OF assms(1), of "sys_app s"] assms(2) m by (simp add: the_store_def)
  ultimately show thesis
    using that [of r "s\<lparr>sys_app := a\<rparr>"] by (simp add: run_app_def the_store_def)
qed

lemma safe_loading:
  assumes "safe (files_of s)"
  shows "safe (files_of (snd (step_loading E c s)))"
proof -
  have read: "read_only (file_response (env_http E) entry)" for entry
    unfolding file_response_def by (auto intro!: read_only_fs_op split: option.split)
  obtain r t where t: "run_app (on_store (load (env_codec E) (call_key c))) s = (r, t)" "safe (files_of t)"
    using safe_on_store [OF safe_load] assms by (rule safe_runE)
  obtain r' u where "run_app (on_files (file_response (env_http E) (the (projr r)))) t = (r', u)" "safe (files_of u)"
    using safe_on_files [OF safe_read [OF read]] t(2) by (rule safe_runE)
  then show ?thesis
    using t by (auto simp: step_loading_def split: sum.split option.split)
qed

lemma safe_fetching:
  assumes "safe (files_of s)" and "apart_from W H (Fetching c i)"
  shows "safe (files_of (snd (step_fetching E net c i s)))"
proof (cases "call_artifact c")
  case True
  let ?leader = "leader_of c i"
  have "paths_temp (al_paths ?leader) \<in> W" "body_path (al_key ?leader) \<notin> H"
    using apart_fromD(1,3) [OF assms(2)] by (simp_all add: leader_of_def)
  note phase = safe_artifact_phase [OF this, of "sys_app s" E net "call_upstream c" "call_type c"]
  show ?thesis
    using phase assms(1) True
    by (auto simp: step_fetching_def run_app_def the_store_def split: prod.split)
next
  case False
  let ?phase = "metadata_fetch_phase E net (call_upstream c) (call_type c) (call_rewrite c)
    \<lparr>ml_inflight = i, ml_key = call_key c\<rparr>"
  have "keeps safe_app ?phase"
    using apart_fromD(2,3) [OF assms(2)] by (intro safe_metadata_phase) simp_all
  then obtain r t where "run_app ?phase s = (r, t)" "safe (files_of t)"
    using assms(1) by (rule safe_runE)
  then show ?thesis
    using False by (simp add: step_fetching_def)
qed

lemma safe_leading:
  assumes "safe (files_of s)"
  shows "safe (files_of (snd (step_leading c s)))"
proof -
  have "keeps safe_store (join_or_lead (call_key c))"
    by (simp add: keeps_def)
  then obtain r t where "run_app (on_store (join_or_lead (call_key c))) s = (r, t)" "safe (files_of t)"
    using safe_on_store assms by (blast elim: safe_runE)
  then show ?thesis
    by (auto simp: step_leading_def split: sum.split)
qed

lemma safe_advance:
  assumes "safe (files_of s)" and "apart_from W H t" and "advance E net t s = Some (ts, s')"
  shows "safe (files_of s')"
proof (cases t)
  case (Loading c)
  then show ?thesis
    using assms safe_loading [of s E c] by simp
next
  case (MakingShard c)
  obtain r u where "run_app (on_store (make_shard (call_key c))) s = (r, u)" "safe (files_of u)"
    using safe_on_store [OF safe_make_shard] assms(1) by (rule safe_runE)
  then show ?thesis
    using assms(3) MakingShard by (auto simp: step_making_shard_def split: sum.splits)
next
  case (Leading c)
  then show ?thesis
    using assms safe_leading [of s c] by simp
next
  case (Serving c i q)
  obtain r u where "run_app (serve_outcome E (call_key c) q) s = (r, u)" "safe (files_of u)"
    using safe_serve assms(1) by (rule safe_runE)
  then show ?thesis
    using assms Serving by (auto simp: step_serving_def split: if_splits)
next
  case (Fetching c i)
  then show ?thesis
    using assms safe_fetching [of s c i E net] by simp
next
  case (Cleaning c i)
  let ?temp = "paths_temp (paths_for (call_key c))"
  have "?temp \<notin> H"
    using apart_fromD(1) [OF assms(2)] Cleaning apart by auto
  then obtain r u where "run_app (on_files (remove_file ?temp)) s = (r, u)" "safe (files_of u)"
    using safe_on_files [OF safe_remove] assms(1) by (blast elim: safe_runE)
  then show ?thesis
    using assms Cleaning by (auto simp: step_cleaning_def split: if_splits)
next
  case (Completing c i q r)
  obtain n u where "complete i q (the_store s) = (n, u)" "st_fs u = files_of s"
    using files_untouched(5) by (metis prod.collapse)
  then show ?thesis
    using assms Completing by (auto simp: step_completing_def)
qed (use assms in \<open>auto simp: step_arrived_def step_checking_def step_notifying_def step_finishing_def step_releasing_def
      split: option.splits role.splits if_splits\<close>)

lemma safe_cancel:
  assumes "safe (files_of s)" and "cancel t s = Some (ts, s')"
  shows "safe (files_of s')"
proof -
  have "files_of s' = files_of s"
    using assms(2)
  proof (cases t)
    case (Completing c i q r)
    then show ?thesis
      using assms(2) by (cases r) auto
  next
    case (Finishing c i r)
    then show ?thesis
      using assms(2) by (cases r) auto
  qed auto
  with assms(1) show ?thesis
    by simp
qed

lemma safe_janitor: "safe (files_of s) \<Longrightarrow> safe (files_of (janitor s))"
  using keepsD [OF safe_evict, of "(the_store s)\<lparr>st_janitor_queue := 0\<rparr>"] by (simp add: janitor_def)

end

text \<open>The background write of the file itself, and of another one.\<close>

lemma guarded_background:
  assumes "guarded W H j d pn (files_of s)"
  shows "carried W H j d pn (files_of (background_write n i s))"
proof (cases "i = j")
  case True
  have "guarded W H j (d @ take n pn) [] (files_of (background_write n i s))"
    using assms True by (auto simp: guarded_def background_write_def settle_partly_def intro: wf_fs_cong)
  moreover have "prefix ((d @ take n pn) @ []) (d @ pn)"
    by (simp add: take_is_prefix)
  ultimately show ?thesis
    unfolding carried_def by fastforce
next
  case False
  then have "guarded W H j d pn (files_of (background_write n i s))"
    using assms by (auto simp: background_write_def settle_partly_def intro: guarded_cong)
  then show ?thesis
    by (rule carried_guarded)
qed

lemma guarded_tick: "guarded W H j d pn (files_of s) \<Longrightarrow> guarded W H j d pn (files_of (tick s))"
  by (auto simp: tick_def intro: guarded_cong)

lemma carried_trans:
  assumes "carried W H j d pn f" and "\<And>d' pn'. guarded W H j d' pn' f \<Longrightarrow> carried W H j d' pn' g"
  shows "carried W H j d pn g"
proof -
  obtain d' pn' where f: "guarded W H j d' pn' f" "prefix d d'" "prefix (d' @ pn') (d @ pn)"
    using assms(1) by (auto simp: carried_def)
  obtain d'' pn'' where "guarded W H j d'' pn'' g" "prefix d' d''" "prefix (d'' @ pn'') (d' @ pn')"
    using assms(2) [OF f(1)] by (auto simp: carried_def)
  with f(2,3) show ?thesis
    unfolding carried_def by (meson prefix_order.trans)
qed

text \<open>One step, and any number of them, while every task keeps off the file.\<close>

lemma guarded_step:
  assumes "bystander W H" and "step E (s, M) (s', M')" and "\<And>t. t \<in># M \<Longrightarrow> apart_from W H t"
    and "guarded W H j d pn (files_of s)"
  shows "carried W H j d pn (files_of s')"
  using assms(2)
proof cases
  case running
  then obtain net t ts R where t: "M = add_mset t R" "advance E net t s = Some (ts, s')"
    by (elim run_stepE) auto
  then show ?thesis
    using bystander.safe_advance [OF assms(1,4) assms(3) [of t]] by (intro carried_guarded) simp
next
  case (cancelling t ts R)
  then show ?thesis
    using bystander.safe_cancel [OF assms(1,4)] by (intro carried_guarded) blast
next
  case (evicting)
  then show ?thesis
    using bystander.safe_janitor [OF assms(1,4)] by (intro carried_guarded) simp
qed (use assms(4) guarded_background guarded_tick in \<open>auto intro: carried_guarded\<close>)

lemma carried_step:
  assumes "bystander W H" and "step E (s, M) (s', M')" and "\<And>t. t \<in># M \<Longrightarrow> apart_from W H t"
    and "carried W H j d pn (files_of s)"
  shows "carried W H j d pn (files_of s')"
  using carried_trans [OF assms(4)] guarded_step [OF assms(1-3)] by blast

text \<open>An open file: no task writes to a name it has.\<close>

interpretation reader: bystander "\<Union>k. temp_names k" "{}" j d pn for j d pn
  by unfold_locales (auto dest: temp_names_simps(1))

lemma reader_apart: "apart_from (\<Union>k. temp_names k) {} t"
  by (auto simp: apart_from_def)

lemma reader_run:
  assumes "(step E)\<^sup>*\<^sup>* x y" and "carried (\<Union>k. temp_names k) {} j d pn (files_of (fst x))"
  shows "carried (\<Union>k. temp_names k) {} j d pn (files_of (fst y))"
  using assms
proof (induction rule: rtranclp_induct)
  case (step y z)
  then show ?case
    using carried_step [OF reader.bystander_axioms, of E "fst y" "snd y" "fst z" "snd z"] reader_apart by simp
qed

text \<open>
  C6: A response that streams an entry is not disturbed.  After an entry has been loaded, whatever the
  other tasks and the janitor do (they may fetch the same key again, evict the entry or be cancelled, with
  any failures and in any order), the bytes that were in the open file stay where they are, and
  its body reads the same.
\<close>

theorem open_entry_stable:
  assumes "wf_fs (files_of s)" and "key_ok key" and "load C key (the_store s) = (Inr (Some entry), t)"
    and "(step E)\<^sup>*\<^sup>* (with_store (\<lambda>_. t) s, M) (s', M')"
  shows "prefix (fs_data (files_of s) (entry_file entry)) (fs_data (files_of s') (entry_file entry))
    \<and> fst (read_body entry ((files_of s')\<lparr>fs_faults := []\<rparr>)) = fst (read_body entry ((files_of s)\<lparr>fs_faults := []\<rparr>))"
proof -
  let ?j = "entry_file entry" and ?f = "files_of s" and ?W = "\<Union>k. temp_names k"
  note ld = load_Some [OF assms(3)]
  have "fs_lookup ?f q \<noteq> Some (NFile ?j)" if "q \<in> ?W" for q
    using wf_fs_inj [OF assms(1) ld(1), of q] temp_names_body [OF assms(2)] that by auto
  then have "guarded ?W {} ?j (fs_data ?f ?j) (fs_pending ?f ?j) ?f"
    using assms(1) wf_fs_bound [OF assms(1) ld(1)] by (intro guardedI) auto
  then have "guarded ?W {} ?j (fs_data ?f ?j) (fs_pending ?f ?j) (st_fs t)"
    using guarded_faults ld(2) by metis
  then have "carried ?W {} ?j (fs_data ?f ?j) (fs_pending ?f ?j) (files_of s')"
    using reader_run [OF assms(4)] carried_guarded by (simp add: table_simps)
  then have p: "prefix (fs_data ?f ?j) (fs_data (files_of s') ?j)"
    by (auto simp: carried_def guarded_def)
  then obtain rest where "fs_data (files_of s') ?j = fs_data ?f ?j @ rest"
    by (auto simp: prefix_def)
  then show ?thesis
    using p load_fits [OF assms(3)] by (simp add: read_body_def read_exact_at_no_faults)
qed

section \<open>A download\<close>

text \<open>The call of a task, and the keys of the calls there are.\<close>

fun call_of :: "task \<Rightarrow> call option" where
  "call_of (Arrived c) = Some c"
| "call_of (Loading c) = Some c"
| "call_of (MakingShard c) = Some c"
| "call_of (Leading c) = Some c"
| "call_of (Arming c i) = Some c"
| "call_of (Checking c i n) = Some c"
| "call_of (Sleeping c i n) = Some c"
| "call_of (Serving c i outcome) = Some c"
| "call_of (Fetching c i) = Some c"
| "call_of (Completing c i outcome r) = Some c"
| "call_of (Notifying c i r) = Some c"
| "call_of (Finishing c i r) = Some c"
| "call_of (Releasing c i reply) = Some c"
| "call_of (Cleaning c i) = Some c"
| "call_of (Done i r) = None"

lemma will_end_call: "will_end t = Some (k, i) \<Longrightarrow> \<exists>c. call_of t = Some c \<and> k = call_key c"
  by (cases t) auto

lemma start_call: "call_of (start_task c) = Some c"
  by (simp add: start_task_def)

lemma advance_calls: "advance E net t s = Some (ts, s') \<Longrightarrow> u \<in> set ts \<Longrightarrow> call_of u = None \<or> call_of u = call_of t"
  by (cases t) (auto simp: task_steps split: option.splits prod.splits sum.splits if_splits role.splits)

lemma cancel_calls: "cancel t s = Some (ts, s') \<Longrightarrow> u \<in> set ts \<Longrightarrow> call_of u = None \<or> call_of u = call_of t"
  by (cases "(t, s)" rule: cancel.cases) auto

definition calls_made :: "env \<Rightarrow> task multiset \<Rightarrow> bool" where
  "calls_made E M \<longleftrightarrow> (\<forall>t\<in>#M. \<forall>c. call_of t = Some c \<longrightarrow> made_by E c)"

lemma calls_replaced:
  assumes "calls_made E (add_mset t R)" and "\<And>u. u \<in> set ts \<Longrightarrow> call_of u = None \<or> call_of u = call_of t"
  shows "calls_made E (mset ts + R)"
  unfolding calls_made_def
proof (intro ballI allI impI)
  fix u c assume u: "u \<in># mset ts + R" "call_of u = Some c"
  show "made_by E c"
  proof (cases "u \<in># R")
    case True
    then show ?thesis
      using assms(1) u(2) by (simp add: calls_made_def)
  next
    case False
    then have "call_of t = Some c"
      using assms(2) [of u] u by simp
    then show ?thesis
      using assms(1) by (simp add: calls_made_def)
  qed
qed

lemma step_calls:
  assumes "step E (s, M) (s', M')" and "calls_made E M"
  shows "calls_made E M'"
  using assms(1)
proof cases
  case running
  then show ?thesis
    using assms(2) advance_calls calls_replaced by (elim run_stepE) blast
next
  case (cancelling t ts R)
  then show ?thesis
    using assms(2) cancel_calls calls_replaced by blast
qed (use assms(2) start_call in \<open>auto simp: calls_made_def\<close>)

lemma reachable_calls: "reachable E cap x \<Longrightarrow> calls_made E (snd x)"
proof (induction rule: reachable.induct)
  case (steps x y)
  then show ?case
    using step_calls [of E "fst x" "snd x" "fst y" "snd y"] by simp
qed (simp add: calls_made_def)

lemma made_key_ok: "made_by E c \<Longrightarrow> \<forall>b. valid_hex (env_digest E b) 64 \<Longrightarrow> key_ok (call_key c)"
  unfolding made_by_def key_ok_def
  by (metis (no_types, lifting) artifact_call_def artifact_key_def call.select_convs(6) hash_key_def metadata_call_def
      metadata_key_def)

text \<open>The leader of a flight is alone with its key.\<close>

lemma leader_alone:
  assumes "reachable E cap (s, add_mset t M)" and "will_end t = Some (key, i)"
  shows "st_inflight (the_store s) key = Some i" and "u \<in># M \<Longrightarrow> will_end u = Some (k, i') \<Longrightarrow> k \<noteq> key"
proof -
  have inv: "owners_ok (flights_of s, phases (add_mset t M))"
    using reachable_inv [OF assms(1)] by (simp add: sf_inv_def view_of_def)
  obtain q where q: "q \<in># phase_of t" "owned q = Some (key, i)"
    using assms(2) will_end_phase by blast
  then have "q \<in># phases (add_mset t M)"
    by simp
  from owners_okD(2) [OF inv this q(2)] show "st_inflight (the_store s) key = Some i"
    by simp
  show "k \<noteq> key" if u: "u \<in># M" "will_end u = Some (k, i')"
  proof
    assume "k = key"
    moreover obtain R where "M = add_mset u R"
      using u(1) by (auto dest: multi_member_split)
    ultimately have "owners key (phases (add_mset t M)) = Suc (Suc (owners key (phases R)))"
      using u(2) assms(2) by (simp add: owners_phases del: phases_simps)
    then show False
      using owners_okD(1) [OF inv, of key] by (simp split: if_splits)
  qed
qed

lemma temp_path_of_other:
  assumes "key_ok key" and "k \<noteq> key"
  shows "paths_temp (paths_for key) \<notin> temp_names k"
proof -
  have "key @ ''.part'' \<noteq> k @ ''.part.'' @ decimal n @ ''.part''" for n
  proof
    assume "key @ ''.part'' = k @ ''.part.'' @ decimal n @ ''.part''"
    then have "key = k @ ''.part.'' @ decimal n"
      by (metis append_assoc append_same_eq)
    then show False
      using assms(1) digest_chars_no_dot [of key 64] by (simp add: key_ok_def)
  qed
  then show ?thesis
    using assms(2) by (auto simp: temp_names_def temp_path_eq)
qed

text \<open>A file that is being downloaded for a key: the other tasks write to other names.\<close>

interpretation writer: bystander "(\<Union>k. temp_names k) - {paths_temp (paths_for key)}" "{paths_temp (paths_for key)}" j d pn
  for key j d pn
  by unfold_locales (auto dest: temp_names_simps(1) simp: temp_not_committed)

lemma writer_apart:
  assumes "reachable E cap (s, add_mset t M)" and "will_end t = Some (key, i)" and "\<forall>b. valid_hex (env_digest E b) 64"
    and "u \<in># M"
  shows "apart_from ((\<Union>k. temp_names k) - {paths_temp (paths_for key)}) {paths_temp (paths_for key)} u"
  unfolding apart_from_def
proof (intro allI impI)
  note calls = reachable_calls [OF assms(1), unfolded snd_conv]
  have ok: "key_ok k" if "v \<in># add_mset t M" "will_end v = Some (k, l)" for v k l
    using will_end_call [OF that(2)] calls that(1) made_key_ok assms(3) unfolding calls_made_def by blast
  fix k l assume u: "will_end u = Some (k, l)"
  have "k \<noteq> key"
    using leader_alone(2) [OF assms(1,2,4) u] .
  moreover have "key_ok key" "key_ok k"
    using ok [of t] ok [of u] assms(2,4) u by auto
  ultimately show "temp_names k \<subseteq> (\<Union>k. temp_names k) - {paths_temp (paths_for key)}
      \<and> body_path k \<notin> {paths_temp (paths_for key)}"
    using temp_path_of_other [of key k] temp_names_body [of k key] temp_names_simps(3) [of key] by auto
qed

text \<open>What the others do is what the whole system does, the leader being where it is.\<close>

lemma others_step:
  assumes "step E (s, M) (s', M')" and "reachable E cap (s, add_mset t M)" and "will_end t = Some (key, i)"
  shows "step E (s, add_mset t M) (s', add_mset t M')"
  using assms(1)
proof cases
  case running
  then obtain net u ts R where "M = add_mset u R" "M' = mset ts + R" "advance E net u s = Some (ts, s')"
    by (elim run_stepE) auto
  then show ?thesis
    using step.running [OF run_step.run [of E net u s ts s' "add_mset t R"]] by (simp add: add_mset_commute)
next
  case (cancelling u ts R)
  then show ?thesis
    using step.cancelling [of u s ts s' E "add_mset t R"] by (simp add: add_mset_commute)
next
  case (admitting c)
  then show ?thesis
    using step.admitting [of E c s "add_mset t M"] by (simp add: add_mset_commute)
next
  case (reaping l)
  have "refers t = Some i"
    using assms(3) by (cases t) auto
  then have "refers t \<noteq> Some l"
    using reaping leader_alone(1) [OF assms(2,3)] by (auto simp: ran_def)
  then show ?thesis
    using reaping step.reaping [of "add_mset t M" l s E] by auto
qed (auto intro: step.intros)

text \<open>
  C7: A download is not disturbed.  While a leader downloads an artifact, nothing the other tasks and the
  janitor do touches its temp file: the name stays its name, the bytes that were written stay, and
  nothing but its own pending bytes is added to them.
\<close>

theorem download_isolated:
  assumes "reachable E cap (s, add_mset t M)" and "will_end t = Some (key, i)"
    and "\<forall>b. valid_hex (env_digest E b) 64" and "wf_fs (files_of s)"
    and "fs_lookup (files_of s) (paths_temp (paths_for key)) = Some (NFile j)"
    and "(step E)\<^sup>*\<^sup>* (s, M) (s', M')"
  shows "fs_lookup (files_of s') (paths_temp (paths_for key)) = Some (NFile j)
    \<and> prefix (fs_data (files_of s) j) (fs_data (files_of s') j)
    \<and> prefix (fs_data (files_of s') j @ fs_pending (files_of s') j) (fs_data (files_of s) j @ fs_pending (files_of s) j)"
proof -
  let ?W = "(\<Union>k. temp_names k) - {paths_temp (paths_for key)}" and ?H = "{paths_temp (paths_for key)}"
  have start: "carried ?W ?H j (fs_data (files_of s) j) (fs_pending (files_of s) j) (files_of s)"
  proof (rule carried_guarded, rule guardedI)
    show "fs_lookup (files_of s) q \<noteq> Some (NFile j)" if "q \<in> ?W" for q
      using wf_fs_inj [OF assms(4,5), of q] that by auto
  qed (use assms(4,5) wf_fs_bound [OF assms(4,5)] in simp_all)
  have "reachable E cap (fst y, add_mset t (snd y))
      \<and> carried ?W ?H j (fs_data (files_of s) j) (fs_pending (files_of s) j) (files_of (fst y))"
    if "(step E)\<^sup>*\<^sup>* (s, M) y" for y
    using that
  proof (induction rule: rtranclp_induct)
    case base
    then show ?case
      using assms(1) start by simp
  next
    case (step y z)
    then have yz: "step E (fst y, snd y) (fst z, snd z)" and r: "reachable E cap (fst y, add_mset t (snd y))"
      by simp_all
    have "reachable E cap (fst z, add_mset t (snd z))"
      using reachable.steps [OF r others_step [OF yz r assms(2)]] .
    moreover have "carried ?W ?H j (fs_data (files_of s) j) (fs_pending (files_of s) j) (files_of (fst z))"
      using carried_step [OF writer.bystander_axioms yz writer_apart [OF r assms(2,3)]] step.IH by simp
    ultimately show ?case
      by simp
  qed
  from this [OF assms(6)] show ?thesis
    by (auto simp: carried_def guarded_def)
qed

section \<open>Instances\<close>

text \<open>While an entry is open, the same document is fetched again with another body.\<close>

lemma open_entry_stable_witness:
  "\<exists>s entry s' M'. load sample_codec sample_key (the_store s) = (Inr (Some entry), the_store s)
     \<and> step (sample_env page_meta) (s, {#Fetching sample_call 0#}) (s', M')
     \<and> (s', M') = (snd (step_fetching (sample_env page_meta) (\<lambda>_. Inr (sample_response 200)) sample_call 0 s),
         mset (fst (step_fetching (sample_env page_meta) (\<lambda>_. Inr (sample_response 200)) sample_call 0 s)))
     \<and> prefix (fs_data (files_of s) (entry_file entry)) (fs_data (files_of s') (entry_file entry))"
proof -
  have len: "length sample_bytes < 2 ^ 64"
    by simp
  obtain t where "store_metadata sample_codec sample_key ''body'' sample_meta fresh_store = (Inr (), t)"
    and t: "fs_faults (st_fs t) = []" "view (st_fs t) (body_path sample_key) = Some (File sample_bytes)"
    "wf_fs (st_fs t)"
    by (rule store_metadata_run [OF fresh_store_wf fresh_store_facts(1) sample_key_ok sample_packed len
          fresh_store_facts(2-5)])
  obtain entry where load: "load sample_codec sample_key t = (Inr (Some entry), t)"
    using load_packed [OF t(1,2) _ sample_packed sample_codec_round_trip] by auto
  let ?s = "initial t" and ?f = "step_fetching (sample_env page_meta) (\<lambda>_. Inr (sample_response 200)) sample_call 0"
  have s: "the_store ?s = t" "with_store (\<lambda>_. t) ?s = ?s"
    by (simp_all add: initial_def the_store_def with_store_def on_app_store_def)
  have "run_step (sample_env page_meta) (?s, add_mset (Fetching sample_call 0) {#}) (snd (?f ?s), mset (fst (?f ?s)) + {#})"
    by (rule run_step.run [where net = "\<lambda>_. Inr (sample_response 200)"]) simp
  then have one: "step (sample_env page_meta) (?s, {#Fetching sample_call 0#}) (snd (?f ?s), mset (fst (?f ?s)))"
    using step.running by simp
  have "prefix (fs_data (files_of ?s) (entry_file entry)) (fs_data (files_of (snd (?f ?s))) (entry_file entry))"
    using open_entry_stable [of ?s sample_key sample_codec entry t "sample_env page_meta" "{#Fetching sample_call 0#}"
        "snd (?f ?s)" "mset (fst (?f ?s))"] load t(3) sample_key_ok one unfolding s by blast
  then show ?thesis
    using load one s(1) by (intro exI [of _ ?s] exI [of _ entry] exI [of _ "snd (?f ?s)"] exI [of _ "mset (fst (?f ?s))"]) simp
qed

text \<open>While a temp file exists, another request for the same key comes and joins the flight.\<close>

lemma download_isolated_witness:
  "\<exists>s. reachable (sample_env page_meta) 4 (s, {#Fetching sample_call 0#})
     \<and> step (sample_env page_meta) (s, {#}) (s, {#start_task sample_call#})
     \<and> fs_lookup (files_of s) (paths_temp (paths_for sample_key)) = Some (NFile 1)
     \<and> prefix (fs_data (files_of s) 1) (fs_data (files_of s) 1)"
proof -
  let ?E = "sample_env page_meta" and ?s = "initial downloaded_store"
  let ?led = "snd (step_leading sample_call ?s)"
  have flights: "st_inflight downloaded_store = Map.empty" "st_upstream_permits downloaded_store = 4"
    "st_next_inflight downloaded_store = 0" "st_outcomes downloaded_store = (\<lambda>_. None)"
    by (simp_all add: downloaded_store_def fresh_flights)
  have lead: "step_leading sample_call ?s = ([Fetching sample_call 0], ?led)" and files: "files_of ?led = st_fs downloaded_store"
    by (simp_all add: step_leading_def run_app_def io_simps join_or_lead_run initial_def the_store_def flights
        sample_call_fields)
  have start: "start_task sample_call = Leading sample_call"
    by (simp add: start_task_def sample_call_fields)
  have admit: "step ?E (s, M) (s, add_mset (start_task sample_call) M)" for s M
    by (rule step.admitting [OF sample_call_made])
  have "reachable ?E 4 (?s, {#})"
    by (rule reachable.start) (simp_all add: flights)
  then have "reachable ?E 4 (?s, add_mset (Leading sample_call) {#})"
    using reachable.steps admit start by metis
  moreover have "run_step ?E (?s, add_mset (Leading sample_call) {#}) (?led, mset [Fetching sample_call 0] + {#})"
    using run_step.run [of ?E undefined "Leading sample_call" ?s "[Fetching sample_call 0]" ?led "{#}"] lead by simp
  ultimately have reach: "reachable ?E 4 (?led, {#Fetching sample_call 0#})"
    using reachable_run by fastforce
  have key: "will_end (Fetching sample_call 0) = Some (sample_key, 0)" "\<forall>b. valid_hex (env_digest ?E b) 64"
    using sample_key_ok by (simp_all add: sample_call_fields sample_env_def key_ok_def)
  have "prefix (fs_data (files_of ?led) 1) (fs_data (files_of ?led) 1)"
    using download_isolated [OF reach key, of 1 ?led "{#start_task sample_call#}"] admit [of ?led "{#}"]
      downloaded_store_wf downloaded_store_facts(4) files by auto
  then show ?thesis
    using reach admit [of ?led "{#}"] files downloaded_store_facts(4) by auto
qed

end
