(* ===== verification/Startup.thy ===== *)
theory Startup
  imports Publish
begin

text \<open>
  \<^verbatim>\<open>src/cache.rs\<close>, startup: claiming and locking the cache directory, removing temp files and files of
  the older layout, and the construction of the store.
\<close>

section \<open>Startup\<close>

definition unowned_cache_directory :: io_error where
  "unowned_cache_directory =
     IoError InvalidInput ''cache directory is nonempty and not owned by vampire''"

fun claim_entries_loop :: "string \<Rightarrow> (bytes \<times> node) list \<Rightarrow> (fs, unit) io" where
  "claim_entries_loop shard [] = next_entry"
| "claim_entries_loop shard ((name, n) # entries) =
     io_bind next_entry (\<lambda>_.
     io_bind (entry_is_file n) (\<lambda>is_file.
     if \<not> is_file then io_fail unowned_cache_directory
     else
       (case to_str name of
          None \<Rightarrow> io_fail unowned_cache_directory
        | Some name \<Rightarrow>
            if \<not> valid_key name shard \<and> legacy_key name shard = None \<and> temp_key name shard = None
            then io_fail unowned_cache_directory
            else claim_entries_loop shard entries)))"

primrec claim_shards_loop :: "(bytes \<times> node) list \<Rightarrow> (fs, unit) io" where
  "claim_shards_loop [] = next_entry"
| "claim_shards_loop (shard # shards) =
     io_bind next_entry (\<lambda>_.
     io_bind (entry_is_dir (snd shard)) (\<lambda>is_dir.
     case to_str (fst shard) of
       Some shard_name \<Rightarrow>
         if is_dir \<and> valid_hex shard_name 2
         then
           io_bind (read_dir [fst shard]) (\<lambda>entries.
           io_bind (claim_entries_loop shard_name entries) (\<lambda>_.
           claim_shards_loop shards))
         else io_fail unowned_cache_directory
     | None \<Rightarrow> io_fail unowned_cache_directory))"

definition marker_contents :: bytes where
  "marker_contents = ''v1'' @ [CHR 0x0A]"

definition claim_cache_directory :: "(fs, unit) io" where
  "claim_cache_directory =
     io_try (read_file [CACHE_MARKER]) (\<lambda>r.
     case r of
       Inr contents \<Rightarrow>
         if contents = marker_contents then io_return () else io_fail unowned_cache_directory
     | Inl e \<Rightarrow>
         if kind e = NotFound
         then
           io_bind (read_dir []) (\<lambda>shards.
           io_bind (claim_shards_loop shards) (\<lambda>_.
           write_file [CACHE_MARKER] marker_contents))
         else io_fail e)"

definition lock_cache_directory :: "(fs, unit) io" where
  "lock_cache_directory =
     io_bind (open_file [CACHE_MARKER]) (\<lambda>_.
     fs_op (\<lambda>s.
       if fs_marker_locked s
       then (Inl (IoError AlreadyExists ''cache directory is already in use''), s)
       else (Inr (), s\<lparr>fs_marker_locked := True\<rparr>)))"

fun cleanup_entries_loop :: "string \<Rightarrow> path \<Rightarrow> (bytes \<times> node) list \<Rightarrow> (fs, unit) io" where
  "cleanup_entries_loop shard dir [] = next_entry"
| "cleanup_entries_loop shard dir ((name, n) # entries) =
     io_bind next_entry (\<lambda>_.
     io_bind (entry_is_file n) (\<lambda>is_file.
     if \<not> is_file then cleanup_entries_loop shard dir entries
     else
       (case to_str name of
          None \<Rightarrow> cleanup_entries_loop shard dir entries
        | Some name' \<Rightarrow>
            if legacy_key name' shard \<noteq> None \<or> temp_key name' shard \<noteq> None
            then io_try (remove_file (dir @ [name])) (\<lambda>_. cleanup_entries_loop shard dir entries)
            else cleanup_entries_loop shard dir entries)))"

fun cleanup_shards_loop :: "(string \<times> path) list \<Rightarrow> (fs, unit) io" where
  "cleanup_shards_loop [] = io_return ()"
| "cleanup_shards_loop ((shard, dir) # shards) =
     io_bind (read_dir dir) (\<lambda>entries.
     io_bind (cleanup_entries_loop shard dir entries) (\<lambda>_.
     cleanup_shards_loop shards))"

definition cleanup_stale_and_legacy :: "(fs, unit) io" where
  "cleanup_stale_and_legacy = io_bind shard_directories cleanup_shards_loop"

text \<open>\<^verbatim>\<open>CacheStore::new\<close> after \<^verbatim>\<open>config.validate()\<close>: the store, or the error and what became of the files.\<close>

definition new_store :: "u64 \<Rightarrow> nat \<Rightarrow> fs \<Rightarrow> store io_result \<times> fs" where
  "new_store max_cache_size max_upstream_fetches =
     io_bind (create_dir_all []) (\<lambda>_.
     io_bind claim_cache_directory (\<lambda>_.
     io_bind lock_cache_directory (\<lambda>_.
     io_bind cleanup_stale_and_legacy (\<lambda>_ f.
     (case evict_files_to_bound (empty_store f max_cache_size max_upstream_fetches) of
        (Inl e, s) \<Rightarrow> (Inl e, st_fs s)
      | (Inr _, s) \<Rightarrow> (Inr s, st_fs s))))))"

section \<open>Lemmas\<close>

subsection \<open>Claiming\<close>

definition children :: "fs \<Rightarrow> path \<Rightarrow> (bytes \<times> node) list" where
  "children s d = map (\<lambda>(p, n). (last p, n)) (filter (\<lambda>(p, n). p \<noteq> [] \<and> butlast p = d) (fs_nodes s))"

text \<open>The names a cache directory may hold: shard directories, and in them entries, temp files and legacy files.\<close>

definition stale_name :: "string \<Rightarrow> string \<Rightarrow> bool" where
  "stale_name shard name \<longleftrightarrow> legacy_key name shard \<noteq> None \<or> temp_key name shard \<noteq> None"

definition owned_entry :: "string \<Rightarrow> bytes \<times> node \<Rightarrow> bool" where
  "owned_entry shard e \<longleftrightarrow>
     snd e \<noteq> NDir \<and> utf8_valid (fst e) \<and> (valid_key (fst e) shard \<or> stale_name shard (fst e))"

definition owned_shard :: "fs \<Rightarrow> bytes \<times> node \<Rightarrow> bool" where
  "owned_shard s e \<longleftrightarrow>
     snd e = NDir \<and> utf8_valid (fst e) \<and> valid_hex (fst e) 2
     \<and> list_all (owned_entry (fst e)) (children s [fst e])"

definition owned_directory :: "fs \<Rightarrow> bool" where
  "owned_directory s \<longleftrightarrow> list_all (owned_shard s) (children s [])"

lemma read_dir_children:
  "fs_faults s = [] \<Longrightarrow> fs_lookup s d = Some NDir \<Longrightarrow> read_dir d s = (Inr (children s d), s)"
  by (simp add: read_dir_def fs_op_no_faults children_def)

lemma children_lookup:
  assumes "wf_fs s" and "(name, n) \<in> set (children s d)"
  shows "fs_lookup s (d @ [name]) = Some n"
proof -
  obtain p where p: "(p, n) \<in> set (fs_nodes s)" "p \<noteq> []" "butlast p = d" "last p = name"
    using assms(2) by (auto simp: children_def)
  then have "p = d @ [name]"
    using append_butlast_last_id [OF p(2)] by simp
  then show ?thesis
    using fs_lookup_node [OF assms(1) p(1,2)] by simp
qed

lemma claim_entries_result:
  "fs_faults s = [] \<Longrightarrow>
     claim_entries_loop shard xs s = (if list_all (owned_entry shard) xs then Inr () else Inl unowned_cache_directory, s)"
  by (induction shard xs rule: claim_entries_loop.induct)
    (auto simp: run_simps to_str_def owned_entry_def stale_name_def)

lemma claim_shards_result:
  assumes "fs_faults s = []" and "\<forall>(name, n)\<in>set xs. fs_lookup s [name] = Some n"
  shows "claim_shards_loop xs s = (if list_all (owned_shard s) xs then Inr () else Inl unowned_cache_directory, s)"
  using assms(2)
proof (induction xs)
  case Nil
  then show ?case using assms(1) by (simp add: dir_ops_no_faults)
next
  case (Cons e xs)
  obtain name n where e: "e = (name, n)"
    by force
  have "read_dir [name] s = (Inr (children s [name]), s)" if "n = NDir"
    using read_dir_children [OF assms(1)] Cons.prems e that by simp
  then show ?case
    using Cons assms(1) e
    by (auto simp: run_simps to_str_def owned_shard_def claim_entries_result)
qed

lemma write_file_marker:
  assumes "fs_faults s = []" and "fs_lookup s p = None" and "fs_lookup s (butlast p) = Some NDir"
    and "wf_fs s" and "p \<noteq> []"
  shows "\<exists>t. write_file p bs s = (Inr (), t) \<and> wf_fs t \<and> view t = (view s)(p \<mapsto> File bs) \<and> fs_faults t = []"
proof -
  obtain i t where create: "create_file p s = (Inr i, t)" and t: "fs_faults t = []"
    using assms(1-3) by (simp add: create_file_def fs_op_no_faults Let_def)
  have w: "changes_at p s t" "writing p i [] t"
    using create_file_view [OF assms(4,5) create] by simp_all
  obtain u where wr: "write_all i bs t = (Inr (), u)" and u: "fs_faults u = []"
    using t by (simp add: write_all_def draw_no_faults Let_def)
  have w2: "changes_at p t u" "writing p i bs u"
    using write_all_view [OF w(2) wr] by simp_all
  obtain v where fl: "flush_file i u = (Inr (), v)" and v: "fs_faults v = []"
    using u by (simp add: flush_file_def draw_no_faults)
  have w3: "changes_at p u v" "view v p = Some (File bs)"
    using flush_file_view [OF w2(2) fl] by simp_all
  have "changes_at p s v"
    using w(1) w2(1) w3(1) changes_at_trans by blast
  then have "wf_fs v" "view v = (view s)(p \<mapsto> File bs)"
    using w3(2) by (auto simp: changes_at_def)
  then show ?thesis
    using create wr fl v by (simp add: write_file_def io_bind_def)
qed

text \<open>
  C29: Ownership of the cache directory.  When nothing fails and the marker is not a directory, the
  directory is claimed exactly if the marker already has the expected contents, or there is no
  marker and every name in it is one the cache makes; a directory that is refused is left exactly as
  it was, and claiming one only writes the marker.
\<close>

theorem claim_cache_directory_spec:
  assumes "fs_faults s = []" and "wf_fs s" and "fs_lookup s [CACHE_MARKER] \<noteq> Some NDir"
  shows "\<exists>t. wf_fs t \<and> fs_faults t = [] \<and>
    (case view s [CACHE_MARKER] of
       Some (File b) \<Rightarrow>
         t = s \<and> claim_cache_directory s
           = (if b = marker_contents then Inr () else Inl unowned_cache_directory, s)
     | _ \<Rightarrow>
         if owned_directory s
         then claim_cache_directory s = (Inr (), t) \<and> view t = (view s)([CACHE_MARKER] \<mapsto> File marker_contents)
         else t = s \<and> claim_cache_directory s = (Inl unowned_cache_directory, s))"
proof (cases "fs_lookup s [CACHE_MARKER]")
  case None
  have read: "read_file [CACHE_MARKER] s = (Inl not_found_error, s)"
    using None assms(1) by (simp add: read_file_def io_bind_def open_file_def fs_op_no_faults)
  have "\<forall>(name, n)\<in>set (children s []). fs_lookup s [name] = Some n"
    using children_lookup [OF assms(2), of _ _ "[]"] by auto
  then have claim: "claim_shards_loop (children s []) s
      = (if owned_directory s then Inr () else Inl unowned_cache_directory, s)"
    using claim_shards_result [OF assms(1)] by (simp add: owned_directory_def)
  obtain t where "write_file [CACHE_MARKER] marker_contents s = (Inr (), t)" "wf_fs t" "fs_faults t = []"
    "view t = (view s)([CACHE_MARKER] \<mapsto> File marker_contents)"
    using write_file_marker [OF assms(1) None _ assms(2)] by auto
  then show ?thesis
    using None read claim read_dir_children [OF assms(1), of "[]"] assms(1,2)
    by (cases "owned_directory s") (auto simp: claim_cache_directory_def io_try_def io_bind_def
        not_found_error_def view_def)
next
  case (Some n)
  with assms(3) obtain i where "fs_lookup s [CACHE_MARKER] = Some (NFile i)"
    by (cases n) auto
  then show ?thesis
    using assms(1,2)
    by (auto simp: claim_cache_directory_def io_try_def read_file_def io_bind_def open_file_def fs_op_no_faults
        io_simps view_def)
qed

lemma claim_cache_directory_spec_witness:
  "claim_cache_directory (st_fs busy_store) = (Inl unowned_cache_directory, st_fs busy_store)
   \<and> \<not> owned_directory ((st_fs busy_store)\<lparr>fs_nodes := ([''README''], NFile 3) # tl (fs_nodes (st_fs busy_store))\<rparr>)"
proof -
  have "view (st_fs busy_store) [CACHE_MARKER] = Some (File [])" "marker_contents \<noteq> []"
    "fs_lookup (st_fs busy_store) [CACHE_MARKER] \<noteq> Some NDir"
    "\<not> owned_directory ((st_fs busy_store)\<lparr>fs_nodes := ([''README''], NFile 3) # tl (fs_nodes (st_fs busy_store))\<rparr>)"
    by code_simp+
  then show ?thesis
    using claim_cache_directory_spec [OF busy_store_ok(1,2)] by auto
qed

subsection \<open>Cleaning\<close>

text \<open>A temp file or a file of the older layout, in a shard directory.\<close>

definition stale_path :: "path \<Rightarrow> bool" where
  "stale_path p \<longleftrightarrow>
     (case p of [shard, name] \<Rightarrow> valid_hex shard 2 \<and> stale_name shard name | _ \<Rightarrow> False)"

definition removes_stale :: "fs \<Rightarrow> fs \<Rightarrow> bool" where
  "removes_stale s t \<longleftrightarrow> wf_fs t \<and> (\<forall>p. view t p = view s p \<or> view t p = None \<and> stale_path p)"

lemma keeps_read_only: "read_only m \<Longrightarrow> keeps (removes_stale s) m"
  by (auto simp: keeps_def removes_stale_def read_only_def dest: faults_same(1,2))
     (metis faults_same(1) faults_same(2) prod.collapse)+

lemma keeps_stale_reads:
  "keeps (removes_stale s) next_entry" "keeps (removes_stale s) (entry_is_file n)" "keeps (removes_stale s) (read_dir d)"
  by (simp_all add: keeps_read_only)

lemma keeps_remove_stale: "stale_path p \<Longrightarrow> keeps (removes_stale s) (remove_file p)"
proof (rule keepsI)
  fix t assume p: "stale_path p" and t: "removes_stale s t"
  then have "p \<noteq> []"
    by (auto simp: stale_path_def)
  with t have "changes_at p t (snd (remove_file p t))"
    by (intro remove_file_changes) (simp_all add: removes_stale_def)
  moreover have "view (snd (remove_file p t)) p \<in> {view t p, None}"
    using remove_file_view [of t p "fst (remove_file p t)" "snd (remove_file p t)"] t \<open>p \<noteq> []\<close>
    by (auto simp: removes_stale_def split: sum.splits)
  ultimately show "removes_stale s (snd (remove_file p t))"
    using t p unfolding removes_stale_def changes_at_def
    by (metis fun_upd_apply insert_iff singletonD)
qed

lemma keeps_cleanup_entries:
  "valid_hex shard 2 \<Longrightarrow> dir = [shard] \<Longrightarrow> keeps (removes_stale s) (cleanup_entries_loop shard dir xs)"
  by (induction shard dir xs rule: cleanup_entries_loop.induct)
    (auto intro!: keeps_bind keeps_try keeps_stale_reads keeps_remove_stale
      simp: stale_path_def stale_name_def to_str_def)

lemma keeps_cleanup_shards:
  "list_all (\<lambda>(shard, dir). dir = [shard] \<and> valid_hex shard 2) xs \<Longrightarrow>
     keeps (removes_stale s) (cleanup_shards_loop xs)"
  by (induction xs rule: cleanup_shards_loop.induct)
    (auto intro!: keeps_bind keeps_stale_reads keeps_cleanup_entries)

lemma cleanup_removes_stale:
  assumes "wf_fs s"
  shows "removes_stale s (snd (cleanup_stale_and_legacy s))"
proof -
  obtain r t where run: "shard_directories s = (r, t)"
    by force
  have t: "removes_stale s t"
    using read_onlyD [OF read_only_shard_directories run] assms faults_same(1,2) [of t s]
    by (simp add: removes_stale_def)
  show ?thesis
  proof (cases r)
    case (Inl e)
    with run t show ?thesis by (simp add: cleanup_stale_and_legacy_def io_bind_def)
  next
    case (Inr shards)
    have "keeps (removes_stale s) (cleanup_shards_loop shards)"
      using yieldsD [OF shard_directories_yields] run Inr by (intro keeps_cleanup_shards) blast
    with run t Inr show ?thesis
      by (simp add: cleanup_stale_and_legacy_def io_bind_def keeps_def)
  qed
qed

text \<open>Without failures every stale file goes.\<close>

lemma view_unlinks:
  "\<forall>p\<in>set ps. p \<noteq> [] \<Longrightarrow> view (fold fs_unlink ps s) = (\<lambda>p. if p \<in> set ps then None else view s p)"
  by (induction ps arbitrary: s) (auto simp: view_unlink fun_eq_iff)

lemma cleanup_entries_result:
  assumes "fs_faults s = []" and "\<forall>(name, n)\<in>set xs. n \<noteq> NDir \<longrightarrow> fs_lookup s (dir @ [name]) \<noteq> Some NDir"
  shows "cleanup_entries_loop shard dir xs s =
    (Inr (), fold fs_unlink (map (\<lambda>(name, n). dir @ [name])
       (filter (\<lambda>(name, n). n \<noteq> NDir \<and> utf8_valid name \<and> stale_name shard name) xs)) s)"
  using assms
proof (induction xs arbitrary: s)
  case Nil
  then show ?case by (simp add: dir_ops_no_faults)
next
  case (Cons e xs)
  obtain name n where e: "e = (name, n)"
    by force
  show ?case
  proof (cases "n \<noteq> NDir \<and> utf8_valid name \<and> stale_name shard name")
    case True
    then have "remove_file (dir @ [name]) s
        = (if fs_lookup s (dir @ [name]) = None then Inl not_found_error else Inr (), fs_unlink (dir @ [name]) s)"
      using Cons.prems e by (intro remove_file_result) auto
    moreover have "cleanup_entries_loop shard dir xs (fs_unlink (dir @ [name]) s) =
      (Inr (), fold fs_unlink (map (\<lambda>(name, n). dir @ [name])
       (filter (\<lambda>(name, n). n \<noteq> NDir \<and> utf8_valid name \<and> stale_name shard name) xs)) (fs_unlink (dir @ [name]) s))"
      using Cons.prems by (intro Cons.IH) (auto simp: fs_lookup_unlink split: if_splits)
    ultimately show ?thesis
      using True Cons.prems(1) e by (auto simp: run_simps to_str_def stale_name_def)
  next
    case False
    then show ?thesis
      using Cons.IH [OF Cons.prems(1)] Cons.prems e by (auto simp: run_simps to_str_def stale_name_def)
  qed
qed

lemma cleanup_shard_view:
  assumes "fs_faults s = []" and "wf_fs s" and "fs_lookup s dir = Some NDir"
  shows "\<exists>t. cleanup_entries_loop shard dir (children s dir) s = (Inr (), t) \<and> fs_faults t = [] \<and> wf_fs t
    \<and> (\<forall>p. view t p =
         (if p \<noteq> [] \<and> butlast p = dir \<and> utf8_valid (last p) \<and> stale_name shard (last p) \<and> (\<exists>b. view s p = Some (File b))
          then None else view s p))"
proof -
  let ?ps = "map (\<lambda>(name, n). dir @ [name])
       (filter (\<lambda>(name, n). n \<noteq> NDir \<and> utf8_valid name \<and> stale_name shard name) (children s dir))"
  have "\<forall>(name, n)\<in>set (children s dir). n \<noteq> NDir \<longrightarrow> fs_lookup s (dir @ [name]) \<noteq> Some NDir"
    using children_lookup [OF assms(2)] by auto
  from cleanup_entries_result [OF assms(1) this, of shard]
  have run: "cleanup_entries_loop shard dir (children s dir) s = (Inr (), fold fs_unlink ?ps s)" .
  have mem: "p \<in> set ?ps \<longleftrightarrow>
      p \<noteq> [] \<and> butlast p = dir \<and> utf8_valid (last p) \<and> stale_name shard (last p) \<and> (\<exists>b. view s p = Some (File b))" for p
  proof
    assume "p \<in> set ?ps"
    then obtain name n where n: "p = dir @ [name]" "(name, n) \<in> set (children s dir)" "n \<noteq> NDir"
      "utf8_valid name" "stale_name shard name"
      by auto
    from children_lookup [OF assms(2) n(2)] n show "p \<noteq> [] \<and> butlast p = dir \<and> utf8_valid (last p)
        \<and> stale_name shard (last p) \<and> (\<exists>b. view s p = Some (File b))"
      by (cases n) (auto simp: view_File)
  next
    assume p: "p \<noteq> [] \<and> butlast p = dir \<and> utf8_valid (last p) \<and> stale_name shard (last p) \<and> (\<exists>b. view s p = Some (File b))"
    then obtain i where "(p, NFile i) \<in> set (fs_nodes s)"
      by (auto simp: view_File fs_lookup_def split: if_splits dest: map_of_SomeD)
    with p have "(last p, NFile i) \<in> set (children s dir)" "p = dir @ [last p]"
      by (force simp: children_def, metis append_butlast_last_id)
    then show "p \<in> set ?ps"
      using p by force
  qed
  have wf: "wf_fs (fold fs_unlink ps s)" for ps
    using assms(2) by (induction ps arbitrary: s) (simp_all add: wf_fs_unlink)
  have "view (fold fs_unlink ?ps s) = (\<lambda>p. if p \<in> set ?ps then None else view s p)"
    by (rule view_unlinks) auto
  then show ?thesis
    unfolding run mem using wf assms(1) by (auto simp: faults_unlinks)
qed

lemma cleanup_shards_view:
  assumes "fs_faults s = []" and "wf_fs s"
    and "\<forall>(shard, dir)\<in>set shards. dir = [shard] \<and> fs_lookup s dir = Some NDir"
  shows "\<exists>t. cleanup_shards_loop shards s = (Inr (), t) \<and> fs_faults t = [] \<and> wf_fs t
    \<and> (\<forall>p. view t p =
         (if (\<exists>shard name. p = [shard, name] \<and> (shard, [shard]) \<in> set shards \<and> utf8_valid name
                \<and> stale_name shard name \<and> (\<exists>b. view s p = Some (File b)))
          then None else view s p))"
  using assms
proof (induction shards arbitrary: s)
  case Nil
  then show ?case by (simp add: io_simps)
next
  case (Cons sd shards)
  obtain shard where sd: "sd = (shard, [shard])" and dir: "fs_lookup s [shard] = Some NDir"
    using Cons.prems(3) by (cases sd) auto
  obtain u where u: "cleanup_entries_loop shard [shard] (children s [shard]) s = (Inr (), u)" "fs_faults u = []" "wf_fs u"
    and uv: "\<And>p. view u p =
         (if p \<noteq> [] \<and> butlast p = [shard] \<and> utf8_valid (last p) \<and> stale_name shard (last p) \<and> (\<exists>b. view s p = Some (File b))
          then None else view s p)"
    using cleanup_shard_view [OF Cons.prems(1,2) dir] by blast
  have "\<forall>(shard, dir)\<in>set shards. dir = [shard] \<and> fs_lookup u dir = Some NDir"
  proof (clarify, intro conjI)
    fix a b assume ab: "(a, b) \<in> set shards"
    then show "b = [a]"
      using Cons.prems(3) by auto
    have "view s b = Some Dir"
      using Cons.prems(3) ab by auto
    then have "view u b = Some Dir"
      unfolding uv [of b] by (auto simp: view_File)
    then show "fs_lookup u b = Some NDir"
      by simp
  qed
  from Cons.IH [OF u(2,3) this] obtain t where t: "cleanup_shards_loop shards u = (Inr (), t)" "fs_faults t = []" "wf_fs t"
    and tv: "\<And>p. view t p =
         (if (\<exists>shard name. p = [shard, name] \<and> (shard, [shard]) \<in> set shards \<and> utf8_valid name
                \<and> stale_name shard name \<and> (\<exists>b. view u p = Some (File b)))
          then None else view u p)"
    by blast
  have "cleanup_shards_loop (sd # shards) s = (Inr (), t)"
    using t(1) u(1) sd read_dir_children [OF Cons.prems(1) dir] by (simp add: io_bind_def)
  moreover have "view t p =
         (if (\<exists>a name. p = [a, name] \<and> (a, [a]) \<in> set (sd # shards) \<and> utf8_valid name
                \<and> stale_name a name \<and> (\<exists>b. view s p = Some (File b)))
          then None else view s p)" for p
  proof (cases "\<exists>a name. p = [a, name]")
    case True
    then obtain a name where "p = [a, name]"
      by blast
    then show ?thesis
      using tv [of p] uv [of p] sd by auto
  next
    case False
    then have "\<not> (p \<noteq> [] \<and> butlast p = [shard])"
      by (metis append_Cons append_Nil append_butlast_last_id)
    with False show ?thesis
      using tv [of p] uv [of p] by auto
  qed
  ultimately show ?case
    using t(2,3) by blast
qed

lemma ascii_utf8: "list_all (in_range 0 0x7F) v \<Longrightarrow> utf8_valid v"
  by (induction v) auto

lemma hex_ascii: "valid_hex v n \<Longrightarrow> list_all (in_range 0 0x7F) v"
  by (auto simp: valid_hex_def list_all_iff intro: hexdigit_ascii)

lemma stale_name_utf8: "stale_name shard name \<Longrightarrow> utf8_valid name"
proof (rule ascii_utf8)
  assume "stale_name shard name"
  then consider (legacy) k where "legacy_key name shard = Some k" | (temp) k where "temp_key name shard = Some k"
    by (auto simp: stale_name_def)
  then show "list_all (in_range 0 0x7F) name"
  proof cases
    case (legacy k)
    then obtain key suf where "valid_key key shard" "name = key @ suf" "suf = ''.json'' \<or> suf = ''.body''"
      by (auto simp: legacy_key_def strip_suffix_Some split: option.splits if_splits)
    then show ?thesis
      by (auto simp: valid_key_def in_range_def dest!: hex_ascii)
  next
    case (temp k)
    then obtain w where w: "name = w @ ''.part''" and "valid_key w shard \<or> (\<exists>key counter.
        rsplit_once ''.part.'' w = Some (key, counter) \<and> valid_key key shard \<and> list_all is_ascii_digit counter)"
      by (auto simp: temp_key_def strip_suffix_Some split: option.splits if_splits)
    moreover have "list_all is_ascii_digit counter \<Longrightarrow> list_all (in_range 0 0x7F) counter" for counter
      by (auto simp: list_all_iff intro: hexdigit_ascii)
    ultimately show ?thesis
      by (auto simp: valid_key_def in_range_def dest!: hex_ascii rsplit_once_Some)
  qed
qed

lemma stale_not_valid: "valid_key name shard \<Longrightarrow> \<not> stale_name shard name"
  by (simp add: stale_name_def valid_key_not_legacy valid_key_not_temp)

lemma cleanup_result:
  assumes "fs_faults s = []" and "wf_fs s"
  shows "\<exists>t. cleanup_stale_and_legacy s = (Inr (), t) \<and> fs_faults t = [] \<and> wf_fs t
    \<and> (\<forall>p. view t p =
         (if stale_path p \<and> view s (butlast p) = Some Dir \<and> (\<exists>b. view s p = Some (File b))
          then None else view s p))"
proof -
  have shards: "(shard, [shard]) \<in> set (shards_of s) \<longleftrightarrow> view s [shard] = Some Dir \<and> valid_hex shard 2" for shard
  proof
    assume m: "(shard, [shard]) \<in> set (shards_of s)"
    then have node: "([shard], NDir) \<in> set (fs_nodes s)"
      by (auto simp: shards_of_def set_map_filter split: if_splits)
    show "view s [shard] = Some Dir \<and> valid_hex shard 2"
      using shards_of_dir [OF m] fs_lookup_node [OF assms(2) node] by simp
  next
    assume "view s [shard] = Some Dir \<and> valid_hex shard 2"
    then have "([shard], NDir) \<in> set (fs_nodes s)" "valid_hex shard 2" "utf8_valid shard"
      by (auto simp: fs_lookup_def dest: map_of_SomeD valid_hex_utf8)
    then show "(shard, [shard]) \<in> set (shards_of s)"
      by (force simp: shards_of_def set_map_filter)
  qed
  have "\<forall>(shard, dir)\<in>set (shards_of s). dir = [shard] \<and> fs_lookup s dir = Some NDir"
  proof clarify
    fix shard dir assume m: "(shard, dir) \<in> set (shards_of s)"
    show "dir = [shard] \<and> fs_lookup s dir = Some NDir"
      using shards_of_dir [OF m] shards [of shard] m by simp
  qed
  from cleanup_shards_view [OF assms this]
  obtain t where t: "cleanup_shards_loop (shards_of s) s = (Inr (), t)" "fs_faults t = []" "wf_fs t"
    and tv: "\<And>p. view t p =
         (if (\<exists>shard name. p = [shard, name] \<and> (shard, [shard]) \<in> set (shards_of s) \<and> utf8_valid name
                \<and> stale_name shard name \<and> (\<exists>b. view s p = Some (File b)))
          then None else view s p)"
    by blast
  have "(\<exists>shard name. p = [shard, name] \<and> (shard, [shard]) \<in> set (shards_of s) \<and> utf8_valid name
                \<and> stale_name shard name \<and> (\<exists>b. view s p = Some (File b))) \<longleftrightarrow>
      stale_path p \<and> view s (butlast p) = Some Dir \<and> (\<exists>b. view s p = Some (File b))" for p
    unfolding shards using stale_name_utf8 by (auto simp: stale_path_def split: list.splits)
  then have "cleanup_stale_and_legacy s = (Inr (), t)" and "\<And>p. view t p =
         (if stale_path p \<and> view s (butlast p) = Some Dir \<and> (\<exists>b. view s p = Some (File b))
          then None else view s p)"
    using t(1) tv by (simp_all add: cleanup_stale_and_legacy_def io_bind_def shard_directories_result [OF assms(1)])
  then show ?thesis
    using t(2,3) by blast
qed

text \<open>
  Cleaning at startup.  Whatever fails, the pass removes nothing but temp files and files of the
  older layout inside shard directories, so every committed entry and every foreign file stays; when
  nothing fails it removes all of them.
\<close>

lemma cleanup_stale_and_legacy_spec:
  assumes "wf_fs s" and "cleanup_stale_and_legacy s = (r, t)"
  shows "(\<forall>p. view t p = view s p \<or> view t p = None \<and> stale_path p)
    \<and> (\<forall>p\<in>committed (view s). view t p = view s p)
    \<and> (fs_faults s = [] \<longrightarrow> r = Inr () \<and>
         (\<forall>p b. stale_path p \<and> view s (butlast p) = Some Dir \<longrightarrow> view t p \<noteq> Some (File b)))"
proof (intro conjI)
  show only: "\<forall>p. view t p = view s p \<or> view t p = None \<and> stale_path p"
    using cleanup_removes_stale [OF assms(1)] assms(2) by (simp add: removes_stale_def)
  have "\<not> stale_path p" if "p \<in> committed (view s)" for p
    using that stale_not_valid by (auto simp: committed_def stale_path_def)
  then show "\<forall>p\<in>committed (view s). view t p = view s p"
    using only by blast
  show "fs_faults s = [] \<longrightarrow> r = Inr () \<and>
         (\<forall>p b. stale_path p \<and> view s (butlast p) = Some Dir \<longrightarrow> view t p \<noteq> Some (File b))"
  proof
    assume "fs_faults s = []"
    from cleanup_result [OF this assms(1)] assms(2) show "r = Inr () \<and>
         (\<forall>p b. stale_path p \<and> view s (butlast p) = Some Dir \<longrightarrow> view t p \<noteq> Some (File b))"
      by auto
  qed
qed

subsection \<open>Construction\<close>

lemma keeps_locked: "keeps fs_marker_locked cleanup_stale_and_legacy"
proof -
  have reads: "keeps fs_marker_locked m" if "read_only m" for m :: "(fs, 'a) io"
    using that by (auto simp: keeps_def read_only_def) (metis faults_same(10))
  have remove: "keeps fs_marker_locked (remove_file p)" for p
    unfolding remove_file_def by (rule keeps_fs_op) (auto simp: keeps_def split: option.split node.split)
  have entries: "keeps fs_marker_locked (cleanup_entries_loop shard dir xs)" for shard dir xs
    by (induction shard dir xs rule: cleanup_entries_loop.induct)
      (auto intro!: keeps_bind keeps_try reads [OF read_only_dir_ops(1)] reads [OF read_only_dir_ops(3)] remove
        split: option.split)
  have "keeps fs_marker_locked (cleanup_shards_loop xs)" for xs
    by (induction xs rule: cleanup_shards_loop.induct)
      (auto intro!: keeps_bind entries reads [OF read_only_reads(2)])
  then show ?thesis
    unfolding cleanup_stale_and_legacy_def
    by (intro keeps_bind reads [OF read_only_shard_directories])
qed

lemma total_size_same:
  assumes "wf_fs s" and "wf_fs t" and "committed (view t) = committed (view s)"
    and "\<And>p. p \<in> committed (view s) \<Longrightarrow> view t p = view s p"
  shows "total_size (entries_of t) = total_size (entries_of s)"
  unfolding total_size_view(1) [OF assms(1)] total_size_view(1) [OF assms(2)] assms(3)
  using assms(4) by (intro sum.cong) (simp_all add: size_at_def)

lemma lock_result:
  assumes "fs_faults s = []" and "view s [CACHE_MARKER] = Some (File b)"
  shows "lock_cache_directory s =
    (if fs_marker_locked s then (Inl (IoError AlreadyExists ''cache directory is already in use''), s)
     else (Inr (), s\<lparr>fs_marker_locked := True\<rparr>))"
  using assms
  by (auto simp: lock_cache_directory_def io_bind_def open_file_def fs_op_no_faults view_File)

lemma locked_same: "view (s\<lparr>fs_marker_locked := b\<rparr>) = view s" "wf_fs (s\<lparr>fs_marker_locked := b\<rparr>) = wf_fs s"
  by (rule view_cong, simp_all) (auto intro: wf_fs_cong)

text \<open>The first three steps, on a directory that was claimed.\<close>

lemma make_root: "fs_faults h = [] \<Longrightarrow> create_dir_all [] h = (Inr (), h)"
  by (simp add: create_dir_all_def fs_op_no_faults)

lemma claim_claimed:
  "fs_faults h = [] \<Longrightarrow> view h [CACHE_MARKER] = Some (File marker_contents) \<Longrightarrow> claim_cache_directory h = (Inr (), h)"
  by (auto simp: claim_cache_directory_def io_try_def read_file_def io_bind_def open_file_def fs_op_no_faults io_simps
      view_File)

lemma new_store_in_use:
  assumes "fs_faults h = []" and "view h [CACHE_MARKER] = Some (File marker_contents)" and "fs_marker_locked h"
  shows "fst (new_store max_size fetches h) = Inl (IoError AlreadyExists ''cache directory is already in use'')"
  using make_root [OF assms(1)] claim_claimed [OF assms(1,2)] lock_result [OF assms(1,2)] assms(3)
  by (simp add: new_store_def io_bind_def)

lemma new_store_InrE:
  assumes "new_store max_size fetches f = (Inr s, g)"
  obtains h r where "evict_files_to_bound (empty_store h max_size fetches) = (r, s)" and "g = st_fs s"
proof -
  obtain h where "(case evict_files_to_bound (empty_store h max_size fetches) of
      (Inl e, s) \<Rightarrow> (Inl e, st_fs s) | (Inr _, s) \<Rightarrow> (Inr s, st_fs s)) = (Inr s, g)"
    using assms unfolding new_store_def by (auto elim!: io_bind_InrE)
  then show thesis
    using that by (auto split: prod.splits sum.splits)
qed

lemma new_store_run:
  assumes "fs_faults f = []" and "wf_fs f" and "\<not> fs_marker_locked f"
    and "view f [CACHE_MARKER] = Some (File marker_contents)"
    and "total_size (entries_of f) < 2 ^ 64"
  obtains t u where "new_store max_size fetches f = (Inr u, st_fs u)" and "fs_faults (st_fs u) = []"
    and "\<And>p. view t p =
         (if stale_path p \<and> view f (butlast p) = Some Dir \<and> (\<exists>b. view f p = Some (File b)) then None else view f p)"
    and "fs_marker_locked t" and "only_evicts (empty_store t max_size fetches) u"
    and "total_size (entries_of (st_fs u)) \<le> unat max_size"
proof -
  let ?g = "f\<lparr>fs_marker_locked := True\<rparr>"
  obtain t where clean: "cleanup_stale_and_legacy ?g = (Inr (), t)" and t: "fs_faults t = []" "wf_fs t"
    and tv: "\<And>p. view t p =
         (if stale_path p \<and> view f (butlast p) = Some Dir \<and> (\<exists>b. view f p = Some (File b)) then None else view f p)"
    using cleanup_result [of ?g, unfolded locked_same] assms(1,2) by auto
  let ?s = "empty_store t max_size fetches"
  have entry: "view t p = view f p" if "\<not> stale_path p" for p
    using tv [of p] that by simp
  have dirs: "view t [shard] = view f [shard]" for shard
    by (rule entry) (simp add: stale_path_def)
  have keys: "view t [shard, key] = view f [shard, key]" if "valid_key key shard" for shard key
    by (rule entry) (use that stale_not_valid in \<open>simp add: stale_path_def\<close>)
  have committed: "committed (view t) = committed (view f)"
    using keys by (auto simp: committed_def dirs [unfolded view_Dir])
  have "view t p = view f p" if "p \<in> committed (view f)" for p
    using that keys by (auto simp: committed_def)
  with committed have size: "total_size (entries_of t) = total_size (entries_of f)"
    by (intro total_size_same assms(2) t(2))
  obtain u where evict: "evict_files_to_bound ?s = (Inr (), u)"
    and u: "total_size (entries_of (st_fs u)) \<le> unat max_size \<or> (\<forall>e\<in>set (entries_of (st_fs u)). live_pin ?s (ce_key e))"
    using evict_bound [of ?s] t size assms(5) by (auto simp: empty_store_def)
  have run: "new_store max_size fetches f = (Inr u, st_fs u)"
    using make_root [OF assms(1)] claim_claimed [OF assms(1,4)] lock_result [OF assms(1,4)] assms(3) clean evict
    by (simp add: new_store_def io_bind_def)
  have ev: "only_evicts ?s u"
    using evict_only_unpinned [of ?s] evict by simp
  have small: "total_size (entries_of (st_fs u)) \<le> unat max_size"
  proof -
    have "\<not> live_pin ?s k" for k
      by (simp add: live_pin_def empty_store_def)
    then have "entries_of (st_fs u) = []" if "\<forall>e\<in>set (entries_of (st_fs u)). live_pin ?s (ce_key e)"
      using that by (cases "entries_of (st_fs u)") auto
    with u show ?thesis
      by auto
  qed
  moreover have "fs_faults (st_fs u) = []"
  proof -
    have s: "fs_faults (st_fs ?s) = []" "wf_fs (st_fs ?s)"
      using t by (simp_all add: empty_store_def)
    obtain v where "evict_files_to_bound ?s = (Inr (), v)" "live_pin v = live_pin ?s"
      "st_fs v = fold fs_unlink (map ce_body (eviction_victims ?s)) (st_fs ?s)"
      by (rule eviction_result [OF s])
    then show ?thesis
      using evict s(1) by (simp add: faults_unlinks)
  qed
  moreover have "fs_marker_locked t"
    using keepsD [OF keeps_locked, of ?g] clean by simp
  ultimately show thesis
    using that [OF run] tv ev by blast
qed

text \<open>
  C28: A store that comes up is clean.  On a directory that is owned and not in use, when nothing fails,
  \<^verbatim>\<open>CacheStore::new\<close> succeeds: the directory is locked, no temp file or legacy file is left in it, its
  entries add up to at most \<^verbatim>\<open>max_cache_size\<close>, all permits are available, and a second store on the same
  directory is refused with \<^verbatim>\<open>AlreadyExists\<close>.
\<close>

theorem new_store_spec:
  assumes "fs_faults f = []" and "wf_fs f" and "\<not> fs_marker_locked f"
    and "view f [CACHE_MARKER] = Some (File marker_contents)"
    and "total_size (entries_of f) < 2 ^ 64"
  shows "\<exists>s. new_store max_size fetches f = (Inr s, st_fs s)
    \<and> total_size (entries_of (st_fs s)) \<le> unat max_size
    \<and> (\<forall>p b. stale_path p \<and> view (st_fs s) (butlast p) = Some Dir \<longrightarrow> view (st_fs s) p \<noteq> Some (File b))
    \<and> st_upstream_permits s = fetches \<and> st_memory_permits s = METADATA_MEMORY_BUDGET_MIB
    \<and> fst (new_store max_size fetches (st_fs s)) = Inl (IoError AlreadyExists ''cache directory is already in use'')"
proof -
  obtain t u where run: "new_store max_size fetches f = (Inr u, st_fs u)" "fs_faults (st_fs u) = []"
    and tv: "\<And>p. view t p =
         (if stale_path p \<and> view f (butlast p) = Some Dir \<and> (\<exists>b. view f p = Some (File b)) then None else view f p)"
    and locked: "fs_marker_locked t" and ev: "only_evicts (empty_store t max_size fetches) u"
    and size: "total_size (entries_of (st_fs u)) \<le> unat max_size"
    using new_store_run [where max_size = max_size and fetches = fetches, OF assms] by blast
  have uv: "view (st_fs u) p = view t p \<or> view (st_fs u) p = None \<and> evictable (empty_store t max_size fetches) p" for p
    using only_evicts_view [OF ev, of p] by (simp add: empty_store_def)
  have "view (st_fs u) p \<noteq> Some (File b)" if "stale_path p" "view (st_fs u) (butlast p) = Some Dir" for p b
  proof -
    have "view t (butlast p) = Some Dir"
      using uv [of "butlast p"] that(2) by simp
    then have "view f (butlast p) = Some Dir"
      using tv [of "butlast p"] by (auto split: if_splits)
    then have "view t p \<noteq> Some (File b)"
      using tv [of p] that(1) by auto
    then show ?thesis
      using uv [of p] by auto
  qed
  moreover have "st_upstream_permits u = fetches" "st_memory_permits u = METADATA_MEMORY_BUDGET_MIB"
    using ev by (simp_all add: only_evicts_def empty_store_def)
  moreover have "view (st_fs u) [CACHE_MARKER] = Some (File marker_contents)"
    using uv [of "[CACHE_MARKER]"] tv [of "[CACHE_MARKER]"] assms(4) by (simp add: evictable_def stale_path_def)
  moreover have "fs_marker_locked (st_fs u)"
    using ev locked by (simp add: only_evicts_def empty_store_def)
  ultimately show ?thesis
    using run size new_store_in_use [OF run(2)] by blast
qed

lemma sample_directory:
  fixes f defines "f \<equiv> (st_fs downloaded_store)\<lparr>fs_marker_locked := False,
    fs_data := (fs_data (st_fs downloaded_store))(0 := marker_contents)\<rparr>"
  shows "fs_faults f = []" and "wf_fs f" and "\<not> fs_marker_locked f" and "view f [CACHE_MARKER] = Some (File marker_contents)"
    and "total_size (entries_of f) < 2 ^ 64"
proof -
  show "fs_faults f = []" "\<not> fs_marker_locked f" "view f [CACHE_MARKER] = Some (File marker_contents)"
    unfolding f_def by code_simp+
  have "total_size (entries_of f) = 0"
    unfolding f_def by code_simp
  then show "total_size (entries_of f) < 2 ^ 64"
    by simp
  show "wf_fs f"
    unfolding f_def using downloaded_store_wf by (rule wf_fs_cong) simp_all
qed

lemma sample_new_store:
  obtains t where "new_store 100 4 ((st_fs downloaded_store)\<lparr>fs_marker_locked := False,
      fs_data := (fs_data (st_fs downloaded_store))(0 := marker_contents)\<rparr>) = (Inr t, st_fs t)"
  by (rule new_store_run [OF sample_directory, where max_size = 100 and fetches = 4])

lemma new_store_spec_witness:
  "let f = (st_fs downloaded_store)\<lparr>fs_marker_locked := False, fs_data := (fs_data (st_fs downloaded_store))(0 := marker_contents)\<rparr>
   in \<exists>s. new_store 100 4 f = (Inr s, st_fs s) \<and> st_upstream_permits s = 4"
  using new_store_spec [OF sample_directory, where max_size = 100 and fetches = 4] by auto

end
