(* ===== verification/Publications.thy ===== *)
theory Publications
  imports Interference Startup
begin

text \<open>
  The publications (\<^verbatim>\<open>PublishedEntry\<close>) that tasks and outcomes hold, against the reference counts and pins of the
  store.  Every clone and every drop of the code adds or removes one owner in a multiset, and the invariant
  says that no owner is counted twice, lost or kept for ever.
\<close>

section \<open>Publications of the store\<close>

text \<open>
  \<open>P\<close> are the owned publications: each reference count is the number of owners, and a key is pinned only by a
  publication of that key that has an owner.
\<close>

definition pins_ok :: "published_entry multiset \<Rightarrow> store \<Rightarrow> bool" where
  "pins_ok P s \<longleftrightarrow>
     (\<forall>i. st_pin_refs s i = size {#p \<in># P. pub_pin p = i#})
     \<and> (\<forall>p\<in>#P. pub_pin p < st_next_pin s)
     \<and> (\<forall>p\<in>#P. \<forall>q\<in>#P. pub_pin p = pub_pin q \<longrightarrow> pub_key p = pub_key q)
     \<and> (\<forall>k i. st_pins s k = Some i \<longrightarrow> (\<exists>p\<in>#P. pub_pin p = i \<and> pub_key p = k))"

lemma pins_okI:
  assumes "\<And>i. st_pin_refs s i = size {#p \<in># P. pub_pin p = i#}" and "\<And>p. p \<in># P \<Longrightarrow> pub_pin p < st_next_pin s"
    and "\<And>p q. p \<in># P \<Longrightarrow> q \<in># P \<Longrightarrow> pub_pin p = pub_pin q \<Longrightarrow> pub_key p = pub_key q"
    and "\<And>k i. st_pins s k = Some i \<Longrightarrow> \<exists>p\<in>#P. pub_pin p = i \<and> pub_key p = k"
  shows "pins_ok P s"
  using assms unfolding pins_ok_def by blast

lemma pins_okD:
  assumes "pins_ok P s"
  shows "st_pin_refs s i = size {#p \<in># P. pub_pin p = i#}" and "p \<in># P \<Longrightarrow> pub_pin p < st_next_pin s"
    and "p \<in># P \<Longrightarrow> q \<in># P \<Longrightarrow> pub_pin p = pub_pin q \<Longrightarrow> pub_key p = pub_key q"
    and "st_pins s k = Some i \<Longrightarrow> \<exists>p\<in>#P. pub_pin p = i \<and> pub_key p = k"
  using assms unfolding pins_ok_def by blast+

lemma pins_ok_cong:
  "st_pin_refs t = st_pin_refs s \<Longrightarrow> st_next_pin t = st_next_pin s \<Longrightarrow> st_pins t = st_pins s \<Longrightarrow> pins_ok P t = pins_ok P s"
  by (simp add: pins_ok_def)

lemma pins_ok_updates [simp]:
  "pins_ok P (s\<lparr>st_fs := f\<rparr>) = pins_ok P s" "pins_ok P (s\<lparr>st_temp_counter := c\<rparr>) = pins_ok P s"
  "pins_ok P (s\<lparr>st_memory_permits := n\<rparr>) = pins_ok P s" "pins_ok P (s\<lparr>st_janitor_queue := n\<rparr>) = pins_ok P s"
  "pins_ok P (s\<lparr>st_inflight := m\<rparr>) = pins_ok P s" "pins_ok P (s\<lparr>st_outcomes := q\<rparr>) = pins_ok P s"
  "pins_ok P (s\<lparr>st_next_inflight := n\<rparr>) = pins_ok P s" "pins_ok P (s\<lparr>st_upstream_permits := n\<rparr>) = pins_ok P s"
  by (rule pins_ok_cong; simp)+

text \<open>Forgetting pins is always possible: eviction drops the dead ones.\<close>

lemma pins_ok_fewer:
  assumes "pins_ok P s" and "st_pin_refs t = st_pin_refs s" and "st_next_pin t = st_next_pin s"
    and "\<And>k i. st_pins t k = Some i \<Longrightarrow> st_pins s k = Some i"
  shows "pins_ok P t"
proof (rule pins_okI)
  note ok = pins_okD [OF assms(1)]
  show "pub_key p = pub_key q" if "p \<in># P" "q \<in># P" "pub_pin p = pub_pin q" for p q
    using that by (rule ok(3))
  show "\<exists>p\<in>#P. pub_pin p = i \<and> pub_key p = k" if "st_pins t k = Some i" for k i
    using assms(4) [OF that] by (rule ok(4))
qed (use pins_okD(1,2) [OF assms(1)] assms(2,3) in simp_all)

lemma pins_ok_clone:
  assumes "pins_ok P s" and "p \<in># P"
  shows "pins_ok (add_mset p P) (clone_published p s)"
proof (rule pins_okI)
  note ok = pins_okD [OF assms(1)]
  show "st_pin_refs (clone_published p s) i = size {#q \<in># add_mset p P. pub_pin q = i#}" for i
    by (simp add: clone_published_def ok(1))
  show "pub_pin q < st_next_pin (clone_published p s)" if "q \<in># add_mset p P" for q
    using that ok(2) assms(2) by (auto simp: clone_published_def)
  show "pub_key q = pub_key r" if "q \<in># add_mset p P" "r \<in># add_mset p P" "pub_pin q = pub_pin r" for q r
    using that assms(2) by (intro ok(3)) auto
  show "\<exists>q\<in>#add_mset p P. pub_pin q = i \<and> pub_key q = k" if "st_pins (clone_published p s) k = Some i" for k i
    using ok(4) [of k i] that by (simp add: clone_published_def)
qed

lemma pins_ok_pin:
  assumes "pins_ok P s" and "pin key s = (p, t)"
  shows "pins_ok (add_mset p P) t" and "pub_key p = key"
proof -
  note ok = pins_okD [OF assms(1)]
  have t: "p = \<lparr>pub_key = key, pub_pin = st_next_pin s\<rparr>" "st_pins t = (st_pins s)(key \<mapsto> st_next_pin s)"
    "st_pin_refs t = (st_pin_refs s)(st_next_pin s := 1)" "st_next_pin t = Suc (st_next_pin s)"
    using assms(2) by (auto simp: pin_def Let_def)
  show "pub_key p = key"
    by (simp add: t)
  have new: "pub_pin q \<noteq> st_next_pin s" if "q \<in># P" for q
    using ok(2) [OF that] by simp
  show "pins_ok (add_mset p P) t"
  proof (rule pins_okI)
    have "{#q \<in># P. pub_pin q = st_next_pin s#} = {#}"
      using new by auto
    then show "st_pin_refs t i = size {#q \<in># add_mset p P. pub_pin q = i#}" for i
      using ok(1) [of i] by (simp add: t)
    show "pub_pin q < st_next_pin t" if "q \<in># add_mset p P" for q
      using ok(2) [of q] that by (auto simp: t)
    show "pub_key q = pub_key r" if "q \<in># add_mset p P" "r \<in># add_mset p P" "pub_pin q = pub_pin r" for q r
    proof (cases "q \<in># P \<and> r \<in># P")
      case True
      then show ?thesis
        using ok(3) that(3) by blast
    next
      case False
      then have "q = p \<and> r = p"
        using that new [of q] new [of r] by (auto simp: t)
      then show ?thesis
        by simp
    qed
    show "\<exists>q\<in>#add_mset p P. pub_pin q = i \<and> pub_key q = k" if "st_pins t k = Some i" for k i
    proof (cases "k = key")
      case True
      then show ?thesis
        using that by (simp add: t)
    next
      case False
      then show ?thesis
        using ok(4) [of k i] that by (simp add: t)
    qed
  qed
qed

lemma pins_ok_drop:
  assumes "pins_ok (add_mset p P) s"
  shows "pins_ok P (drop_published p s)"
proof (rule pins_okI)
  note ok = pins_okD [OF assms]
  have refs: "st_pin_refs (drop_published p s) = (st_pin_refs s)(pub_pin p := size {#q \<in># P. pub_pin q = pub_pin p#})"
    and "st_next_pin (drop_published p s) = st_next_pin s"
    by (auto simp: drop_published_def Let_def release_pin_def request_eviction_def ok(1))
  then show "pub_pin q < st_next_pin (drop_published p s)" if "q \<in># P" for q
    using ok(2) [of q] that by simp
  show "st_pin_refs (drop_published p s) i = size {#q \<in># P. pub_pin q = i#}" for i
    using ok(1) [of i] by (simp add: refs)
  show "pub_key q = pub_key r" if "q \<in># P" "r \<in># P" "pub_pin q = pub_pin r" for q r
    using that by (intro ok(3)) auto
  show "\<exists>q\<in>#P. pub_pin q = i \<and> pub_key q = k" if "st_pins (drop_published p s) k = Some i" for k i
  proof (cases "i = pub_pin p")
    case False
    have "st_pins s k = Some i"
      using that by (auto simp: drop_published_def Let_def release_pin_def request_eviction_def split: if_splits)
    then show ?thesis
      using ok(4) [of k i] False by auto
  next
    case True
    have s: "st_pins s k = Some i"
      using that by (auto simp: drop_published_def Let_def release_pin_def request_eviction_def split: if_splits)
    then obtain r where "r \<in># add_mset p P" "pub_pin r = i" "pub_key r = k"
      using ok(4) by blast
    then have k: "pub_key p = k"
      using ok(3) [of p r] True by simp
    have "st_pin_refs s i - 1 \<noteq> 0"
      using that s k True
      by (auto simp: drop_published_def Let_def release_pin_def request_eviction_def split: if_splits)
    then have "{#q \<in># P. pub_pin q = i#} \<noteq> {#}"
      using ok(1) [of i] True by auto
    then obtain q where "q \<in># P" "pub_pin q = i"
      by (auto simp: multiset_eq_iff split: if_splits)
    then show ?thesis
      using ok(3) [of p q] k True by (intro bexI [of _ q]) simp_all
  qed
qed

section \<open>Operations of the store\<close>

lemma pins_ok_files: "keeps (pins_ok P) (on_fs m)"
  by (rule keepsI) (simp add: io_simps)

lemma pins_ok_load: "keeps (pins_ok P) (load C key)"
  unfolding load_def by (intro keeps_try pins_ok_files) (auto intro: keeps_try pins_ok_files split: sum.split)

lemma pins_ok_is_pinned: "pins_ok P s \<Longrightarrow> is_pinned key s = (b, t) \<Longrightarrow> pins_ok P t"
  by (erule pins_ok_fewer) (auto simp: is_pinned_def Let_def split: if_splits)

lemma pins_ok_evict_loop: "keeps (pins_ok P) (evict_loop m used es)"
proof (induction es arbitrary: used)
  case (Cons e es)
  have remove: "keeps (pins_ok P) (io_try (on_fs (remove_file p)) (\<lambda>r. case r of
              Inr _ \<Rightarrow> evict_loop m used' es
            | Inl x \<Rightarrow> if kind x = NotFound then evict_loop m used' es else evict_loop m used es))" for p used'
    by (intro keeps_try pins_ok_files) (auto simp: Cons.IH split: sum.split)
  show ?case
  proof (rule keepsI)
    fix s assume s: "pins_ok P s"
    obtain b t where t: "is_pinned (ce_key e) s = (b, t)"
      by force
    with s have "pins_ok P t"
      using pins_ok_is_pinned by blast
    then show "pins_ok P (snd (evict_loop m used (e # es) s))"
      using s t keepsD [OF Cons.IH] keepsD [OF remove] by (simp add: io_simps split: bool.split)
  qed
qed simp

lemma pins_ok_evict: "keeps (pins_ok P) evict_files_to_bound"
  unfolding evict_files_to_bound_def
proof (intro keeps_bind pins_ok_files)
  fix entries
  show "keeps (pins_ok P) (\<lambda>s. let used = sum_list (map ce_size entries); max_cache_size = st_max_cache_size s in
      if used \<le> max_cache_size then (Inr (), s)
      else evict_loop max_cache_size used (sort_key ce_modified entries) s)"
    by (rule keepsI) (simp add: Let_def keepsD [OF pins_ok_evict_loop])
qed

lemma pins_ok_store_metadata: "keeps (pins_ok P) (store_metadata C key body meta)"
proof -
  have "keeps (pins_ok P) (with_temp_cleanup p (on_fs m))" for p and m :: "(fs, unit) io"
    by (rule keepsI) (auto simp: with_temp_cleanup_def io_simps split: prod.split sum.split)
  moreover have "keeps (pins_ok P) (next_temp_path p)" for p
    by (rule keepsI) (simp add: next_temp_path_def)
  ultimately show ?thesis
    unfolding store_metadata_def Let_def by (intro keeps_bind pins_ok_files keeps_lift pins_ok_evict)
qed

text \<open>A commit adds one owner, the one that gets the publication; if it fails there is none.\<close>

lemma commit_owns:
  assumes "pins_ok P s"
  shows "ends (\<lambda>_ t. pins_ok P t) (\<lambda>p t. pins_ok (add_mset p P) t \<and> pub_key p = key) (commit_artifact C key meta temp) s"
proof -
  let ?I = "pins_ok P"
  have disk: "ends (\<lambda>_. ?I) (\<lambda>_. ?I) (on_fs m) t" if "?I t" for m :: "(fs, 'b) io" and t
    using keepsD [OF pins_ok_files that] by (simp add: ends_same)
  have "ends (\<lambda>_. ?I) (\<lambda>p t. pins_ok (add_mset p P) t \<and> pub_key p = key) (\<lambda>s. case pin key s of
      (published, t) \<Rightarrow> io_try (on_fs (rename_file temp (paths_body (paths_for key))))
        (\<lambda>r. case r of Inr _ \<Rightarrow> io_return published | Inl e \<Rightarrow> (\<lambda>u. (Inl e, drop_published published u))) t) u"
    if u: "?I u" for u
  proof -
    obtain p t where pin: "pin key u = (p, t)"
      by force
    note own = pins_ok_pin [OF u pin]
    obtain r f where run: "on_fs (rename_file temp (paths_body (paths_for key))) t = (r, t\<lparr>st_fs := f\<rparr>)"
      by (simp add: io_simps)
    have f: "pins_ok (add_mset p P) (t\<lparr>st_fs := f\<rparr>)"
      using own(1) by simp
    show ?thesis
      using pin run own(2) f pins_ok_drop [OF f] by (cases r) (simp_all add: ends_def io_try_def io_simps)
  qed
  then show ?thesis
    unfolding commit_artifact_def Let_def
    by (intro ends_bind [OF ends_lift [where Q = "\<lambda>_. ?I"]] ends_bind [OF disk]) (use assms in auto)
qed

section \<open>Fetches\<close>

abbreviation app_pins :: "published_entry multiset \<Rightarrow> app \<Rightarrow> bool" where
  "app_pins P a \<equiv> pins_ok P (app_store a)"

lemma pins_ok_on_store: "keeps (pins_ok P) m \<Longrightarrow> keeps (app_pins P) (on_store m)"
  by (simp add: keeps_def io_simps)

lemma pins_ok_count: "keeps (app_pins P) (count_event f)"
  by (simp add: keeps_def count_event_def)

abbreviation pair_pins :: "published_entry multiset \<Rightarrow> app \<times> reservation \<Rightarrow> bool" where
  "pair_pins P p \<equiv> app_pins P (fst p)"

lemma pair_pins_on_app: "keeps (app_pins P) m \<Longrightarrow> keeps (pair_pins P) (on_app m)"
  by (auto simp: keeps_def io_simps)

lemma pair_pins_reserve: "keeps (pair_pins P) (reserve_more n)"
  by (rule keepsI) (auto simp: reserve_more_def reserve_unfold split: prod.split)

lemma pair_pins_body: "keeps (pair_pins P) (read_metadata_body resp)"
proof -
  have "keeps (pair_pins P) (read_metadata_chunks cs body)" for cs body
    by (induction cs arbitrary: body) (auto intro!: keeps_bind pair_pins_reserve)
  then show ?thesis
    unfolding read_metadata_body_def Let_def by (intro keeps_bind keeps_lift pair_pins_reserve)
qed

lemma pins_ok_metadata_phase: "keeps (app_pins P) (metadata_fetch_phase E net u ty rw leader)"
proof -
  have finish: "keeps (pair_pins P) (finish_metadata E rw key resp)" for key resp
    unfolding finish_metadata_def conclude_metadata_def Let_def
    by (intro keeps_bind keeps_lift pair_pins_reserve pair_pins_body)
      (auto intro!: keeps_bind pair_pins_on_app pins_ok_on_store pins_ok_store_metadata)
  have stored: "keeps (pair_pins P) (serve_stored e)" for e
    unfolding serve_stored_def
    by (intro keeps_bind keeps_return pair_pins_reserve pair_pins_on_app pins_ok_on_store pins_ok_files)
  have "keeps (app_pins P) (with_reservation m)"
    if "keeps (pair_pins P) m" for m :: "(app \<times> reservation, 'b) io"
  proof (rule keepsI)
    fix a :: app assume "app_pins P a"
    then have "pair_pins P (snd (m (a, None)))"
      using keepsD [OF that, of "(a, None)"] by simp
    then show "app_pins P (snd (with_reservation m a))"
      by (auto simp: with_reservation_def drop_reservation_def release_reservation_def
          split: prod.split sum.split)
  qed
  then have "keeps (app_pins P) (do_metadata_fetch E net u ty rw entry key)" for entry key
    unfolding do_metadata_fetch_def Let_def
    by (intro keeps_bind keeps_lift pins_ok_count) (auto intro: finish stored split: option.split bool.split)
  then show ?thesis
    unfolding metadata_fetch_phase_def by (intro keeps_bind pins_ok_on_store pins_ok_load)
qed

text \<open>What an outcome owns.\<close>

definition owned_by :: "inflight_outcome \<Rightarrow> published_entry multiset" where
  "owned_by outcome = (case outcome of Cached p \<Rightarrow> {#p#} | _ \<Rightarrow> {#})"

lemma owned_by_simps [simp]:
  "owned_by (Cached p) = {#p#}" "owned_by (Response meta body) = {#}" "owned_by (Failed k msg) = {#}"
  by (simp_all add: owned_by_def)

lemma artifact_phase_owns:
  assumes "app_pins P a" and "artifact_fetch_phase E net u ty leader a = (r, b)"
  shows "app_pins (owned_by (artifact_outcome r) + P) b"
proof -
  let ?I = "app_pins P" and ?temp = "paths_temp (al_paths leader)"
  have same: "ends (\<lambda>_. ?I) (\<lambda>_. ?I) m b" if "keeps ?I m" "?I b" for m :: "(app, 'c) io" and b
    using keepsD [OF that] by (simp add: ends_same)
  have files: "keeps ?I (on_files m)" for m :: "(fs, 'c) io"
    unfolding on_files_def by (intro pins_ok_on_store pins_ok_files)
  have down: "sends ?I (\<lambda>_. ?I) (download i cs n) b" if "?I b" for i cs n b
    using that
  proof (induction cs arbitrary: n b)
    case (Cons c cs)
    show ?case
      unfolding download.simps
      by (rule sends_stage [OF same [OF keeps_lift Cons.prems]], rule sends_stage [OF same [OF files]], assumption,
          erule Cons.IH)
  qed (simp add: sends_def)
  have commit: "ends (\<lambda>_. ?I) (\<lambda>p. app_pins (add_mset p P)) (on_store (commit_artifact C key meta ?temp)) b" if "?I b"
    for C key meta b
    using commit_owns [OF that, of key C meta ?temp] by (auto simp: ends_def io_simps split: prod.splits sum.splits)
  have "sends ?I (\<lambda>x. app_pins (owned_by (artifact_outcome (Inr x)) + P)) (do_artifact_fetch E net u ty leader) a"
    unfolding do_artifact_fetch_def Let_def
    apply (rule sends_stage [OF same [OF pins_ok_count assms(1)]])
    apply (rule sends_stage [OF same [OF keeps_lift]], assumption)
    apply (rule sends_if)
     apply (rule sends_stage [OF same [OF keeps_lift]], assumption)
     apply (simp add: sends_def artifact_outcome_def)
    apply (rule sends_stage [OF same [OF files]], assumption)
    apply (rule sends_bind [OF down], assumption)
    apply (rule sends_stage [OF same [OF files]], assumption)
    apply (rule sends_stage [OF commit], assumption)
    apply (simp add: sends_def artifact_outcome_def)
    done
  then show ?thesis
    using assms(2) keepsD [OF files]
    by (auto simp: artifact_fetch_phase_def sends_def artifact_outcome_def split: prod.splits sum.splits)
qed

section \<open>Publications of the system\<close>

fun owned_task :: "task \<Rightarrow> published_entry multiset" where
  "owned_task (Serving c i outcome) = owned_by outcome"
| "owned_task (Completing c i outcome r) = owned_by outcome"
| "owned_task _ = {#}"

definition owned_outcomes :: "(nat \<Rightarrow> inflight_outcome option) \<Rightarrow> nat \<Rightarrow> published_entry multiset" where
  "owned_outcomes outcomes n = (\<Sum>i<n. case outcomes i of None \<Rightarrow> {#} | Some q \<Rightarrow> owned_by q)"

lemma owned_outcomes_put:
  assumes "i < n"
  shows "owned_outcomes (f(i := q)) n + (case f i of None \<Rightarrow> {#} | Some r \<Rightarrow> owned_by r) =
    owned_outcomes f n + (case q of None \<Rightarrow> {#} | Some r \<Rightarrow> owned_by r)"
proof -
  let ?own = "\<lambda>x. case x of None \<Rightarrow> {#} | Some r \<Rightarrow> owned_by r"
  have "owned_outcomes g n = (\<Sum>j\<in>{..<n} - {i}. ?own (g j)) + ?own (g i)" for g
    unfolding owned_outcomes_def using assms by (simp add: sum.remove [of "{..<n}" i])
  then show ?thesis
    by simp
qed

lemma owned_outcomes_fresh:
  assumes "f n = None"
  shows "owned_outcomes (f(n := None)) (Suc n) = owned_outcomes f n"
  using assms by (simp add: owned_outcomes_def)

text \<open>The tasks own \<open>P\<close>; stored outcomes own the rest, and only flights that exist have one.\<close>

definition owns :: "published_entry multiset \<Rightarrow> system \<Rightarrow> bool" where
  "owns P s \<longleftrightarrow>
     pins_ok (P + owned_outcomes (st_outcomes (the_store s)) (st_next_inflight (the_store s))) (the_store s)
     \<and> (\<forall>i. st_outcomes (the_store s) i \<noteq> None \<longrightarrow> i < st_next_inflight (the_store s))"

lemma owns_change:
  assumes "owns P s" and "st_outcomes (the_store t) = st_outcomes (the_store s)"
    and "st_next_inflight (the_store t) = st_next_inflight (the_store s)"
    and "\<And>R. pins_ok (P + R) (the_store s) \<Longrightarrow> pins_ok (Q + R) (the_store t)"
  shows "owns Q t"
  using assms by (simp add: owns_def)

lemma owns_run_app:
  assumes "owns P s" and "run_app m s = (r, t)" and "still app_table m" and "\<And>R. keeps (app_pins R) m"
  shows "owns P t"
proof -
  obtain b where b: "m (sys_app s) = (r, b)" "t = s\<lparr>sys_app := b\<rparr>"
    using assms(2) by (auto simp: run_app_def split: prod.splits)
  show ?thesis
  proof (rule owns_change [OF assms(1)])
    show "pins_ok (P + R) (the_store t)" if "pins_ok (P + R) (the_store s)" for R
      using keepsD [OF assms(4) that [unfolded the_store_def]] b by (simp add: the_store_def)
  qed (use stillD [OF assms(3) b(1)] b(2) in \<open>simp_all add: app_table_def table_def the_store_def\<close>)
qed

lemma pins_ok_drop_outcome: "pins_ok (owned_by q + P) s \<Longrightarrow> pins_ok P (drop_outcome q s)"
  by (cases q) (simp_all add: drop_outcome_def pins_ok_drop)

lemma owns_drop_outcome: "owns (owned_by q + P) s \<Longrightarrow> owns P (with_store (drop_outcome q) s)"
  by (erule owns_change)
    (use drop_outcome_table [of q "the_store s"] in \<open>simp_all add: table_simps table_def pins_ok_drop_outcome add.assoc\<close>)

lemma owns_count_join: "owns P s \<Longrightarrow> owns P (count_join c s)"
  by (auto simp: count_join_def intro: owns_run_app [OF _ prod.collapse [symmetric] still_app_count pins_ok_count])

lemma owns_release_permit: "owns P s \<Longrightarrow> owns P (with_store release_upstream_permit s)"
  by (erule owns_change) (simp_all add: table_simps release_upstream_permit_def)

subsection \<open>Steps\<close>

abbreviation owned_tasks :: "task multiset \<Rightarrow> published_entry multiset" where
  "owned_tasks M \<equiv> \<Sum>t\<in>#M. owned_task t"

definition hands_over :: "task \<Rightarrow> system \<Rightarrow> task list \<times> system \<Rightarrow> bool" where
  "hands_over t s r \<longleftrightarrow> (\<forall>P. owns (owned_task t + P) s \<longrightarrow> owns (owned_tasks (mset (fst r)) + P) (snd r))"

lemma hands_overI: "(\<And>P. owns (owned_task t + P) s \<Longrightarrow> owns (owned_tasks (mset ts) + P) s') \<Longrightarrow> hands_over t s (ts, s')"
  by (simp add: hands_over_def)

lemma hands_over_run:
  assumes "owned_task t = {#}" and "run_app m s = (r, s')" and "still app_table m" and "\<And>R. keeps (app_pins R) m"
    and "owned_tasks (mset ts) = {#}"
  shows "hands_over t s (ts, s')"
  by (rule hands_overI, unfold assms(1,5), rule owns_run_app [OF _ assms(2-4)])

lemma pins_ok_on_files: "keeps (app_pins P) (on_files m)"
  unfolding on_files_def by (intro pins_ok_on_store pins_ok_files)

lemma pins_ok_serve_outcome: "keeps (app_pins P) (serve_outcome E key q)"
  unfolding serve_outcome_def
  by (cases q) (auto intro!: keeps_bind pins_ok_on_store pins_ok_load pins_ok_on_files split: option.split)

lemma hands_over_loading: "hands_over (Loading c) s (step_loading E c s)"
proof -
  let ?m = "on_store (load (env_codec E) (call_key c))" and ?f = "\<lambda>e. on_files (file_response (env_http E) e)"
  obtain r t where t: "run_app ?m s = (r, t)"
    by force
  obtain r' u where u: "run_app (?f (the (projr r))) t = (r', u)"
    by force
  have "owns P t" if "owns P s" for P
    by (rule owns_run_app [OF that t still_app_store [OF still_load] pins_ok_on_store [OF pins_ok_load]])
  moreover have "owns P u" if "owns P t" for P
    by (rule owns_run_app [OF that u still_app_files pins_ok_on_files])
  ultimately show ?thesis
    using t u by (auto simp: step_loading_def hands_over_def split: sum.split option.split)
qed

lemma hands_over_making_shard: "hands_over (MakingShard c) s (step_making_shard c s)"
proof -
  obtain r t where t: "run_app (on_store (make_shard (call_key c))) s = (r, t)"
    by force
  have "keeps (app_pins P) (on_store (make_shard (call_key c)))" for P
    unfolding make_shard_def by (intro pins_ok_on_store pins_ok_files)
  then have "hands_over (MakingShard c) s (ts, t)" if "owned_tasks (mset ts) = {#}" for ts
    by (intro hands_over_run [OF _ t] still_app_store still_make_shard that) simp_all
  then show ?thesis
    using t by (cases r) (simp_all add: step_making_shard_def)
qed

text \<open>A new flight has no outcome yet, and neither had its number before.\<close>

lemma hands_over_leading: "hands_over (Leading c) s (step_leading c s)"
proof (unfold hands_over_def, intro allI impI)
  fix P assume own: "owns (owned_task (Leading c) + P) s"
  let ?t = "the_store s"
  let ?new = "?t\<lparr>st_upstream_permits := st_upstream_permits ?t - 1,
      st_inflight := (st_inflight ?t)(call_key c \<mapsto> st_next_inflight ?t),
      st_outcomes := (st_outcomes ?t)(st_next_inflight ?t := None),
      st_next_inflight := Suc (st_next_inflight ?t)\<rparr>"
  let ?s = "s\<lparr>sys_app := (sys_app s)\<lparr>app_store := ?new\<rparr>\<rparr>"
  have run: "run_app (on_store (join_or_lead (call_key c))) s =
      (case st_inflight ?t (call_key c) of
         Some i \<Rightarrow> (Inr (Inl i), s)
       | None \<Rightarrow>
           if st_upstream_permits ?t = 0 then (Inl (IoError WouldBlock ''upstream capacity exhausted''), s)
           else (Inr (Inr (st_next_inflight ?t)), ?s))"
    by (simp add: run_app_def io_simps join_or_lead_run the_store_def split: option.split)
  have none: "st_outcomes ?t (st_next_inflight ?t) = None"
    using own unfolding owns_def by blast
  have "owned_outcomes (st_outcomes ?new) (st_next_inflight ?new) = owned_outcomes (st_outcomes ?t) (st_next_inflight ?t)"
    using owned_outcomes_fresh [of "st_outcomes ?t", OF none] by simp
  then have new: "owns P ?s"
    using own unfolding owns_def by (auto simp: the_store_def less_SucI)
  show "owns (owned_tasks (mset (fst (step_leading c s))) + P) (snd (step_leading c s))"
    using run own new by (auto simp: step_leading_def owns_count_join split: option.split)
qed

lemma hands_over_checking: "hands_over (Checking c i n) s (step_checking c i n s)"
proof (cases "st_outcomes (the_store s) i")
  case (Some q)
  have "owns (owned_by q + P) (with_store (clone_outcome q) s)" if own: "owns P s" for P
  proof (cases q)
    case (Cached p)
    let ?O = "owned_outcomes (st_outcomes (the_store s)) (st_next_inflight (the_store s))"
    have "i < st_next_inflight (the_store s)"
      using own Some unfolding owns_def by blast
    from owned_outcomes_put [OF this, of "st_outcomes (the_store s)" None] have "p \<in># ?O"
      using Some Cached by (metis (no_types) add_mset_add_single option.simps(4,5) owned_by_simps(1) add.right_neutral
          union_single_eq_member)
    then have "pins_ok (add_mset p (P + ?O)) (clone_published p (the_store s))"
      using own unfolding owns_def by (intro pins_ok_clone) auto
    then show ?thesis
      using own Cached unfolding owns_def
      by (simp add: table_simps clone_outcome_def clone_published_def)
  qed (use own in \<open>auto elim!: owns_change simp: table_simps clone_outcome_def\<close>)
  then show ?thesis
    using Some by (auto simp: step_checking_def intro: hands_overI)
qed (simp add: step_checking_def hands_over_def)

lemma hands_over_serving: "hands_over (Serving c i q) s (step_serving E c i q s)"
proof -
  obtain r t where "run_app (serve_outcome E (call_key c) q) s = (r, t)"
    by force
  then show ?thesis
    by (auto simp: step_serving_def intro!: hands_overI owns_drop_outcome
        intro: owns_run_app [OF _ _ still_serve_outcome pins_ok_serve_outcome])
qed

lemma hands_over_completing:
  assumes "i < st_next_inflight (the_store s)"
  shows "hands_over (Completing c i q r) s (step_completing c i q r s)"
proof (cases "st_outcomes (the_store s) i")
  case None
  let ?t = "(the_store s)\<lparr>st_outcomes := (st_outcomes (the_store s))(i \<mapsto> q)\<rparr>"
  have "owned_outcomes (st_outcomes ?t) (st_next_inflight ?t) =
      owned_by q + owned_outcomes (st_outcomes (the_store s)) (st_next_inflight (the_store s))"
    using owned_outcomes_put [OF assms, of "st_outcomes (the_store s)" "Some q"] None by (simp add: add.commute)
  then have "owns P (with_store (\<lambda>_. ?t) s)" if "owns (owned_by q + P) s" for P
    using that assms unfolding owns_def by (auto simp: table_simps ac_simps)
  then show ?thesis
    using None by (auto simp: step_completing_def complete_def intro: hands_overI)
next
  case (Some q')
  have "with_store (\<lambda>_. drop_outcome q (the_store s)) s = with_store (drop_outcome q) s"
    by (simp add: with_store_def on_app_store_def the_store_def)
  then show ?thesis
    using Some by (auto simp: step_completing_def complete_def intro!: hands_overI owns_drop_outcome)
qed

lemma metadata_outcome_owned: "owned_by (metadata_outcome r) = {#}"
  by (cases r) (auto simp: metadata_outcome_def split: sum.split prod.split)

lemma hands_over_fetching: "hands_over (Fetching c i) s (step_fetching E net c i s)"
proof (cases "call_artifact c")
  case True
  let ?m = "artifact_fetch_phase E net (call_upstream c) (call_type c) (leader_of c i)"
  obtain r b where b: "?m (sys_app s) = (r, b)"
    by force
  have "app_table b = app_table (sys_app s)"
    by (rule stillD [OF still_artifact_phase b])
  then have "owns (owned_by (artifact_outcome r) + P) (s\<lparr>sys_app := b\<rparr>)" if "owns P s" for P
    using that artifact_phase_owns [OF _ b]
    by (elim owns_change) (simp_all add: app_table_def table_def the_store_def add.assoc)
  then show ?thesis
    using True b by (auto simp: step_fetching_def run_app_def intro: hands_overI)
next
  case False
  let ?m = "metadata_fetch_phase E net (call_upstream c) (call_type c) (call_rewrite c)
      \<lparr>ml_inflight = i, ml_key = call_key c\<rparr>"
  obtain r t where t: "run_app ?m s = (r, t)"
    by force
  have "owns P (t\<lparr>sys_held := h\<rparr>)" if "owns P s" for P h
    using owns_run_app [OF that t still_metadata_phase pins_ok_metadata_phase]
    by (rule owns_change) (simp_all add: the_store_def)
  then show ?thesis
    using False t by (auto simp: step_fetching_def metadata_outcome_owned intro: hands_overI)
qed

lemma hands_over_cleaning: "hands_over (Cleaning c i) s (step_cleaning c i s)"
proof -
  obtain r t where "run_app (on_files (remove_file (paths_temp (paths_for (call_key c))))) s = (r, t)"
    by force
  from owns_run_app [OF _ this still_app_files pins_ok_on_files] this show ?thesis
    by (auto simp: step_cleaning_def intro: hands_overI)
qed

lemma owns_same_store: "owns P s \<Longrightarrow> the_store t = the_store s \<Longrightarrow> owns P t"
  by (simp add: owns_def)

lemma hands_over_ending:
  "hands_over (Notifying c i r) s (step_notifying c i r s)" "hands_over (Finishing c i r) s (step_finishing c i r s)"
  "hands_over (Releasing c i reply) s (step_releasing c i reply s)"
proof -
  show "hands_over (Notifying c i r) s (step_notifying c i r s)"
    unfolding step_notifying_def by (rule hands_overI) (auto elim: owns_same_store simp: the_store_def)
  have finish: "owns P (with_store (finish_inflight (call_key c)) s)" if "owns P s" for P
    using that by (rule owns_change) (simp_all add: table_simps finish_inflight_def)
  show "hands_over (Finishing c i r) s (step_finishing c i r s)"
    unfolding step_finishing_def by (rule hands_overI) (auto simp: finish split: role.split)
  show "hands_over (Releasing c i reply) s (step_releasing c i reply s)"
    unfolding step_releasing_def by (rule hands_overI) (auto simp: owns_release_permit split: option.split)
qed

lemma hands_over_arrived: "hands_over (Arrived c) s (step_arrived c s)"
  by (auto simp: step_arrived_def hands_over_def owns_count_join split: option.split)

lemma advance_hands_over:
  assumes "advance E net t s = Some r" and "\<And>k i. will_end t = Some (k, i) \<Longrightarrow> i < st_next_inflight (the_store s)"
  shows "hands_over t s r"
proof (cases t)
  case (Arming c i)
  then show ?thesis
    using assms(1) by (auto intro: hands_overI)
next
  case (Sleeping c i n)
  then show ?thesis
    using assms(1) by (auto intro: hands_overI split: if_splits)
qed (use assms in \<open>auto intro: hands_over_arrived hands_over_loading hands_over_making_shard hands_over_leading
    hands_over_checking hands_over_serving hands_over_fetching hands_over_completing hands_over_ending
    hands_over_cleaning\<close>)

lemma cancel_hands_over:
  assumes "cancel t s = Some r"
  shows "hands_over t s r"
proof -
  have drop: "owns P (abandon_fetched i q s)" if "owns (owned_by q + P) s" for i q P
    using owns_drop_outcome [OF that]
    by (rule owns_change)
      (simp_all add: abandon_fetched_def the_store_def with_store_def on_app_store_def release_upstream_permit_def
        release_reservation_def)
  show ?thesis
  proof (cases t)
    case (Completing c i q r')
    then show ?thesis
      using assms drop by (cases r') (auto intro!: hands_overI)
  next
    case (Finishing c i r')
    then show ?thesis
      using assms by (cases r') (auto intro!: hands_overI owns_release_permit)
  qed (use assms in \<open>auto intro!: hands_overI owns_release_permit owns_drop_outcome\<close>)
qed

subsection \<open>Runs\<close>

text \<open>Every publication that a task or a stored outcome holds, with its multiplicity.\<close>

definition owned_publications :: "configuration \<Rightarrow> published_entry multiset" where
  "owned_publications x =
     owned_tasks (snd x) + owned_outcomes (st_outcomes (the_store (fst x))) (st_next_inflight (the_store (fst x)))"

lemma owns_reap: "owns P s \<Longrightarrow> owns P (reap i s)"
proof (cases "st_outcomes (the_store s) i")
  case (Some q)
  assume own: "owns P s"
  let ?t = "(the_store s)\<lparr>st_outcomes := (st_outcomes (the_store s))(i := None)\<rparr>"
  have "i < st_next_inflight (the_store s)"
    using own Some unfolding owns_def by blast
  from owned_outcomes_put [OF this, of "st_outcomes (the_store s)" None]
  have "owned_outcomes (st_outcomes (the_store s)) (st_next_inflight (the_store s)) =
      owned_outcomes (st_outcomes ?t) (st_next_inflight ?t) + owned_by q"
    using Some by simp
  then have "owns (owned_by q + P) (with_store (\<lambda>_. ?t) s)"
    using own unfolding owns_def by (auto simp: table_simps ac_simps)
  from owns_drop_outcome [OF this] show ?thesis
    using Some by (elim owns_change) (simp_all add: reap_def the_store_def with_store_def on_app_store_def release_reservation_def)
qed (simp add: reap_def)

lemma owns_janitor: "owns P s \<Longrightarrow> owns P (janitor s)"
proof (erule owns_change)
  let ?t = "(the_store s)\<lparr>st_janitor_queue := 0\<rparr>"
  have "tables (snd (evict_files_to_bound ?t)) = tables ?t"
    by (rule still_snd [OF still_evict])
  then show "st_outcomes (the_store (janitor s)) = st_outcomes (the_store s)"
    "st_next_inflight (the_store (janitor s)) = st_next_inflight (the_store s)"
    by (simp_all add: janitor_def table_simps tables_def table_def)
  show "pins_ok (P + R) (the_store (janitor s))" if "pins_ok (P + R) (the_store s)" for R
    using that keepsD [OF pins_ok_evict, of "P + R" ?t] by (simp add: janitor_def table_simps)
qed

lemma owns_step:
  assumes "step E (s, M) (s', M')" and "owns (owned_tasks M) s"
    and "\<And>t k i. t \<in># M \<Longrightarrow> will_end t = Some (k, i) \<Longrightarrow> i < st_next_inflight (the_store s)"
  shows "owns (owned_tasks M') s'"
  using assms(1)
proof cases
  case running
  then obtain net t ts R where run: "M = add_mset t R" "M' = mset ts + R" "advance E net t s = Some (ts, s')"
    by (elim run_stepE) blast
  then have "hands_over t s (ts, s')"
    using assms(3) [of t] by (intro advance_hands_over) auto
  then show ?thesis
    using assms(2) run by (simp add: hands_over_def)
next
  case (cancelling t ts R)
  then show ?thesis
    using assms(2) cancel_hands_over [of t s "(ts, s')"] by (simp add: hands_over_def)
next
  case (admitting c)
  then show ?thesis
    using assms(2) by (simp add: start_task_def)
next
  case (reaping i)
  then show ?thesis
    using assms(2) owns_reap by simp
next
  case evicting
  then show ?thesis
    using assms(2) owns_janitor by simp
next
  case (settling i n)
  then show ?thesis
    using assms(2) by (auto elim!: owns_change simp: background_write_def table_simps)
next
  case ticking
  then show ?thesis
    using assms(2) by (auto elim!: owns_change simp: tick_def table_simps)
qed

lemma will_end_bound:
  assumes "reachable E cap (s, M)" and "t \<in># M" and "will_end t = Some (key, i)"
  shows "i < st_next_inflight (the_store s)"
proof -
  have inv: "owners_ok (flights_of s, phases M)"
    using reachable_inv [OF assms(1)] by (simp add: sf_inv_def view_of_def)
  obtain q where "q \<in># phase_of t" "owned q = Some (key, i)"
    using assms(3) will_end_phase by blast
  from owners_okD(2) [OF inv phase_in [OF assms(2) this(1)] this(2)] show ?thesis
    using owners_okD(3) [OF inv] by simp
qed

text \<open>What \<^verbatim>\<open>CacheStore::new\<close> leaves: no flight, no publication, every permit.\<close>

lemma new_store_tables:
  assumes "new_store max_size fetches f = (Inr t, g)"
  shows "tables t = tables (empty_store undefined max_size fetches)"
proof -
  obtain h r where "evict_files_to_bound (empty_store h max_size fetches) = (r, t)"
    using assms by (rule new_store_InrE)
  from stillD [OF still_evict this] show ?thesis
    by (simp add: tables_def table_def empty_store_def)
qed

lemma new_store_owns_nothing:
  assumes "new_store max_size fetches f = (Inr t, g)"
  shows "owns {#} (initial t)" and "reachable E fetches (initial t, {#})"
proof -
  obtain h r where evict: "evict_files_to_bound (empty_store h max_size fetches) = (r, t)"
    using assms by (rule new_store_InrE)
  have "pins_ok {#} (empty_store h max_size fetches)"
    by (rule pins_okI) (simp_all add: empty_store_def)
  then have "pins_ok {#} t"
    using keepsD [OF pins_ok_evict] evict by fastforce
  then show "owns {#} (initial t)"
    using new_store_tables [OF assms]
    by (simp add: owns_def tables_def table_def empty_store_def initial_def the_store_def owned_outcomes_def)
  show "reachable E fetches (initial t, {#})"
    using new_store_tables [OF assms] by (intro reachable.start) (simp_all add: tables_def table_def empty_store_def)
qed

lemma runs_own:
  assumes "(step E)\<^sup>*\<^sup>* (initial t, {#}) y" and "new_store max_size fetches f = (Inr t, g)"
  shows "reachable E fetches y \<and> owns (owned_tasks (snd y)) (fst y)"
  using assms(1)
proof (induction rule: rtranclp_induct)
  case base
  then show ?case
    using new_store_owns_nothing [OF assms(2)] by simp
next
  case (step y z)
  then have "step E (fst y, snd y) (fst z, snd z)" and "reachable E fetches (fst y, snd y)"
    by simp_all
  then show ?case
    using step.IH reachable.steps [OF _ step.hyps(2)] owns_step will_end_bound by blast
qed

text \<open>
  C13: Publications are counted right and pins are not leaked.  However the system runs from the store
  \<^verbatim>\<open>CacheStore::new\<close> made (fetches, waiters, cancellations, failures, evictions), the reference count of
  every publication is the number of its owners among the tasks and the stored outcomes, so none is freed
  early or twice; and a key that is still pinned is pinned by a publication of that key with an owner, so
  an entry nobody serves any more can be evicted.
\<close>

theorem publications_conserved:
  assumes "new_store max_size fetches f = (Inr t, g)" and "(step E)\<^sup>*\<^sup>* (initial t, {#}) (s, M)"
  shows "(\<forall>i. st_pin_refs (the_store s) i = size {#p \<in># owned_publications (s, M). pub_pin p = i#})
    \<and> (\<forall>key i. st_pins (the_store s) key = Some i \<longrightarrow>
         (\<exists>p\<in>#owned_publications (s, M). pub_pin p = i \<and> pub_key p = key) \<and> live_pin (the_store s) key)"
proof -
  have "pins_ok (owned_publications (s, M)) (the_store s)"
    using runs_own [OF assms(2,1)] by (simp add: owns_def owned_publications_def)
  note ok = pins_okD [OF this]
  have "live_pin (the_store s) key" if "st_pins (the_store s) key = Some i" for key i
  proof -
    have "{#p \<in># owned_publications (s, M). pub_pin p = i#} \<noteq> {#}"
      using ok(4) [OF that] by auto
    then have "0 < st_pin_refs (the_store s) i"
      unfolding ok(1) by (rule nonempty_has_size [THEN iffD1])
    then show ?thesis
      using that by (simp add: live_pin_def)
  qed
  then show ?thesis
    using ok(1,4) by blast
qed

section \<open>An instance\<close>

text \<open>A store is made from a directory, and a request comes and leads a flight.\<close>

lemma sample_run:
  obtains f t led where "new_store 100 4 f = (Inr t, st_fs t)"
    and "(step (sample_env page_meta))\<^sup>*\<^sup>* (initial t, {#}) (led, {#Fetching sample_call 0#})"
    and "st_inflight (the_store led) sample_key = Some 0" and "st_outcomes (the_store led) 0 = None"
    and "st_next_inflight (the_store led) = 1"
proof -
  obtain f t where new: "new_store 100 4 f = (Inr t, st_fs t)"
    using sample_new_store by blast
  let ?E = "sample_env page_meta" and ?led = "snd (step_leading sample_call (initial t))"
  have table: "st_inflight t = Map.empty" "st_upstream_permits t = 4" "st_next_inflight t = 0"
    using new_store_tables [OF new] by (simp_all add: tables_def table_def empty_store_def)
  note leading = step_leading_def run_app_def io_simps join_or_lead_run initial_def the_store_def table
    sample_call_fields
  have "step ?E (initial t, {#}) (initial t, {#Leading sample_call#})"
    using step.admitting [OF sample_call_made, of "initial t" "{#}"] by (simp add: start_task_def sample_call_fields)
  moreover have "step_leading sample_call (initial t) = ([Fetching sample_call 0], ?led)"
    by (simp add: leading)
  then have "step ?E (initial t, {#Leading sample_call#}) (?led, {#Fetching sample_call 0#})"
    using run_step.run [of ?E undefined "Leading sample_call" "initial t" "[Fetching sample_call 0]" ?led "{#}"]
    by (auto intro: step.running)
  ultimately have "(step ?E)\<^sup>*\<^sup>* (initial t, {#}) (?led, {#Fetching sample_call 0#})"
    by (meson rtranclp.rtrancl_into_rtrancl rtranclp.rtrancl_refl)
  then show thesis
    using that [OF new] by (simp add: leading)
qed

lemma publications_conserved_witness:
  "\<exists>f t s. new_store 100 4 f = (Inr t, st_fs t)
     \<and> (step (sample_env page_meta))\<^sup>*\<^sup>* (initial t, {#}) (s, {#Fetching sample_call 0#})
     \<and> st_inflight (the_store s) sample_key = Some 0 \<and> st_pin_refs (the_store s) 0 = 0"
proof -
  obtain f t led where new: "new_store 100 4 f = (Inr t, st_fs t)"
    and run: "(step (sample_env page_meta))\<^sup>*\<^sup>* (initial t, {#}) (led, {#Fetching sample_call 0#})"
    and led: "st_inflight (the_store led) sample_key = Some 0" "st_outcomes (the_store led) 0 = None"
      "st_next_inflight (the_store led) = 1"
    by (rule sample_run)
  have "owned_publications (led, {#Fetching sample_call 0#}) = {#}"
    using led by (simp add: owned_publications_def owned_outcomes_def)
  then have "st_pin_refs (the_store led) 0 = 0"
    using publications_conserved [OF new run] by simp
  then show ?thesis
    using new run led(1) by blast
qed

end
