(* ===== verification/DownloadPoints.thy ===== *)
theory DownloadPoints
  imports Publications
begin

text \<open>
  A download cut at its await points (\<^verbatim>\<open>do_artifact_fetch\<close>, \<^verbatim>\<open>run_artifact_fetch\<close> of \<^verbatim>\<open>src/proxy.rs\<close> and
  \<^verbatim>\<open>commit_artifact\<close> of \<^verbatim>\<open>src/cache.rs\<close>).  A point is what the suspended function holds: the file, the chunks that are
  still to come, the publication.  Run to its end the machine computes what \<open>artifact_fetch_phase\<close> does in one
  step; dropped at a point, it leaves to the guard (\<^verbatim>\<open>ArtifactFetchCleanup\<close>) what that point has made so far.
\<close>

section \<open>Points\<close>

datatype fetch_point =
    Requesting
  | Creating upstream_response
  | Receiving nat upstream_response "(string + bytes) list" usize
  | Writing nat upstream_response bytes "(string + bytes) list" usize
  | Flushing nat upstream_response usize
  | Opening upstream_response usize
  | AppendingMeta nat bytes u32
  | AppendingFooter nat u32
  | Renaming published_entry
  | Removing "string \<times> string"
  | Fetched "(string \<times> string) + fetch_outcome"

text \<open>An error ends the fetch: what is left to do is to remove the temp file.\<close>

definition or_removing ::
  "string \<Rightarrow> 'a io_result \<times> app \<Rightarrow> ('a \<Rightarrow> app \<Rightarrow> fetch_point \<times> app) \<Rightarrow> fetch_point \<times> app" where
  "or_removing name r k =
     (case r of (Inl e, b) \<Rightarrow> (Removing (name, message e), b) | (Inr x, b) \<Rightarrow> k x b)"

definition step_request :: "env \<Rightarrow> network \<Rightarrow> url \<Rightarrow> string \<Rightarrow> app \<Rightarrow> fetch_point \<times> app" where
  "step_request E net u ty a =
     or_removing [] (count_event (record_artifact_fetch ty) a) (\<lambda>_ b.
     or_removing ''fetch_upstream'' (send_request net (get_request u), b) (\<lambda>resp b.
     if up_status resp \<noteq> 200
     then
       or_removing ''read_error_response''
         (read_limited_body resp MAX_ERROR_BODY_LEN ''upstream error body exceeds 1 MiB limit'', b) (\<lambda>body b.
       (Fetched (Inr (FetchNonOk
          (meta_for_bytes (env_http E) (up_status resp) (up_headers resp) (of_nat (length body)) True) body)), b))
     else (Creating resp, b)))"

definition artifact_meta :: "env \<Rightarrow> upstream_response \<Rightarrow> usize \<Rightarrow> stored_response_meta" where
  "artifact_meta E resp n = meta_from_upstream (env_http E) (up_status resp) (up_headers resp) (Some n)"

text \<open>The metadata is serialized before the temp file is opened again.\<close>

definition step_opening :: "env \<Rightarrow> artifact_leader \<Rightarrow> upstream_response \<Rightarrow> usize \<Rightarrow> app \<Rightarrow> fetch_point \<times> app" where
  "step_opening E leader resp n a =
     or_removing ''commit_cache_entry'' (serialize_meta (env_codec E) (artifact_meta E resp n), a) (\<lambda>mb b.
     or_removing ''commit_cache_entry'' (meta_len_u32 mb, b) (\<lambda>ml b.
     or_removing ''commit_cache_entry'' (on_files (open_file (paths_temp (al_paths leader))) b) (\<lambda>file b.
     (AppendingMeta file mb ml, b))))"

text \<open>Pinning does not await: the next point is the rename.\<close>

definition step_footer :: "artifact_leader \<Rightarrow> nat \<Rightarrow> u32 \<Rightarrow> app \<Rightarrow> fetch_point \<times> app" where
  "step_footer leader file ml a =
     or_removing ''commit_cache_entry'' (on_files (write_all file (to_be_bytes ml)) a) (\<lambda>_ b.
     (case pin (al_key leader) (app_store b) of (p, t) \<Rightarrow> (Renaming p, b\<lparr>app_store := t\<rparr>)))"

definition step_renaming :: "artifact_leader \<Rightarrow> published_entry \<Rightarrow> app \<Rightarrow> fetch_point \<times> app" where
  "step_renaming leader p a =
     (case on_files (rename_file (paths_temp (al_paths leader)) (paths_body (paths_for (al_key leader)))) a of
        (Inr _, b) \<Rightarrow> (Fetched (Inr (FetchCached p)), b)
      | (Inl e, b) \<Rightarrow> (Removing (''commit_cache_entry'', message e), on_app_store (drop_published p) b))"

fun fetch_step ::
  "env \<Rightarrow> network \<Rightarrow> url \<Rightarrow> string \<Rightarrow> artifact_leader \<Rightarrow> fetch_point \<Rightarrow> app \<Rightarrow> fetch_point \<times> app" where
  "fetch_step E net u ty leader Requesting a = step_request E net u ty a"
| "fetch_step E net u ty leader (Creating resp) a =
     or_removing ''create_temp_file'' (on_files (create_file (paths_temp (al_paths leader))) a) (\<lambda>file b.
     (Receiving file resp (up_chunks resp) 0, b))"
| "fetch_step E net u ty leader (Receiving file resp [] n) a = (Flushing file resp n, a)"
| "fetch_step E net u ty leader (Receiving file resp (c # cs) n) a =
     or_removing ''read_upstream_stream'' (next_chunk c, a) (\<lambda>chunk b. (Writing file resp chunk cs n, b))"
| "fetch_step E net u ty leader (Writing file resp chunk cs n) a =
     or_removing ''write_temp_file'' (on_files (write_all file chunk) a) (\<lambda>_ b.
     (Receiving file resp cs (n + of_nat (length chunk)), b))"
| "fetch_step E net u ty leader (Flushing file resp n) a =
     or_removing ''flush_temp_file'' (on_files (flush_file file) a) (\<lambda>_ b. (Opening resp n, b))"
| "fetch_step E net u ty leader (Opening resp n) a = step_opening E leader resp n a"
| "fetch_step E net u ty leader (AppendingMeta file mb ml) a =
     or_removing ''commit_cache_entry'' (on_files (write_all file mb) a) (\<lambda>_ b. (AppendingFooter file ml, b))"
| "fetch_step E net u ty leader (AppendingFooter file ml) a = step_footer leader file ml a"
| "fetch_step E net u ty leader (Renaming p) a = step_renaming leader p a"
| "fetch_step E net u ty leader (Removing e) a =
     (Fetched (Inl e), snd (on_files (remove_file (paths_temp (al_paths leader))) a))"
| "fetch_step E net u ty leader (Fetched r) a = (Fetched r, a)"

fun fetch_steps ::
  "env \<Rightarrow> network \<Rightarrow> url \<Rightarrow> string \<Rightarrow> artifact_leader \<Rightarrow> nat \<Rightarrow> fetch_point \<Rightarrow> app \<Rightarrow> fetch_point \<times> app" where
  "fetch_steps E net u ty leader 0 d a = (d, a)"
| "fetch_steps E net u ty leader (Suc n) d a =
     (case fetch_step E net u ty leader d a of (d', b) \<Rightarrow> fetch_steps E net u ty leader n d' b)"

text \<open>
  Dropping the function at a point: a publication it holds is dropped with it, and the guard removes the
  temp file, ends the flight and takes it from the table.
\<close>

definition drop_point :: "fetch_point \<Rightarrow> app \<Rightarrow> app" where
  "drop_point d =
     (case d of
        Renaming p \<Rightarrow> on_app_store (drop_published p)
      | Fetched (Inr (FetchCached p)) \<Rightarrow> on_app_store (drop_published p)
      | _ \<Rightarrow> id)"

text \<open>
  An operation on files that has begun is finished by its thread, although the function that waits for it
  is dropped.
\<close>

definition begun :: "artifact_leader \<Rightarrow> fetch_point \<Rightarrow> fs \<Rightarrow> fs" where
  "begun leader d f =
     (case d of
        Creating resp \<Rightarrow> snd (create_file (paths_temp (al_paths leader)) f)
      | Writing file resp chunk cs n \<Rightarrow> snd (write_all file chunk f)
      | Flushing file resp n \<Rightarrow> snd (flush_file file f)
      | Opening resp n \<Rightarrow> snd (open_file (paths_temp (al_paths leader)) f)
      | AppendingMeta file mb ml \<Rightarrow> snd (write_all file mb f)
      | AppendingFooter file ml \<Rightarrow> snd (write_all file (to_be_bytes ml) f)
      | Renaming p \<Rightarrow> snd (rename_file (paths_temp (al_paths leader)) (paths_body (paths_for (al_key leader))) f)
      | Removing e \<Rightarrow> snd (remove_file (paths_temp (al_paths leader)) f)
      | _ \<Rightarrow> f)"

definition finish_begun :: "artifact_leader \<Rightarrow> fetch_point \<Rightarrow> app \<Rightarrow> app" where
  "finish_begun leader d = on_app_store (\<lambda>s. s\<lparr>st_fs := begun leader d (st_fs s)\<rparr>)"

definition cancel_fetch :: "artifact_leader \<Rightarrow> fetch_point \<Rightarrow> app \<Rightarrow> app" where
  "cancel_fetch leader d a = artifact_cleanup leader (drop_point d a)"

section \<open>The whole fetch\<close>

text \<open>What a fetch returns that is at some point, as the sequential model has it.\<close>

definition removing_on_error :: "artifact_leader \<Rightarrow> (app, 'a) staged \<Rightarrow> (app, 'a) staged" where
  "removing_on_error leader m a =
     (case m a of
        (Inr x, b) \<Rightarrow> (Inr x, b)
      | (Inl e, b) \<Rightarrow> (Inl e, snd (on_files (remove_file (paths_temp (al_paths leader))) b)))"

definition rename_tail :: "artifact_leader \<Rightarrow> published_entry \<Rightarrow> (store, published_entry) io" where
  "rename_tail leader p =
     io_try (on_fs (rename_file (paths_temp (al_paths leader)) (paths_body (paths_for (al_key leader))))) (\<lambda>r.
     case r of Inr _ \<Rightarrow> io_return p | Inl e \<Rightarrow> (\<lambda>u. (Inl e, drop_published p u)))"

definition footer_tail :: "artifact_leader \<Rightarrow> nat \<Rightarrow> u32 \<Rightarrow> (store, published_entry) io" where
  "footer_tail leader file ml =
     io_bind (on_fs (write_all file (to_be_bytes ml))) (\<lambda>_ s.
     case pin (al_key leader) s of (p, t) \<Rightarrow> rename_tail leader p t)"

definition commit_stage :: "(store, published_entry) io \<Rightarrow> (app, fetch_outcome) staged" where
  "commit_stage m = stage ''commit_cache_entry'' (on_store m) (\<lambda>p a. (Inr (FetchCached p), a))"

definition flush_tail :: "env \<Rightarrow> artifact_leader \<Rightarrow> nat \<Rightarrow> upstream_response \<Rightarrow> usize \<Rightarrow> (app, fetch_outcome) staged" where
  "flush_tail E leader file resp n =
     stage ''flush_temp_file'' (on_files (flush_file file)) (\<lambda>_.
     commit_stage (commit_artifact (env_codec E) (al_key leader) (artifact_meta E resp n) (paths_temp (al_paths leader))))"

definition receive_tail ::
  "env \<Rightarrow> artifact_leader \<Rightarrow> nat \<Rightarrow> upstream_response \<Rightarrow> (string + bytes) list \<Rightarrow> usize \<Rightarrow> (app, fetch_outcome) staged" where
  "receive_tail E leader file resp cs n = staged_bind (download file cs n) (flush_tail E leader file resp)"

fun outcome_at ::
  "env \<Rightarrow> network \<Rightarrow> url \<Rightarrow> string \<Rightarrow> artifact_leader \<Rightarrow> fetch_point \<Rightarrow> app
     \<Rightarrow> ((string \<times> string) + fetch_outcome) \<times> app" where
  "outcome_at E net u ty leader Requesting = artifact_fetch_phase E net u ty leader"
| "outcome_at E net u ty leader (Creating resp) = removing_on_error leader
     (stage ''create_temp_file'' (on_files (create_file (paths_temp (al_paths leader)))) (\<lambda>file.
      receive_tail E leader file resp (up_chunks resp) 0))"
| "outcome_at E net u ty leader (Receiving file resp cs n) =
     removing_on_error leader (receive_tail E leader file resp cs n)"
| "outcome_at E net u ty leader (Writing file resp chunk cs n) = removing_on_error leader
     (stage ''write_temp_file'' (on_files (write_all file chunk)) (\<lambda>_.
      receive_tail E leader file resp cs (n + of_nat (length chunk))))"
| "outcome_at E net u ty leader (Flushing file resp n) = removing_on_error leader (flush_tail E leader file resp n)"
| "outcome_at E net u ty leader (Opening resp n) = removing_on_error leader (commit_stage
     (commit_artifact (env_codec E) (al_key leader) (artifact_meta E resp n) (paths_temp (al_paths leader))))"
| "outcome_at E net u ty leader (AppendingMeta file mb ml) = removing_on_error leader (commit_stage
     (io_bind (on_fs (write_all file mb)) (\<lambda>_. footer_tail leader file ml)))"
| "outcome_at E net u ty leader (AppendingFooter file ml) =
     removing_on_error leader (commit_stage (footer_tail leader file ml))"
| "outcome_at E net u ty leader (Renaming p) = removing_on_error leader (commit_stage (rename_tail leader p))"
| "outcome_at E net u ty leader (Removing e) = removing_on_error leader (\<lambda>a. (Inl e, a))"
| "outcome_at E net u ty leader (Fetched r) = (\<lambda>a. (r, a))"

lemma do_artifact_fetch_tail:
  "do_artifact_fetch E net u ty leader =
     stage [] (count_event (record_artifact_fetch ty)) (\<lambda>_.
     stage ''fetch_upstream'' (io_lift (send_request net (get_request u))) (\<lambda>resp.
     if up_status resp \<noteq> 200
     then
       stage ''read_error_response''
         (io_lift (read_limited_body resp MAX_ERROR_BODY_LEN ''upstream error body exceeds 1 MiB limit'')) (\<lambda>body a.
       (Inr (FetchNonOk (meta_for_bytes (env_http E) (up_status resp) (up_headers resp) (of_nat (length body)) True) body), a))
     else
       stage ''create_temp_file'' (on_files (create_file (paths_temp (al_paths leader)))) (\<lambda>file.
       receive_tail E leader file resp (up_chunks resp) 0)))"
  unfolding do_artifact_fetch_def receive_tail_def flush_tail_def [abs_def] commit_stage_def artifact_meta_def Let_def
  by (rule refl)

lemma artifact_fetch_phase_removing:
  "artifact_fetch_phase E net u ty leader = removing_on_error leader (do_artifact_fetch E net u ty leader)"
  by (simp add: fun_eq_iff artifact_fetch_phase_def removing_on_error_def split: prod.split sum.split)

lemma outcome_removing:
  "removing_on_error leader (\<lambda>a. (Inl e, a)) b = (Inl e, snd (on_files (remove_file (paths_temp (al_paths leader))) b))"
  by (simp add: removing_on_error_def)

text \<open>One labelled operation: an error goes to the removal, a result to the rest.\<close>

lemma outcome_stage:
  assumes "or_removing name r k = (d, b)" and "m a = r" and "\<And>x c. r = (Inr x, c) \<Longrightarrow> k x c = (d, b) \<Longrightarrow>
      outcome_at E net u ty leader d b = removing_on_error leader (rest x) c"
  shows "outcome_at E net u ty leader d b = removing_on_error leader (stage name m rest) a"
  using assms by (cases "m a"; cases "fst (m a)") (auto simp: or_removing_def stage_def removing_on_error_def)

lemma commit_stage_bind:
  "commit_stage (io_bind (on_fs m) k) = stage ''commit_cache_entry'' (on_files m) (\<lambda>x. commit_stage (k x))"
  by (rule ext) (auto simp: commit_stage_def stage_def io_bind_def on_files_def on_store_def on_fs_def split: prod.split sum.split)

lemma commit_stage_lift:
  "commit_stage (io_bind (io_lift r) k) = stage ''commit_cache_entry'' (\<lambda>a. (r, a)) (\<lambda>x. commit_stage (k x))"
  by (rule ext) (auto simp: commit_stage_def stage_def io_bind_def io_lift_def on_store_def split: prod.split sum.split)

lemma commit_artifact_tail:
  "commit_artifact C (al_key leader) meta (paths_temp (al_paths leader)) =
     io_bind (io_lift (serialize_meta C meta)) (\<lambda>mb.
     io_bind (io_lift (meta_len_u32 mb)) (\<lambda>ml.
     io_bind (on_fs (open_file (paths_temp (al_paths leader)))) (\<lambda>file.
     io_bind (on_fs (write_all file mb)) (\<lambda>_. footer_tail leader file ml))))"
  unfolding commit_artifact_def footer_tail_def rename_tail_def Let_def by (rule refl)

lemma receive_tail_simps:
  "receive_tail E leader i resp [] n = flush_tail E leader i resp n"
  "receive_tail E leader i resp (c # cs) n =
     stage ''read_upstream_stream'' (io_lift (next_chunk c)) (\<lambda>chunk.
     stage ''write_temp_file'' (on_files (write_all i chunk)) (\<lambda>_.
     receive_tail E leader i resp cs (n + of_nat (length chunk))))"
  by (auto simp: receive_tail_def stage_def staged_bind_def fun_eq_iff split: prod.split sum.split)

lemma outcome_renaming:
  assumes "step_renaming leader p a = (d, b)"
  shows "outcome_at E net u ty leader d b = removing_on_error leader (commit_stage (rename_tail leader p)) a"
  using assms
  by (auto simp: step_renaming_def rename_tail_def commit_stage_def stage_def removing_on_error_def io_simps io_try_def
      on_files_def on_app_store_def split: prod.splits sum.splits)

lemma outcome_footer:
  assumes "step_footer leader file ml a = (d, b)"
  shows "outcome_at E net u ty leader d b = removing_on_error leader (commit_stage (footer_tail leader file ml)) a"
  unfolding footer_tail_def commit_stage_bind
  by (rule outcome_stage [OF assms [unfolded step_footer_def]])
    (auto simp: commit_stage_def stage_def removing_on_error_def on_store_def split: prod.splits sum.splits)

lemma outcome_opening:
  assumes "step_opening E leader resp n a = (d, b)"
  shows "outcome_at E net u ty leader d b = outcome_at E net u ty leader (Opening resp n) a"
  unfolding outcome_at.simps commit_artifact_tail commit_stage_lift commit_stage_bind
  apply (rule outcome_stage, rule assms [unfolded step_opening_def], simp)
  apply (rule outcome_stage, assumption, simp)
  apply (rule outcome_stage, assumption, rule refl)
  apply (auto simp: commit_stage_bind)
  done

lemma outcome_request:
  assumes "step_request E net u ty a = (d, b)"
  shows "outcome_at E net u ty leader d b = artifact_fetch_phase E net u ty leader a"
  unfolding artifact_fetch_phase_removing do_artifact_fetch_tail
  apply (rule outcome_stage, rule assms [unfolded step_request_def], rule refl)
  apply (rule outcome_stage, assumption, simp only: io_lift_apply)
  subgoal for x c resp e
    by (cases "up_status resp = 200")
      (auto simp: or_removing_def stage_def removing_on_error_def io_lift_def split: sum.splits)
  done

lemma step_outcome:
  assumes "fetch_step E net u ty leader d a = (d', b)"
  shows "outcome_at E net u ty leader d' b = outcome_at E net u ty leader d a"
proof (cases d)
  case (Receiving i resp cs n)
  then show ?thesis
    using assms by (cases cs) (auto simp: receive_tail_simps io_lift_apply intro: outcome_stage)
next
  case (Writing i resp chunk cs n)
  then show ?thesis
    using assms by (auto intro: outcome_stage [OF _ refl])
next
  case (Creating resp)
  then show ?thesis
    using assms by (auto intro: outcome_stage [OF _ refl])
next
  case (Flushing i resp n)
  then show ?thesis
    using assms by (auto simp: flush_tail_def intro: outcome_stage [OF _ refl])
next
  case (AppendingMeta i mb ml)
  then show ?thesis
    using assms by (auto simp: commit_stage_bind intro: outcome_stage [OF _ refl])
next
  case (Removing e)
  then show ?thesis
    using assms by (auto simp: outcome_removing)
qed (use assms outcome_request outcome_footer outcome_renaming outcome_opening in auto)

text \<open>How many points are left at most.\<close>

fun points_left :: "network \<Rightarrow> url \<Rightarrow> fetch_point \<Rightarrow> nat" where
  "points_left net u Requesting =
     (case net (get_request u) of Inl _ \<Rightarrow> 9 | Inr resp \<Rightarrow> 2 * length (up_chunks resp) + 9)"
| "points_left net u (Creating resp) = 2 * length (up_chunks resp) + 8"
| "points_left net u (Receiving file resp cs n) = 2 * length cs + 7"
| "points_left net u (Writing file resp chunk cs n) = 2 * length cs + 8"
| "points_left net u (Flushing file resp n) = 6"
| "points_left net u (Opening resp n) = 5"
| "points_left net u (AppendingMeta file mb ml) = 4"
| "points_left net u (AppendingFooter file ml) = 3"
| "points_left net u (Renaming p) = 2"
| "points_left net u (Removing e) = 1"
| "points_left net u (Fetched r) = 0"

lemma step_points_left:
  assumes "fetch_step E net u ty leader d a = (d', b)" and "points_left net u d \<noteq> 0"
  shows "points_left net u d' < points_left net u d"
  using assms
  by (cases "(E, net, u, ty, leader, d, a)" rule: fetch_step.cases)
    (auto simp: or_removing_def step_request_def step_opening_def step_footer_def step_renaming_def count_event_def
      send_request_def split: sum.splits prod.splits if_splits)

lemma points_left_0: "points_left net u d = 0 \<longleftrightarrow> (\<exists>r. d = Fetched r)"
  by (cases d) (auto split: sum.split)

lemma fetch_steps_ends:
  "\<exists>n\<le>points_left net u d. fetch_steps E net u ty leader n d a =
     (Fetched (fst (outcome_at E net u ty leader d a)), snd (outcome_at E net u ty leader d a))"
proof (induction "points_left net u d" arbitrary: d a rule: less_induct)
  case less
  show ?case
  proof (cases "points_left net u d = 0")
    case True
    then obtain r where "d = Fetched r"
      using points_left_0 by blast
    then show ?thesis
      by (intro exI [of _ 0]) simp
  next
    case False
    obtain d' b where step: "fetch_step E net u ty leader d a = (d', b)"
      by force
    note lt = step_points_left [OF step False]
    obtain n where "n \<le> points_left net u d'" "fetch_steps E net u ty leader n d' b =
        (Fetched (fst (outcome_at E net u ty leader d' b)), snd (outcome_at E net u ty leader d' b))"
      using less [OF lt] by blast
    then show ?thesis
      using step lt step_outcome [OF step] by (intro exI [of _ "Suc n"]) simp
  qed
qed

text \<open>
  Cutting the download at its await points changes nothing.  Advanced from point to point, a fetch ends
  after at most two points per chunk and nine others, with the result and in the state that the
  fetch has as one step.
\<close>

lemma fetch_await_by_await:
  assumes "artifact_fetch_phase E net u ty leader a = (r, b)"
  shows "\<exists>n\<le>(case net (get_request u) of Inl _ \<Rightarrow> 9 | Inr resp \<Rightarrow> 2 * length (up_chunks resp) + 9).
    fetch_steps E net u ty leader n Requesting a = (Fetched r, b)"
  using fetch_steps_ends [of net u Requesting E ty leader a] assms by simp

section \<open>Dropping a fetch\<close>

abbreviation app_files :: "app \<Rightarrow> fs" where
  "app_files a \<equiv> st_fs (app_store a)"

text \<open>The file a point writes to has the temp file's name; to the rename any file will do.\<close>

fun holds_file :: "path \<Rightarrow> fetch_point \<Rightarrow> fs \<Rightarrow> bool" where
  "holds_file temp (Receiving i resp cs n) f = (\<exists>bs. writing temp i bs f)"
| "holds_file temp (Writing i resp chunk cs n) f = (\<exists>bs. writing temp i bs f)"
| "holds_file temp (Flushing i resp n) f = (\<exists>bs. writing temp i bs f)"
| "holds_file temp (AppendingMeta i mb ml) f = (\<exists>bs. writing temp i bs f)"
| "holds_file temp (AppendingFooter i ml) f = (\<exists>bs. writing temp i bs f)"
| "holds_file temp (Renaming p) f = (\<exists>i bs. writing temp i bs f)"
| "holds_file temp d f = True"

fun owned_point :: "fetch_point \<Rightarrow> published_entry multiset" where
  "owned_point (Renaming p) = {#p#}"
| "owned_point (Fetched (Inr (FetchCached p))) = {#p#}"
| "owned_point d = {#}"

definition published :: "fetch_point \<Rightarrow> bool" where
  "published d \<longleftrightarrow> (\<exists>p. d = Fetched (Inr (FetchCached p)))"

text \<open>What the fetch has made when it is at a point: at most its temp file, its publication and the entry.\<close>

definition so_far :: "artifact_leader \<Rightarrow> published_entry multiset \<Rightarrow> app \<Rightarrow> fetch_point \<Rightarrow> app \<Rightarrow> bool" where
  "so_far leader P a d b \<longleftrightarrow>
     (let temp = paths_temp (paths_for (al_key leader)); dest = body_path (al_key leader) in
      app_table b = app_table a \<and> app_pins (owned_point d + P) b
      \<and> (if published d
         then wf_fs (app_files b) \<and> view (app_files b) temp = None
           \<and> (\<forall>q. q \<notin> {temp, dest} \<longrightarrow> view (app_files b) q = view (app_files a) q)
         else changes_at temp (app_files a) (app_files b) \<and> holds_file temp d (app_files b)))"

lemma so_farI:
  assumes "app_table b = app_table a" and "app_pins (owned_point d + P) b" and "\<not> published d"
    and "changes_at (paths_temp (paths_for (al_key leader))) (app_files a) (app_files b)"
    and "holds_file (paths_temp (paths_for (al_key leader))) d (app_files b)"
  shows "so_far leader P a d b"
  using assms by (simp add: so_far_def Let_def)

lemma so_farD:
  assumes "so_far leader P a d b" and "\<not> published d"
  shows "app_table b = app_table a" and "app_pins (owned_point d + P) b"
    and "changes_at (paths_temp (paths_for (al_key leader))) (app_files a) (app_files b)"
    and "holds_file (paths_temp (paths_for (al_key leader))) d (app_files b)"
  using assms by (simp_all add: so_far_def Let_def)

lemma published_simps [simp]:
  "\<not> published Requesting" "\<not> published (Creating resp)" "\<not> published (Receiving i resp cs n)"
  "\<not> published (Writing i resp chunk cs n)" "\<not> published (Flushing i resp n)" "\<not> published (Opening resp n)"
  "\<not> published (AppendingMeta i mb ml)" "\<not> published (AppendingFooter i ml)" "\<not> published (Renaming p)"
  "\<not> published (Removing e)" "\<not> published (Fetched (Inl e))" "\<not> published (Fetched (Inr (FetchNonOk meta body)))"
  "published (Fetched (Inr (FetchCached p)))"
  by (simp_all add: published_def)

lemma on_files_run:
  "on_files m b = (r, c) \<Longrightarrow> m (app_files b) = (r, app_files c) \<and> app_table c = app_table b
     \<and> app_pins P c = app_pins P b"
  by (auto simp: on_files_def io_simps app_table_def table_def)

text \<open>An operation on the temp file, whatever it answers.\<close>

lemma so_far_files:
  assumes "so_far leader P a d b" and "\<not> published d" and "owned_point d = {#}"
    and "or_removing name (on_files m b) k = (d', c)"
    and "\<And>r f. m (app_files b) = (r, f) \<Longrightarrow> changes_at (paths_temp (paths_for (al_key leader))) (app_files b) f"
    and "\<And>x b'. m (app_files b) = (Inr x, app_files b') \<Longrightarrow> app_table b' = app_table a \<Longrightarrow> app_pins P b' \<Longrightarrow>
      changes_at (paths_temp (paths_for (al_key leader))) (app_files a) (app_files b') \<Longrightarrow> k x b' = (d', c) \<Longrightarrow>
      so_far leader P a d' c"
  shows "so_far leader P a d' c"
proof -
  note b = so_farD [OF assms(1,2)]
  obtain r b' where run: "on_files m b = (r, b')"
    by force
  note run' = on_files_run [OF run, of P]
  have c: "changes_at (paths_temp (paths_for (al_key leader))) (app_files a) (app_files b')"
    using changes_at_trans [OF b(3)] assms(5) run' by blast
  show ?thesis
  proof (cases r)
    case (Inl e)
    then show ?thesis
      using assms(3,4) run run' b(1,2) c by (auto simp: or_removing_def intro: so_farI)
  next
    case (Inr x)
    then show ?thesis
      using assms(3,4,6) run run' b(1,2) c by (auto simp: or_removing_def)
  qed
qed

lemma so_far_point:
  assumes "so_far leader P a d b" and "\<not> published d" and "owned_point d = {#}" and "owned_point d' = {#}"
    and "\<not> published d'" and "holds_file (paths_temp (paths_for (al_key leader))) d' (app_files b)"
  shows "so_far leader P a d' b"
  using assms by (simp add: so_far_def Let_def)

lemma so_far_stats: "so_far leader P a d b \<Longrightarrow> so_far leader P a d (b\<lparr>app_stats := x\<rparr>)"
  unfolding so_far_def Let_def app_table_def by simp

lemma so_far_request:
  assumes "so_far leader P a Requesting b" and "step_request E net u ty b = (d, c)"
  shows "so_far leader P a d c"
proof -
  have "so_far leader P a d (b\<lparr>app_stats := record_artifact_fetch ty (app_stats b)\<rparr>)"
    if "holds_file (paths_temp (paths_for (al_key leader))) d (app_files b)" "owned_point d = {#}" "\<not> published d"
    using so_far_point [OF so_far_stats [OF assms(1)]] that by simp
  then show ?thesis
    using assms(2)
    by (auto simp: step_request_def or_removing_def count_event_def split: sum.splits if_splits)
qed

lemma so_far_creating:
  assumes "so_far leader P a (Creating resp) b" and "al_paths leader = paths_for (al_key leader)"
    and "fetch_step E net u ty leader (Creating resp) b = (d, c)"
  shows "so_far leader P a d c"
proof -
  have wf: "wf_fs (app_files b)" "paths_temp (paths_for (al_key leader)) \<noteq> []"
    using so_farD(3) [OF assms(1)] by (simp_all add: changes_at_def temp_path_eq)
  note create = create_file_view [OF wf]
  show ?thesis
    by (rule so_far_files [OF assms(1) _ _ assms(3) [unfolded fetch_step.simps assms(2)]])
      (use create in \<open>fastforce intro: so_farI\<close>)+
qed

text \<open>A write goes to the file that the next point holds.\<close>

lemma so_far_write:
  assumes "so_far leader P a d b" and "\<not> published d" and "owned_point d = {#}"
    and "writing (paths_temp (paths_for (al_key leader))) i bs (app_files b)"
    and "or_removing name (on_files (write_all i new) b) k = (d', c)"
    and "\<And>b'. app_table b' = app_table a \<Longrightarrow> app_pins P b' \<Longrightarrow>
      changes_at (paths_temp (paths_for (al_key leader))) (app_files a) (app_files b') \<Longrightarrow>
      writing (paths_temp (paths_for (al_key leader))) i (bs @ new) (app_files b') \<Longrightarrow> k () b' = (d', c) \<Longrightarrow>
      so_far leader P a d' c"
  shows "so_far leader P a d' c"
  by (rule so_far_files [OF assms(1-3,5)]) (use write_all_view [OF assms(4), of new] assms(6) in fastforce)+

lemma so_far_receiving:
  assumes "so_far leader P a (Receiving i resp cs n) b" and "fetch_step E net u ty leader (Receiving i resp cs n) b = (d, c)"
  shows "so_far leader P a d c"
proof -
  obtain bs where "writing (paths_temp (paths_for (al_key leader))) i bs (app_files b)"
    using so_farD(4) [OF assms(1)] by auto
  moreover have "c = b"
    using assms(2) by (cases cs) (auto simp: or_removing_def split: sum.splits)
  ultimately show ?thesis
    using assms(2)
    by (cases cs) (auto simp: or_removing_def split: sum.splits intro!: so_far_point [OF assms(1)])
qed

lemma so_far_writing:
  assumes "so_far leader P a (Writing i resp chunk cs n) b"
    and "fetch_step E net u ty leader (Writing i resp chunk cs n) b = (d, c)"
  shows "so_far leader P a d c"
proof -
  obtain bs where w: "writing (paths_temp (paths_for (al_key leader))) i bs (app_files b)"
    using so_farD(4) [OF assms(1)] by auto
  show ?thesis
    by (rule so_far_write [OF assms(1) _ _ w assms(2) [unfolded fetch_step.simps]]) (auto intro!: so_farI)
qed

lemma so_far_flushing:
  assumes "so_far leader P a (Flushing i resp n) b" and "fetch_step E net u ty leader (Flushing i resp n) b = (d, c)"
  shows "so_far leader P a d c"
proof -
  obtain bs where w: "writing (paths_temp (paths_for (al_key leader))) i bs (app_files b)"
    using so_farD(4) [OF assms(1)] by auto
  show ?thesis
    by (rule so_far_files [OF assms(1) _ _ assms(2) [unfolded fetch_step.simps]])
      (use flush_file_view [OF w] in \<open>auto intro: so_farI\<close>)
qed

lemma so_far_opening:
  assumes "so_far leader P a (Opening resp n) b" and "al_paths leader = paths_for (al_key leader)"
    and "step_opening E leader resp n b = (d, c)"
  shows "so_far leader P a d c"
proof -
  let ?temp = "paths_temp (paths_for (al_key leader))"
  have wf: "wf_fs (app_files b)"
    using so_farD(3) [OF assms(1)] by (simp add: changes_at_def)
  have opened: "changes_at ?temp (app_files b) f \<and> (r = Inr i \<longrightarrow> (\<exists>bs. writing ?temp i bs f))"
    if "open_file ?temp (app_files b) = (r, f)" for r f i
  proof -
    note same = open_file_same [OF that]
    show ?thesis
      using changes_at_faults [OF wf same] open_file_Inr that wf unfolding writing_def
      by (auto simp: faults_same(2,3) [OF same])
  qed
  show ?thesis
  proof (cases "\<exists>mb. serialize_meta (env_codec E) (artifact_meta E resp n) = Inr mb \<and> (\<exists>ml. meta_len_u32 mb = Inr ml)")
    case False
    then show ?thesis
      using assms(3) so_far_point [OF assms(1), of d] by (auto simp: step_opening_def or_removing_def split: sum.splits)
  next
    case True
    then obtain mb ml where "serialize_meta (env_codec E) (artifact_meta E resp n) = Inr mb" "meta_len_u32 mb = Inr ml"
      by blast
    then have "or_removing ''commit_cache_entry'' (on_files (open_file ?temp) b) (\<lambda>i b. (AppendingMeta i mb ml, b)) = (d, c)"
      using assms(2,3) by (simp add: step_opening_def or_removing_def)
    then show ?thesis
      by (rule so_far_files [OF assms(1), rotated 2]) (use opened in \<open>fastforce intro: so_farI\<close>)+
  qed
qed

lemma so_far_appending:
  assumes "so_far leader P a (AppendingMeta i mb ml) b" and "fetch_step E net u ty leader (AppendingMeta i mb ml) b = (d, c)"
  shows "so_far leader P a d c"
proof -
  obtain bs where w: "writing (paths_temp (paths_for (al_key leader))) i bs (app_files b)"
    using so_farD(4) [OF assms(1)] by auto
  show ?thesis
    by (rule so_far_write [OF assms(1) _ _ w assms(2) [unfolded fetch_step.simps]]) (auto intro!: so_farI)
qed

lemma so_far_footer:
  assumes "so_far leader P a (AppendingFooter i ml) b" and "step_footer leader i ml b = (d, c)"
  shows "so_far leader P a d c"
proof -
  obtain bs where w: "writing (paths_temp (paths_for (al_key leader))) i bs (app_files b)"
    using so_farD(4) [OF assms(1)] by auto
  show ?thesis
  proof (rule so_far_write [OF assms(1) _ _ w assms(2) [unfolded step_footer_def]], goal_cases)
    case (3 b')
    obtain p t where pin: "pin (al_key leader) (app_store b') = (p, t)"
      by force
    then have "st_fs t = app_files b'" "app_table (b'\<lparr>app_store := t\<rparr>) = app_table b'"
      by (auto simp: pin_def Let_def app_table_def table_def)
    then show ?case
      using 3 pin pins_ok_pin(1) [OF 3(2) pin] by (auto intro!: so_farI exI)
  qed simp_all
qed

lemma so_far_renaming:
  assumes "so_far leader P a (Renaming p) b" and "al_paths leader = paths_for (al_key leader)"
    and "step_renaming leader p b = (d, c)"
  shows "so_far leader P a d c"
proof -
  let ?temp = "paths_temp (paths_for (al_key leader))" and ?dest = "body_path (al_key leader)"
  note b = so_farD [OF assms(1), simplified]
  obtain i bs where w: "writing ?temp i bs (app_files b)"
    using b(4) by auto
  then have wf: "wf_fs (app_files b)" "view (app_files b) ?temp = Some (File (fs_data (app_files b) i))"
    by (auto simp: writing_def view_File)
  have neq: "?temp \<noteq> ?dest" "?temp \<noteq> []" "?dest \<noteq> []"
    by (simp_all add: temp_path_eq body_path_eq)
  obtain r b' where run: "on_files (rename_file ?temp ?dest) b = (r, b')"
    by force
  note run' = on_files_run [OF run, of "{#p#} + P"]
  note view = rename_file_view [OF wf neq run' [THEN conjunct1]]
  show ?thesis
  proof (cases r)
    case (Inr x)
    have "view (app_files b') q = view (app_files a) q" if "q \<notin> {?temp, ?dest}" for q
      using view Inr that changes_at_other [OF b(3)] by simp
    then show ?thesis
      using assms(2,3) run run' Inr view b(1,2) neq(1)
      by (auto simp: step_renaming_def so_far_def Let_def)
  next
    case (Inl e)
    let ?c = "on_app_store (drop_published p) b'"
    have "changes_at ?temp (app_files a) (app_files ?c)"
      using changes_at_trans [OF b(3) changes_at_same] view Inl by (simp add: on_app_store_def flight_simps)
    moreover have "app_pins P ?c"
      using pins_ok_drop [of p P "app_store b'"] run' b(2) by (simp add: on_app_store_def)
    moreover have "app_table ?c = app_table a"
      using run' b(1) by (simp add: app_table_def on_app_store_def table_def flight_simps)
    ultimately show ?thesis
      using assms(2,3) run Inl by (auto simp: step_renaming_def intro: so_farI)
  qed
qed

lemma so_far_removing:
  assumes "so_far leader P a (Removing e) b" and "al_paths leader = paths_for (al_key leader)"
    and "fetch_step E net u ty leader (Removing e) b = (d, c)"
  shows "so_far leader P a d c"
proof -
  note b = so_farD [OF assms(1), simplified]
  let ?temp = "paths_temp (paths_for (al_key leader))"
  obtain r where run: "on_files (remove_file ?temp) b = (r, c)"
    using assms(2,3) by (cases "on_files (remove_file ?temp) b") auto
  have "changes_at ?temp (app_files b) (app_files c)"
    using remove_file_changes [of "app_files b" ?temp] on_files_run [OF run] b(3) by (simp add: changes_at_def temp_path_eq)
  then show ?thesis
    using assms(3) b on_files_run [OF run, of P] changes_at_trans [OF b(3)] by (auto intro: so_farI)
qed

lemma so_far_step:
  assumes "so_far leader P a d b" and "al_paths leader = paths_for (al_key leader)"
    and "fetch_step E net u ty leader d b = (d', c)"
  shows "so_far leader P a d' c"
proof (cases d)
  case Requesting
  then show ?thesis
    using assms(1,3) by (simp add: so_far_request)
next
  case (Creating resp)
  show ?thesis
    by (rule so_far_creating [OF assms(1) [unfolded Creating] assms(2) assms(3) [unfolded Creating]])
next
  case (Receiving i resp cs n)
  show ?thesis
    by (rule so_far_receiving [OF assms(1) [unfolded Receiving] assms(3) [unfolded Receiving]])
next
  case (Writing i resp chunk cs n)
  show ?thesis
    by (rule so_far_writing [OF assms(1) [unfolded Writing] assms(3) [unfolded Writing]])
next
  case (Flushing i resp n)
  show ?thesis
    by (rule so_far_flushing [OF assms(1) [unfolded Flushing] assms(3) [unfolded Flushing]])
next
  case (Opening resp n)
  show ?thesis
    by (rule so_far_opening [OF assms(1) [unfolded Opening] assms(2) assms(3) [unfolded Opening fetch_step.simps]])
next
  case (AppendingMeta i mb ml)
  show ?thesis
    by (rule so_far_appending [OF assms(1) [unfolded AppendingMeta] assms(3) [unfolded AppendingMeta]])
next
  case (AppendingFooter i ml)
  show ?thesis
    by (rule so_far_footer [OF assms(1) [unfolded AppendingFooter] assms(3) [unfolded AppendingFooter fetch_step.simps]])
next
  case (Renaming p)
  show ?thesis
    by (rule so_far_renaming [OF assms(1) [unfolded Renaming] assms(2) assms(3) [unfolded Renaming fetch_step.simps]])
next
  case (Removing e)
  show ?thesis
    by (rule so_far_removing [OF assms(1) [unfolded Removing] assms(2) assms(3) [unfolded Removing]])
next
  case (Fetched r)
  then show ?thesis
    using assms(1,3) by simp
qed

lemma so_far_steps:
  assumes "so_far leader P a d b" and "al_paths leader = paths_for (al_key leader)"
    and "fetch_steps E net u ty leader n d b = (d', c)"
  shows "so_far leader P a d' c"
  using assms
proof (induction n arbitrary: d b)
  case (Suc n)
  obtain d1 b1 where one: "fetch_step E net u ty leader d b = (d1, b1)"
    by force
  then show ?case
    using Suc.IH [OF so_far_step [OF Suc.prems(1,2) one] Suc.prems(2)] Suc.prems(3) by simp
qed simp

lemma drop_point_keeps:
  assumes "app_pins (owned_point d + P) b" and "app_table b = app_table a"
  shows "app_pins P (drop_point d b)" and "app_files (drop_point d b) = app_files b"
    and "app_table (drop_point d b) = app_table a"
proof -
  have p: "app_pins P (on_app_store (drop_published p) b)" if "app_pins ({#p#} + P) b" for p
    using pins_ok_drop [of p P "app_store b"] that by (simp add: on_app_store_def)
  have t: "app_files (on_app_store (drop_published p) b) = app_files b"
    "app_table (on_app_store (drop_published p) b) = app_table b" for p
    by (simp_all add: on_app_store_def flight_simps app_table_def table_def)
  show "app_pins P (drop_point d b)" "app_files (drop_point d b) = app_files b" "app_table (drop_point d b) = app_table a"
    using assms p t by (auto simp: drop_point_def split: fetch_point.splits sum.splits fetch_outcome.splits)
qed

text \<open>An operation that has begun, other than the rename, is one on the temp file.\<close>

lemma begun_changes:
  assumes "so_far leader P a d b" and "al_paths leader = paths_for (al_key leader)" and "\<not> published d"
    and "\<And>p. d \<noteq> Renaming p"
  shows "changes_at (paths_temp (paths_for (al_key leader))) (app_files b) (begun leader d (app_files b))"
proof -
  let ?temp = "paths_temp (paths_for (al_key leader))" and ?f = "app_files b"
  have b: "wf_fs ?f" "holds_file ?temp d ?f" "?temp \<noteq> []"
    using so_farD(3,4) [OF assms(1,3)] by (simp_all add: changes_at_def temp_path_eq)
  have writes: "changes_at ?temp ?f (snd (write_all i new ?f))" if "\<exists>bs. writing ?temp i bs ?f" for i new
    using that write_all_view by (metis prod.collapse)
  have flushes: "changes_at ?temp ?f (snd (flush_file i ?f))" if "\<exists>bs. writing ?temp i bs ?f" for i
    using that flush_file_view by (metis prod.collapse)
  have creates: "changes_at ?temp ?f (snd (create_file ?temp ?f))"
    using create_file_view [OF b(1,3)] by (metis prod.collapse)
  have opens: "changes_at ?temp ?f (snd (open_file ?temp ?f))"
    using changes_at_faults [OF b(1) open_file_same] by (metis prod.collapse)
  have "\<forall>p. d \<noteq> Renaming p"
    using assms(4) by blast
  then show ?thesis
    using b assms(2) writes flushes creates opens remove_file_changes [OF b(1,3)] changes_at_refl [OF b(1)]
    by (cases d) (simp_all add: begun_def)
qed

lemma begun_effect:
  assumes "so_far leader P a d b" and "al_paths leader = paths_for (al_key leader)"
    and "b' = b \<or> b' = finish_begun leader d b"
  shows "app_pins (owned_point d + P) b'" and "app_table b' = app_table a" and "wf_fs (app_files b')"
    and "q \<notin> {paths_temp (paths_for (al_key leader)), body_path (al_key leader)} \<Longrightarrow> view (app_files b') q = view (app_files a) q"
    and "\<not> published d \<Longrightarrow> (\<forall>p. d = Renaming p \<longrightarrow> b' = b) \<Longrightarrow>
      view (app_files b') (body_path (al_key leader)) = view (app_files a) (body_path (al_key leader))"
    and "view (app_files a) (paths_temp (paths_for (al_key leader))) \<noteq> Some Dir \<Longrightarrow>
      view (app_files b') (paths_temp (paths_for (al_key leader))) \<noteq> Some Dir"
proof -
  let ?temp = "paths_temp (paths_for (al_key leader))" and ?dest = "body_path (al_key leader)"
  have neq: "?temp \<noteq> ?dest" "?temp \<noteq> []" "?dest \<noteq> []"
    by (simp_all add: temp_path_eq body_path_eq)
  have b: "app_table b = app_table a" "app_pins (owned_point d + P) b"
    using assms(1) by (simp_all add: so_far_def Let_def)
  then show "app_pins (owned_point d + P) b'" "app_table b' = app_table a"
    using assms(3) by (auto simp: finish_begun_def on_app_store_def app_table_def table_def)
  have files: "app_files b' = app_files b \<or> app_files b' = begun leader d (app_files b)"
    using assms(3) by (auto simp: finish_begun_def on_app_store_def)
  have "wf_fs (app_files b')
    \<and> (\<forall>q. q \<notin> {?temp, ?dest} \<longrightarrow> view (app_files b') q = view (app_files a) q)
    \<and> (\<not> published d \<longrightarrow> (\<forall>p. d = Renaming p \<longrightarrow> b' = b) \<longrightarrow> view (app_files b') ?dest = view (app_files a) ?dest)
    \<and> (view (app_files a) ?temp \<noteq> Some Dir \<longrightarrow> view (app_files b') ?temp \<noteq> Some Dir)"
  proof (cases "published d")
    case True
    then have "begun leader d = id"
      by (auto simp: published_def begun_def fun_eq_iff)
    then show ?thesis
      using files True assms(1) by (auto simp: so_far_def Let_def)
  next
    case False
    note at = so_farD(3) [OF assms(1) False]
    have effect: ?thesis if "changes_at ?temp (app_files a) (app_files b')"
    proof -
      have "wf_fs (app_files b')" "\<forall>q. q \<noteq> ?temp \<longrightarrow> view (app_files b') q = view (app_files a) q"
        "view (app_files b') ?temp = Some Dir \<longleftrightarrow> view (app_files a) ?temp = Some Dir"
        using that by (auto simp: changes_at_def)
      then show ?thesis
        using neq(1) [symmetric] by simp
    qed
    show ?thesis
    proof (cases "app_files b' = app_files b \<or> (\<forall>p. d \<noteq> Renaming p)")
      case True
      then have "changes_at ?temp (app_files a) (app_files b')"
        using files at changes_at_trans [OF at begun_changes [OF assms(1,2) False]] by metis
      then show ?thesis
        by (rule effect)
    next
      case moved: False
      then obtain p where d: "d = Renaming p"
        by blast
      obtain i bs where "writing ?temp i bs (app_files b)"
        using so_farD(4) [OF assms(1) False] d by auto
      then have wf: "wf_fs (app_files b)" "view (app_files b) ?temp = Some (File (fs_data (app_files b) i))"
        by (auto simp: writing_def view_File)
      have run: "rename_file ?temp ?dest (app_files b) = (fst (rename_file ?temp ?dest (app_files b)), app_files b')"
        using files moved d assms(2) by (simp add: begun_def)
      note view = rename_file_view [OF wf neq run]
      have "b' \<noteq> b"
        using moved by auto
      moreover have "view (app_files b') ?temp \<in> {None, Some (File (fs_data (app_files b) i))}"
        using view wf(2) neq(1) by (cases "fst (rename_file ?temp ?dest (app_files b))") (simp_all only: sum.case fun_upd_apply, auto)
      then have "view (app_files b') ?temp \<noteq> Some Dir"
        by (metis insertE option.distinct(1) option.inject singletonD tnode.distinct(1))
      moreover have "view (app_files b') q = view (app_files a) q" if "q \<notin> {?temp, ?dest}" for q
        using that view changes_at_other [OF at] by (cases "fst (rename_file ?temp ?dest (app_files b))") simp_all
      ultimately show ?thesis
        using view d by blast
    qed
  qed
  then show "wf_fs (app_files b')"
    and "q \<notin> {?temp, ?dest} \<Longrightarrow> view (app_files b') q = view (app_files a) q"
    and "\<not> published d \<Longrightarrow> (\<forall>p. d = Renaming p \<longrightarrow> b' = b) \<Longrightarrow> view (app_files b') ?dest = view (app_files a) ?dest"
    and "view (app_files a) ?temp \<noteq> Some Dir \<Longrightarrow> view (app_files b') ?temp \<noteq> Some Dir"
    by blast+
qed

lemma removed_temp:
  assumes "wf_fs (app_files b)" and "p \<noteq> []" and "on_files (remove_file p) b = (r, c)"
  shows "q \<noteq> p \<Longrightarrow> view (app_files c) q = view (app_files b) q"
    and "fs_faults (app_files b) = [] \<Longrightarrow> view (app_files b) p \<noteq> Some Dir \<Longrightarrow> view (app_files c) p = None"
proof -
  have run: "remove_file p (app_files b) = (r, app_files c)"
    using on_files_run [OF assms(3)] by blast
  show "q \<noteq> p \<Longrightarrow> view (app_files c) q = view (app_files b) q"
    using remove_file_changes [OF assms(1,2)] run changes_at_other by fastforce
  show "view (app_files c) p = None" if "fs_faults (app_files b) = []" "view (app_files b) p \<noteq> Some Dir"
  proof (cases "fs_lookup (app_files b) p")
    case None
    then show ?thesis
      using run that(1) by (auto simp: remove_file_def fs_op_no_faults view_def)
  next
    case (Some nd)
    then have "app_files c = fs_unlink p (app_files b)"
      using run that by (cases nd) (auto simp: remove_file_def fs_op_no_faults view_def)
    then show ?thesis
      using assms(2) by (simp add: view_def fs_lookup_unlink)
  qed
qed

text \<open>
  C15: A fetch that is dropped leaves nothing behind.  At whatever await point it is dropped, whatever the
  upstream sent and whichever operation failed before, and whether or not an operation it waits for is
  still carried out: the guard ends its flight, whose waiters get an error, and takes it from the
  table; no publication stays owned; no name but the temp file's has changed, except the entry's own if it
  was published just before or is being renamed; and the temp file is gone, if it could be removed.
\<close>

theorem dropped_fetch_leaves_nothing:
  assumes "wf_fs (app_files a)" and "app_pins P a"
    and "leader = \<lparr>al_inflight = i, al_key = key, al_paths = paths_for key\<rparr>"
    and "fetch_steps E net u ty leader n Requesting a = (d, b)" and "b' = b \<or> b' = finish_begun leader d b"
  shows "let c = cancel_fetch leader d b' in
    app_pins P c \<and> st_inflight (app_store c) = (st_inflight (app_store a))(key := None)
    \<and> st_outcomes (app_store c) i = Some (case st_outcomes (app_store a) i of
         None \<Rightarrow> Failed Interrupted ''artifact fetch cancelled'' | Some outcome \<Rightarrow> outcome)
    \<and> (\<forall>q. q \<noteq> paths_temp (paths_for key)
         \<and> (q = body_path key \<longrightarrow> \<not> published d \<and> (\<forall>p. d = Renaming p \<longrightarrow> b' = b)) \<longrightarrow>
         view (app_files c) q = view (app_files a) q)
    \<and> (fs_faults (app_files b') = [] \<longrightarrow> view (app_files a) (paths_temp (paths_for key)) \<noteq> Some Dir \<longrightarrow>
         view (app_files c) (paths_temp (paths_for key)) = None)"
proof -
  let ?temp = "paths_temp (paths_for key)" and ?p = "drop_point d b'"
  have leader: "al_paths leader = paths_for (al_key leader)" "al_key leader = key" "al_inflight leader = i"
    using assms(3) by simp_all
  have "so_far leader P a Requesting a"
    using assms(1,2) by (intro so_farI) (simp_all add: changes_at_refl)
  from so_far_steps [OF this leader(1) assms(4)] have "so_far leader P a d b" .
  note b = begun_effect [OF this leader(1) assms(5), unfolded leader(2)]
  note p = drop_point_keeps [OF b(1,2)]
  obtain r c where run: "on_files (remove_file ?temp) ?p = (r, c)"
    by force
  note c = on_files_run [OF run, of P]
  have cancel: "cancel_fetch leader d b' = on_app_store (finish_inflight key
      \<circ> (\<lambda>s. snd (fail_inflight i Interrupted ''artifact fetch cancelled'' s))) c"
    using run leader by (simp add: cancel_fetch_def artifact_cleanup_def)
  have wf: "wf_fs (app_files ?p)" "?temp \<noteq> []"
    using b(3) unfolding p(2) by (simp_all add: temp_path_eq)
  note gone = removed_temp [OF wf run]
  have same: "view (app_files c) q = view (app_files a) q"
    if "q \<noteq> ?temp" "q = body_path key \<longrightarrow> \<not> published d \<and> (\<forall>p. d = Renaming p \<longrightarrow> b' = b)" for q
    using gone(1) [OF that(1)] b(4) [of q] b(5) that unfolding p(2) by (cases "q = body_path key") auto
  have files: "app_files (cancel_fetch leader d b') = app_files c"
    unfolding cancel by (simp add: on_app_store_def finish_inflight_def fail_inflight_def complete_def drop_outcome_def split: option.split)
  have "app_pins P c" "app_table c = app_table a"
    using c p by auto
  then have "app_pins P (cancel_fetch leader d b')"
    "st_inflight (app_store (cancel_fetch leader d b')) = (st_inflight (app_store a))(key := None)"
    "st_outcomes (app_store (cancel_fetch leader d b')) i = Some (case st_outcomes (app_store a) i of
         None \<Rightarrow> Failed Interrupted ''artifact fetch cancelled'' | Some outcome \<Rightarrow> outcome)"
    unfolding cancel
    by (auto simp: on_app_store_def finish_inflight_def fail_inflight_def complete_def drop_outcome_def app_table_def
        table_def split: option.split)
  then show ?thesis
    unfolding Let_def files using same gone(2) b(6) p(2) by auto
qed

section \<open>Instances\<close>

definition sample_leader :: artifact_leader where
  "sample_leader = \<lparr>al_inflight = 0, al_key = sample_key, al_paths = paths_for sample_key\<rparr>"

abbreviation sample_steps :: "nat \<Rightarrow> fetch_point \<times> app" where
  "sample_steps n \<equiv> fetch_steps (sample_env file_meta) (\<lambda>_. Inr (sample_response 200)) (npm sample_origins) ''npm'' sample_leader n
     Requesting (sample_app downloaded_store)"

text \<open>Dropped while it writes the first of two chunks.\<close>

lemma dropped_fetch_leaves_nothing_witness:
  "\<exists>b. sample_steps 3 = (Writing 1 (sample_response 200) ''bo'' [Inr ''dy''] 0, b)
     \<and> view (app_files b) (paths_temp (paths_for sample_key)) = Some (File [])
     \<and> view (app_files (cancel_fetch sample_leader (Writing 1 (sample_response 200) ''bo'' [Inr ''dy''] 0) b))
         (paths_temp (paths_for sample_key)) = None"
proof -
  let ?d = "Writing 1 (sample_response 200) ''bo'' [Inr ''dy''] 0"
  note temp = downloaded_store_facts(4)
  let ?f = "(st_fs downloaded_store)\<lparr>fs_data := (fs_data (st_fs downloaded_store))(1 := []),
      fs_pending := (fs_pending (st_fs downloaded_store))(1 := []),
      fs_mtime := (fs_mtime (st_fs downloaded_store))(1 := fs_clock (st_fs downloaded_store))\<rparr>"
  let ?b = "\<lparr>app_store = downloaded_store\<lparr>st_fs := ?f\<rparr>, app_stats = record_artifact_fetch ''npm'' default_stats\<rparr>"
  have create: "create_file (paths_temp (paths_for sample_key)) (st_fs downloaded_store) = (Inr 1, ?f)"
    using downloaded_store_facts(1) temp by (simp add: create_file_def fs_op_no_faults)
  have run: "sample_steps 3 = (?d, ?b)"
    using create
    by (simp add: eval_nat_numeral step_request_def or_removing_def count_event_def send_request_def sample_app_def
        sample_response_def sample_leader_def on_files_def io_simps next_chunk_def)
  have "app_pins {#} (sample_app downloaded_store)"
    by (rule pins_okI) (simp_all add: sample_app_def downloaded_store_def fresh_store_def empty_store_def)
  moreover have "view (st_fs downloaded_store) (paths_temp (paths_for sample_key)) \<noteq> Some Dir"
    using temp by (simp add: view_def)
  ultimately have "view (app_files (cancel_fetch sample_leader ?d ?b)) (paths_temp (paths_for sample_key)) = None"
    using dropped_fetch_leaves_nothing [OF _ _ sample_leader_def run, where b' = ?b] downloaded_store_wf downloaded_store_facts(1)
    by (simp add: sample_app_def Let_def)
  moreover have "view (app_files ?b) (paths_temp (paths_for sample_key)) = Some (File [])"
    using temp by (simp add: view_def)
  ultimately show ?thesis
    using run by blast
qed

end
