(* ===== verification/DocumentPoints.thy ===== *)
theory DocumentPoints
  imports DownloadPoints
begin

text \<open>
  A fetch of a document cut at its await points (\<^verbatim>\<open>run_metadata_fetch\<close>, \<^verbatim>\<open>do_metadata_fetch\<close>, \<^verbatim>\<open>finish_metadata\<close>,
  \<^verbatim>\<open>read_metadata_body\<close> of \<^verbatim>\<open>src/proxy.rs\<close> and \<^verbatim>\<open>store_metadata\<close> of \<^verbatim>\<open>src/cache.rs\<close>).  It runs inside the request of its
  leader: when that client goes away, the function is dropped where it is, with the reservation it holds
  and the guard of its temp file (\<^verbatim>\<open>MetadataTempCleanup\<close>).  An eviction pass is one point.
\<close>

section \<open>Points\<close>

type_synonym document = "stored_response_meta \<times> bytes"

datatype document_point =
    LoadingEntry
  | Asking "stored_entry option"
  | ReadingStored stored_entry
  | Collecting upstream_response "(string + bytes) list" bytes
  | MakingDirectory document
  | CreatingTemp path document "bytes list"
  | WritingTemp path nat document "bytes list"
  | FlushingTemp path nat document
  | Swapping path document
  | CleaningTemp path io_error
  | Trimming document
  | Answered "document io_result"

text \<open>The reservation travels with the state, as its owner does.\<close>

type_synonym holding_app = "app \<times> reservation"

definition or_answer ::
  "'a io_result \<times> holding_app \<Rightarrow> ('a \<Rightarrow> holding_app \<Rightarrow> document_point \<times> holding_app) \<Rightarrow> document_point \<times> holding_app" where
  "or_answer r k = (case r of (Inl e, p) \<Rightarrow> (Answered (Inl e), p) | (Inr x, p) \<Rightarrow> k x p)"

definition or_cleaning ::
  "path \<Rightarrow> 'a io_result \<times> holding_app \<Rightarrow> ('a \<Rightarrow> holding_app \<Rightarrow> document_point \<times> holding_app)
     \<Rightarrow> document_point \<times> holding_app" where
  "or_cleaning temp r k = (case r of (Inl e, p) \<Rightarrow> (CleaningTemp temp e, p) | (Inr x, p) \<Rightarrow> k x p)"

text \<open>The request is sent; its answer decides what is read, under a new reservation.\<close>

definition step_asking ::
  "env \<Rightarrow> network \<Rightarrow> url \<Rightarrow> string \<Rightarrow> stored_entry option \<Rightarrow> app \<Rightarrow> document_point \<times> holding_app" where
  "step_asking E net u ty entry0 a =
     (let entry = usable_entry entry0;
          request = (get_request u)\<lparr>ur_headers := conditional_headers entry\<rparr>;
          b = snd (count_event (record_metadata_fetch ty) a) in
      or_answer (send_request net request, (b, None)) (\<lambda>resp p.
      case (up_status resp = 304, entry) of
        (True, Some e) \<Rightarrow> or_answer (reserve_more (entry_body_len e) p) (\<lambda>_ p. (ReadingStored e, p))
      | _ \<Rightarrow>
          or_answer (limited_initial_capacity (up_content_length resp) MAX_METADATA_BODY_LEN metadata_limit_error, p)
            (\<lambda>initial_capacity p.
          or_answer (reserve_more (case up_content_length resp of None \<Rightarrow> initial_capacity | Some n \<Rightarrow> n) p) (\<lambda>_ p.
          (Collecting resp (up_chunks resp) [], p)))))"

definition step_chunk ::
  "upstream_response \<Rightarrow> string + bytes \<Rightarrow> (string + bytes) list \<Rightarrow> bytes \<Rightarrow> holding_app \<Rightarrow> document_point \<times> holding_app" where
  "step_chunk resp c cs body p =
     or_answer (next_chunk c, p) (\<lambda>chunk p.
     if length chunk > unat MAX_METADATA_BODY_LEN - length body
     then (Answered (Inl (invalid_data metadata_limit_error)), p)
     else
       or_answer (reserve_more (of_nat (length body + length chunk)) p) (\<lambda>_ p.
       (Collecting resp cs (body @ chunk), p)))"

text \<open>After the last chunk there is no await until the shard directory is made.\<close>

definition step_rewriting ::
  "env \<Rightarrow> metadata_rewrite \<Rightarrow> upstream_response \<Rightarrow> bytes \<Rightarrow> holding_app \<Rightarrow> document_point \<times> holding_app" where
  "step_rewriting E rw resp body p =
     (let n = of_nat (length body) in
      or_answer (reserve_more (working_set rw n (output_bound rw n)) p) (\<lambda>_ p.
      or_answer (apply_rewrite E rw body, p) (\<lambda>rewritten p.
      if length rewritten > unat MAX_METADATA_BODY_LEN
      then (Answered (Inl (invalid_data ''rewritten metadata body exceeds 128 MiB limit'')), p)
      else
        (let meta = meta_for_bytes (env_http E) (up_status resp) (up_headers resp) (of_nat (length rewritten))
                      (rw = RewriteNone) in
         if up_status resp = 200 \<and> (meta_etag meta \<noteq> None \<or> meta_last_modified meta \<noteq> None)
         then (MakingDirectory (meta, rewritten), p)
         else (Answered (Inr (meta, rewritten)), p)))))"

definition on_tree :: "(fs, 'a) io \<Rightarrow> (holding_app, 'a) io" where
  "on_tree m = on_app (on_store (on_fs m))"

text \<open>The temp name is drawn and the metadata serialized before the guard is armed and the file created.\<close>

definition step_directory :: "env \<Rightarrow> string \<Rightarrow> document \<Rightarrow> holding_app \<Rightarrow> document_point \<times> holding_app" where
  "step_directory E key doc p =
     or_answer (on_tree (create_dir_all (butlast (body_path key))) p) (\<lambda>_ p.
     or_answer (on_app (on_store (next_temp_path (paths_temp (paths_for key)))) p) (\<lambda>temp p.
     or_answer (serialize_meta (env_codec E) (fst doc), p) (\<lambda>mb p.
     or_answer (meta_len_u32 mb, p) (\<lambda>ml p.
     (CreatingTemp temp doc [snd doc, mb, to_be_bytes ml], p)))))"

fun document_step ::
  "env \<Rightarrow> network \<Rightarrow> url \<Rightarrow> string \<Rightarrow> metadata_rewrite \<Rightarrow> string \<Rightarrow> document_point \<Rightarrow> holding_app
     \<Rightarrow> document_point \<times> holding_app" where
  "document_step E net u ty rw key LoadingEntry p =
     or_answer (on_app (on_store (load (env_codec E) key)) p) (\<lambda>entry p. (Asking entry, p))"
| "document_step E net u ty rw key (Asking entry) p = step_asking E net u ty entry (fst p)"
| "document_step E net u ty rw key (ReadingStored e) p =
     or_answer (on_tree (read_body e) p) (\<lambda>body p. (Answered (Inr (entry_meta e, body)), p))"
| "document_step E net u ty rw key (Collecting resp [] body) p = step_rewriting E rw resp body p"
| "document_step E net u ty rw key (Collecting resp (c # cs) body) p = step_chunk resp c cs body p"
| "document_step E net u ty rw key (MakingDirectory doc) p = step_directory E key doc p"
| "document_step E net u ty rw key (CreatingTemp temp doc parts) p =
     or_cleaning temp (on_tree (create_file temp) p) (\<lambda>file p. (WritingTemp temp file doc parts, p))"
| "document_step E net u ty rw key (WritingTemp temp file doc []) p = (FlushingTemp temp file doc, p)"
| "document_step E net u ty rw key (WritingTemp temp file doc (bs # parts)) p =
     or_cleaning temp (on_tree (write_all file bs) p) (\<lambda>_ p. (WritingTemp temp file doc parts, p))"
| "document_step E net u ty rw key (FlushingTemp temp file doc) p =
     or_cleaning temp (on_tree (flush_file file) p) (\<lambda>_ p. (Swapping temp doc, p))"
| "document_step E net u ty rw key (Swapping temp doc) p =
     or_cleaning temp (on_tree (rename_file temp (body_path key)) p) (\<lambda>_ p. (Trimming doc, p))"
| "document_step E net u ty rw key (CleaningTemp temp e) p =
     (Answered (Inl e), snd (on_tree (remove_file temp) p))"
| "document_step E net u ty rw key (Trimming doc) p =
     or_answer (on_app (on_store evict_files_to_bound) p) (\<lambda>_ p. (Answered (Inr doc), p))"
| "document_step E net u ty rw key (Answered r) p = (Answered r, p)"

fun document_steps ::
  "env \<Rightarrow> network \<Rightarrow> url \<Rightarrow> string \<Rightarrow> metadata_rewrite \<Rightarrow> string \<Rightarrow> nat \<Rightarrow> document_point \<Rightarrow> holding_app
     \<Rightarrow> document_point \<times> holding_app" where
  "document_steps E net u ty rw key 0 d p = (d, p)"
| "document_steps E net u ty rw key (Suc n) d p =
     (case document_step E net u ty rw key d p of (d', q) \<Rightarrow> document_steps E net u ty rw key n d' q)"

text \<open>
  Dropping the function at a point: the armed guard removes the temp file, the reservation goes back to the
  semaphore, and the guard of the leader ends the flight.
\<close>

fun armed_temp :: "document_point \<Rightarrow> path option" where
  "armed_temp (CreatingTemp temp doc parts) = Some temp"
| "armed_temp (WritingTemp temp file doc parts) = Some temp"
| "armed_temp (FlushingTemp temp file doc) = Some temp"
| "armed_temp (Swapping temp doc) = Some temp"
| "armed_temp (CleaningTemp temp e) = Some temp"
| "armed_temp _ = None"

text \<open>An operation on files that has begun is finished by its thread all the same.\<close>

definition begun_document :: "string \<Rightarrow> document_point \<Rightarrow> fs \<Rightarrow> fs" where
  "begun_document key d f =
     (case d of
        MakingDirectory doc \<Rightarrow> snd (create_dir_all (butlast (body_path key)) f)
      | CreatingTemp temp doc parts \<Rightarrow> snd (create_file temp f)
      | WritingTemp temp file doc (bs # parts) \<Rightarrow> snd (write_all file bs f)
      | FlushingTemp temp file doc \<Rightarrow> snd (flush_file file f)
      | Swapping temp doc \<Rightarrow> snd (rename_file temp (body_path key) f)
      | CleaningTemp temp e \<Rightarrow> snd (remove_file temp f)
      | _ \<Rightarrow> f)"

definition finish_document :: "string \<Rightarrow> document_point \<Rightarrow> app \<Rightarrow> app" where
  "finish_document key d = on_app_store (\<lambda>s. s\<lparr>st_fs := begun_document key d (st_fs s)\<rparr>)"

definition drop_document :: "document_point \<Rightarrow> holding_app \<Rightarrow> app" where
  "drop_document d p =
     (case p of (a, r) \<Rightarrow>
       drop_reservation r
         (case armed_temp d of None \<Rightarrow> a | Some temp \<Rightarrow> snd (on_files (remove_file temp) a)))"

definition cancel_document :: "metadata_leader \<Rightarrow> document_point \<Rightarrow> holding_app \<Rightarrow> app" where
  "cancel_document leader d p = metadata_cleanup leader (drop_document d p)"

section \<open>The whole fetch\<close>

text \<open>What is left to do at a point, as the sequential model has it.\<close>

definition trim_tail :: "document \<Rightarrow> (holding_app, document) io" where
  "trim_tail doc = io_bind (on_app (on_store evict_files_to_bound)) (\<lambda>_. io_return doc)"

definition guarded_tail :: "path \<Rightarrow> (fs, unit) io \<Rightarrow> document \<Rightarrow> (holding_app, document) io" where
  "guarded_tail temp m doc = io_bind (on_app (on_store (with_temp_cleanup temp (on_fs m)))) (\<lambda>_. trim_tail doc)"

primrec write_tail :: "string \<Rightarrow> path \<Rightarrow> nat \<Rightarrow> bytes list \<Rightarrow> (fs, unit) io" where
  "write_tail key temp i [] = io_bind (flush_file i) (\<lambda>_. rename_file temp (body_path key))"
| "write_tail key temp i (bs # parts) = io_bind (write_all i bs) (\<lambda>_. write_tail key temp i parts)"

definition rewrite_tail ::
  "env \<Rightarrow> metadata_rewrite \<Rightarrow> string \<Rightarrow> upstream_response \<Rightarrow> bytes \<Rightarrow> (holding_app, document) io" where
  "rewrite_tail E rw key resp body =
     io_bind (reserve_more (working_set rw (of_nat (length body)) (output_bound rw (of_nat (length body))))) (\<lambda>_.
     io_bind (io_lift (apply_rewrite E rw body)) (\<lambda>rewritten. conclude_metadata E rw key resp rewritten))"

fun document_tail :: "env \<Rightarrow> metadata_rewrite \<Rightarrow> string \<Rightarrow> document_point \<Rightarrow> (holding_app, document) io" where
  "document_tail E rw key (ReadingStored e) = io_bind (on_tree (read_body e)) (\<lambda>body. io_return (entry_meta e, body))"
| "document_tail E rw key (Collecting resp cs body) =
     io_bind (read_metadata_chunks cs body) (rewrite_tail E rw key resp)"
| "document_tail E rw key (MakingDirectory doc) =
     io_bind (on_app (on_store (store_metadata (env_codec E) key (snd doc) (fst doc)))) (\<lambda>_. io_return doc)"
| "document_tail E rw key (CreatingTemp temp doc parts) =
     guarded_tail temp (io_bind (create_file temp) (\<lambda>i. write_tail key temp i parts)) doc"
| "document_tail E rw key (WritingTemp temp i doc parts) = guarded_tail temp (write_tail key temp i parts) doc"
| "document_tail E rw key (FlushingTemp temp i doc) = guarded_tail temp (write_tail key temp i []) doc"
| "document_tail E rw key (Swapping temp doc) = guarded_tail temp (rename_file temp (body_path key)) doc"
| "document_tail E rw key (CleaningTemp temp e) = (\<lambda>p. (Inl e, snd (on_tree (remove_file temp) p)))"
| "document_tail E rw key (Trimming doc) = trim_tail doc"
| "document_tail E rw key (Answered r) = io_lift r"
| "document_tail E rw key d = undefined"

definition resolved :: "'a io_result \<times> holding_app \<Rightarrow> ('a \<times> reservation) io_result \<times> app" where
  "resolved x = (case x of (Inr y, (b, r)) \<Rightarrow> (Inr (y, r), b) | (Inl e, (b, r)) \<Rightarrow> (Inl e, drop_reservation r b))"

fun document_result ::
  "env \<Rightarrow> network \<Rightarrow> url \<Rightarrow> string \<Rightarrow> metadata_rewrite \<Rightarrow> string \<Rightarrow> document_point \<Rightarrow> holding_app
     \<Rightarrow> (document \<times> reservation) io_result \<times> app" where
  "document_result E net u ty rw key LoadingEntry p =
     io_bind (on_store (load (env_codec E) key)) (\<lambda>entry. do_metadata_fetch E net u ty rw entry key) (fst p)"
| "document_result E net u ty rw key (Asking entry) p = do_metadata_fetch E net u ty rw entry key (fst p)"
| "document_result E net u ty rw key d p = resolved (document_tail E rw key d p)"

lemma with_reservation_resolved: "with_reservation m a = resolved (m (a, None))"
  by (simp add: with_reservation_def resolved_def)

lemma drop_nothing [simp]: "drop_reservation None a = a"
  by (simp add: drop_reservation_def release_reservation_def held_def)

lemma on_store_bind: "on_app (on_store (io_bind m f)) = io_bind (on_app (on_store m)) (\<lambda>x. on_app (on_store (f x)))"
  by (rule ext) (auto simp: io_bind_def on_app_def on_store_def split: prod.split sum.split)

lemma on_store_lift: "on_app (on_store (io_lift r)) = io_lift r"
  by (rule ext) (auto simp: io_lift_def on_app_def on_store_def)

lemma write_and_rename_tail:
  "write_and_rename temp (body_path key) body mb ml =
     io_bind (create_file temp) (\<lambda>i. write_tail key temp i [body, mb, to_be_bytes ml])"
  by (simp add: write_and_rename_def)

lemma making_directory_tail:
  "document_tail E rw key (MakingDirectory doc) =
     io_bind (on_tree (create_dir_all (butlast (body_path key)))) (\<lambda>_.
     io_bind (on_app (on_store (next_temp_path (paths_temp (paths_for key))))) (\<lambda>temp.
     io_bind (io_lift (serialize_meta (env_codec E) (fst doc))) (\<lambda>mb.
     io_bind (io_lift (meta_len_u32 mb)) (\<lambda>ml.
     document_tail E rw key (CreatingTemp temp doc [snd doc, mb, to_be_bytes ml])))))"
  unfolding document_tail.simps store_metadata_def Let_def on_store_bind on_store_lift io_bind_assoc on_tree_def
    guarded_tail_def trim_tail_def write_and_rename_tail by (rule refl)

text \<open>One operation, whose error is the answer or goes through the guard.\<close>

lemma result_answer:
  assumes "or_answer r k = (d, q)" and "m p = r" and "\<And>x p'. r = (Inr x, p') \<Longrightarrow> k x p' = (d, q) \<Longrightarrow>
      document_result E net u ty rw key d q = resolved (rest x p')"
  shows "document_result E net u ty rw key d q = resolved (io_bind m rest p)"
  using assms by (cases "m p"; cases "fst (m p)") (auto simp: or_answer_def io_bind_def io_lift_def)

lemma result_cleaning:
  assumes "or_cleaning temp r k = (d, q)" and "on_tree m p = r" and "\<And>x p'. r = (Inr x, p') \<Longrightarrow> k x p' = (d, q) \<Longrightarrow>
      document_result E net u ty rw key d q = resolved (guarded_tail temp (rest x) doc p')"
  shows "document_result E net u ty rw key d q = resolved (guarded_tail temp (io_bind m rest) doc p)"
proof -
  obtain a res x f where p: "p = (a, res)" and m: "m (st_fs (app_store a)) = (x, f)"
    by (cases p) fastforce
  then show ?thesis
    using assms
    by (cases x) (auto simp: or_cleaning_def guarded_tail_def on_tree_def io_bind_def on_app_def on_store_def on_fs_def
        with_temp_cleanup_def split: prod.splits sum.splits)
qed

lemma result_chunk:
  assumes "step_chunk resp c cs body p = (d, q)"
  shows "document_result E net u ty rw key d q = document_result E net u ty rw key (Collecting resp (c # cs) body) p"
  unfolding document_result.simps document_tail.simps read_metadata_chunks.simps io_bind_assoc
  apply (rule result_answer, rule assms [unfolded step_chunk_def], rule io_lift_apply)
  subgoal for chunk p'
    by (cases "length chunk > unat MAX_METADATA_BODY_LEN - length body")
      (auto simp: io_bind_assoc io_fail_def io_lift_def io_bind_def [of "\<lambda>s. (Inl _, s)"] elim!: result_answer)
  done

lemma result_rewriting:
  assumes "step_rewriting E rw resp body p = (d, q)"
  shows "document_result E net u ty rw key d q = document_result E net u ty rw key (Collecting resp [] body) p"
  unfolding document_result.simps document_tail.simps read_metadata_chunks.simps io_bind_return rewrite_tail_def
  apply (rule result_answer, rule assms [unfolded step_rewriting_def Let_def], rule refl)
  apply (rule result_answer, assumption, rule io_lift_apply)
  subgoal for x p' rewritten p''
    by (auto simp: conclude_metadata_def Let_def io_fail_def io_lift_def io_return_def split: if_splits)
  done

lemma result_directory:
  assumes "step_directory E key doc p = (d, q)"
  shows "document_result E net u ty rw key d q = document_result E net u ty rw key (MakingDirectory doc) p"
  unfolding document_result.simps making_directory_tail
  apply (rule result_answer, rule assms [unfolded step_directory_def], rule refl)
  apply (rule result_answer, assumption, rule refl)
  apply (rule result_answer, assumption, rule io_lift_apply)
  apply (rule result_answer, assumption, rule io_lift_apply)
  apply auto
  done

lemma result_asking:
  assumes "step_asking E net u ty entry a = (d, q)"
  shows "document_result E net u ty rw key d q = do_metadata_fetch E net u ty rw entry key a"
proof -
  let ?entry = "usable_entry entry" and ?b = "snd (count_event (record_metadata_fetch ty) a)"
  let ?request = "(get_request u)\<lparr>ur_headers := conditional_headers ?entry\<rparr>"
  have fetch: "do_metadata_fetch E net u ty rw entry key a =
      resolved (io_bind (io_lift (send_request net ?request)) (\<lambda>resp.
        case (up_status resp = 304, ?entry) of
          (True, Some e) \<Rightarrow> serve_stored e | _ \<Rightarrow> finish_metadata E rw key resp) (?b, None))"
    by (auto simp: do_metadata_fetch_def Let_def count_event_def io_bind_def io_lift_def with_reservation_resolved
        resolved_def split: sum.split)
  have stored: "document_result E net u ty rw key d q = resolved (serve_stored e p)"
    if "or_answer (reserve_more (entry_body_len e) p) (\<lambda>_ p. (ReadingStored e, p)) = (d, q)" for e p
    unfolding serve_stored_def by (rule result_answer, rule that, rule refl) (auto simp: on_tree_def)
  have finish: "document_result E net u ty rw key d q = resolved (finish_metadata E rw key resp p)"
    if "or_answer (limited_initial_capacity (up_content_length resp) MAX_METADATA_BODY_LEN metadata_limit_error, p)
            (\<lambda>initial_capacity p.
          or_answer (reserve_more (case up_content_length resp of None \<Rightarrow> initial_capacity | Some n \<Rightarrow> n) p) (\<lambda>_ p.
          (Collecting resp (up_chunks resp) [], p))) = (d, q)" for resp p
    unfolding finish_metadata_def read_metadata_body_def Let_def io_bind_assoc
    apply (rule result_answer, rule that, rule io_lift_apply)
    apply (rule result_answer, assumption, rule refl)
    apply (auto simp: rewrite_tail_def [abs_def])
    done
  show ?thesis
    unfolding fetch
    apply (rule result_answer, rule assms [unfolded step_asking_def Let_def], rule io_lift_apply)
    subgoal for resp p
      by (cases "up_status resp = 304"; cases ?entry) (simp_all add: stored finish)
    done
qed

lemma document_step_result:
  assumes "document_step E net u ty rw key d p = (d', q)" and "d = LoadingEntry \<Longrightarrow> snd p = None"
  shows "document_result E net u ty rw key d' q = document_result E net u ty rw key d p"
proof (cases d)
  case LoadingEntry
  then show ?thesis
    using assms by (cases p) (auto simp: or_answer_def on_app_def io_bind_def resolved_def io_lift_def split: prod.splits sum.splits)
next
  case (Asking entry)
  then show ?thesis
    using assms(1) result_asking by simp
next
  case (ReadingStored e)
  then show ?thesis
    using assms(1) by (auto intro!: result_answer [OF _ refl] simp: io_lift_def io_return_def)
next
  case (Collecting resp cs body)
  then show ?thesis
    using assms(1) result_chunk result_rewriting by (cases cs) auto
next
  case (MakingDirectory doc)
  then show ?thesis
    using assms(1) result_directory by simp
next
  case (CreatingTemp temp doc parts)
  then show ?thesis
    using assms(1) by (auto intro: result_cleaning [OF _ refl])
next
  case (WritingTemp temp i doc parts)
  then show ?thesis
    using assms(1) by (cases parts) (auto intro: result_cleaning [OF _ refl])
next
  case (FlushingTemp temp i doc)
  then show ?thesis
    using assms(1) by (auto intro: result_cleaning [OF _ refl])
next
  case (Swapping temp doc)
  then have "or_cleaning temp (on_tree (rename_file temp (body_path key)) p) (\<lambda>_ p. (Trimming doc, p)) = (d', q)"
    using assms(1) by simp
  moreover have "trim_tail doc = guarded_tail temp (io_return ()) doc"
    by (rule ext) (simp add: guarded_tail_def with_temp_cleanup_def on_app_def on_store_def on_fs_def io_return_def io_bind_def
        split: prod.split)
  ultimately have "document_result E net u ty rw key d' q =
      resolved (guarded_tail temp (io_bind (rename_file temp (body_path key)) io_return) doc p)"
    by (intro result_cleaning [OF _ refl]) auto
  moreover have "io_bind (rename_file temp (body_path key)) io_return = rename_file temp (body_path key)"
    by (rule ext) (auto simp: io_bind_def io_return_def split: prod.split sum.split)
  ultimately show ?thesis
    using Swapping by simp
next
  case (CleaningTemp temp e)
  then show ?thesis
    using assms(1) by (auto simp: io_lift_def)
next
  case (Trimming doc)
  then show ?thesis
    using assms(1) by (auto simp: trim_tail_def io_lift_def io_return_def intro!: result_answer [OF _ refl])
qed (use assms(1) in auto)

text \<open>How many points are left at most, if no body has more than \<open>k\<close> chunks.\<close>

fun document_points_left :: "nat \<Rightarrow> document_point \<Rightarrow> nat" where
  "document_points_left k LoadingEntry = k + 12"
| "document_points_left k (Asking entry) = k + 11"
| "document_points_left k (ReadingStored e) = 1"
| "document_points_left k (Collecting resp cs body) = length cs + 10"
| "document_points_left k (MakingDirectory doc) = 9"
| "document_points_left k (CreatingTemp temp doc parts) = length parts + 5"
| "document_points_left k (WritingTemp temp i doc parts) = length parts + 4"
| "document_points_left k (FlushingTemp temp i doc) = 3"
| "document_points_left k (Swapping temp doc) = 2"
| "document_points_left k (CleaningTemp temp e) = 1"
| "document_points_left k (Trimming doc) = 1"
| "document_points_left k (Answered r) = 0"

lemma document_points_left_0: "document_points_left k d = 0 \<longleftrightarrow> (\<exists>r. d = Answered r)"
  by (cases d) auto

lemma document_step_left:
  assumes "document_step E net u ty rw key d p = (d', q)" and "document_points_left k d \<noteq> 0"
    and "\<And>request resp. net request = Inr resp \<Longrightarrow> length (up_chunks resp) \<le> k"
  shows "document_points_left k d' < document_points_left k d"
proof (cases d)
  case (Asking entry)
  have "document_points_left k d' < k + 11" if "step_asking E net u ty entry a = (d', q)" for a
    using that assms(3)
    by (auto simp: step_asking_def or_answer_def Let_def send_request_def less_Suc_eq_le
        split: sum.splits prod.splits option.splits bool.splits)
  then show ?thesis
    using assms(1) Asking by simp
next
  case (Collecting resp cs body)
  then show ?thesis
    using assms(1)
    by (cases cs) (auto simp: step_chunk_def step_rewriting_def or_answer_def Let_def split: sum.splits prod.splits if_splits)
next
  case (WritingTemp temp i doc parts)
  then show ?thesis
    using assms(1) by (cases parts) (auto simp: or_cleaning_def split: sum.splits prod.splits)
next
  case (MakingDirectory doc)
  then show ?thesis
    using assms(1) by (auto simp: step_directory_def or_answer_def split: sum.splits prod.splits)
qed (use assms(1,2) in \<open>auto simp: or_answer_def or_cleaning_def split: sum.splits prod.splits\<close>)

lemma document_step_leaves_loading:
  "document_step E net u ty rw key d p = (d', q) \<Longrightarrow> d' \<noteq> LoadingEntry"
  by (cases "(E, net, u, ty, rw, key, d, p)" rule: document_step.cases)
    (auto simp: or_answer_def or_cleaning_def step_asking_def step_chunk_def step_rewriting_def step_directory_def Let_def
      split: sum.splits prod.splits if_splits option.splits bool.splits)

lemma document_steps_end:
  assumes "\<And>request resp. net request = Inr resp \<Longrightarrow> length (up_chunks resp) \<le> k" and "d = LoadingEntry \<Longrightarrow> snd p = None"
  shows "\<exists>n\<le>document_points_left k d. \<exists>r q. document_steps E net u ty rw key n d p = (Answered r, q)
    \<and> resolved (r, q) = document_result E net u ty rw key d p"
  using assms(2)
proof (induction "document_points_left k d" arbitrary: d p rule: less_induct)
  case less
  show ?case
  proof (cases "document_points_left k d = 0")
    case True
    then obtain r where "d = Answered r"
      using document_points_left_0 by blast
    then show ?thesis
      by (intro exI [of _ 0]) (simp add: io_lift_def)
  next
    case False
    obtain d' q where step: "document_step E net u ty rw key d p = (d', q)"
      by (rule prod.exhaust)
    have lt: "document_points_left k d' < document_points_left k d"
      using assms(1) by (rule document_step_left [OF step False])
    obtain n r q' where "n \<le> document_points_left k d'" "document_steps E net u ty rw key n d' q = (Answered r, q')"
      "resolved (r, q') = document_result E net u ty rw key d' q"
      using less.hyps [OF lt] document_step_leaves_loading [OF step] by blast
    then show ?thesis
      using step lt document_step_result [OF step less.prems] by (intro exI [of _ "Suc n"]) auto
  qed
qed

text \<open>
  Cutting a fetch of a document at its await points changes nothing.  Advanced from point to point, it
  is answered after at most as many points as its body has chunks and twelve others, with the result, the
  memory it still holds and the state that the fetch has as one step.
\<close>

lemma document_await_by_await:
  assumes "\<And>request resp. net request = Inr resp \<Longrightarrow> length (up_chunks resp) \<le> k"
    and "metadata_fetch_phase E net u ty rw leader a = (r, b)"
  shows "\<exists>n\<le>k + 12. \<exists>answer q.
    document_steps E net u ty rw (ml_key leader) n LoadingEntry (a, None) = (Answered answer, q) \<and> resolved (answer, q) = (r, b)"
proof -
  have "document_result E net u ty rw (ml_key leader) LoadingEntry (a, None) = (r, b)"
    using assms(2) by (simp add: metadata_fetch_phase_def)
  moreover obtain n answer q where "n \<le> document_points_left k LoadingEntry"
    "document_steps E net u ty rw (ml_key leader) n LoadingEntry (a, None) = (Answered answer, q)"
    "resolved (answer, q) = document_result E net u ty rw (ml_key leader) LoadingEntry (a, None)"
    using document_steps_end [of net k LoadingEntry "(a, None)" E u ty rw "ml_key leader"] assms(1) by auto
  ultimately show ?thesis
    by (intro exI [of _ n]) auto
qed

section \<open>Dropping a fetch\<close>

subsection \<open>Accounts\<close>

text \<open>The table, the publications and the memory: what the function holds comes out of what was there.\<close>

definition account :: "published_entry multiset \<Rightarrow> app \<Rightarrow> holding_app \<Rightarrow> bool" where
  "account P a p \<longleftrightarrow> app_table (fst p) = app_table a \<and> budget p = memory a \<and> pair_pins P p"

lemma account_keeps:
  assumes "still budget m" and "still pair_table m" and "keeps (pair_pins P) m"
  shows "keeps (account P a) m"
proof (rule keepsI)
  fix p assume "account P a p"
  then show "account P a (snd (m p))"
    using stillD [OF assms(1), of p "fst (m p)" "snd (m p)"] stillD [OF assms(2), of p "fst (m p)" "snd (m p)"]
      keepsD [OF assms(3), of p]
    by (simp add: account_def)
qed

lemma account_reserve: "keeps (account P a) (reserve_more n)"
  by (rule account_keeps) (simp_all add: pair_pins_reserve)

lemma account_store:
  "still tables m \<Longrightarrow> keeps (pins_ok P) m \<Longrightarrow> keeps (account P a) (on_app (on_store m))"
  by (rule account_keeps) (auto intro: still_budget_stored still_pair_app still_app_store pair_pins_on_app pins_ok_on_store)

lemma account_tree: "keeps (account P a) (on_tree m)"
  unfolding on_tree_def by (intro account_store still_on_fs pins_ok_files)

lemma account_temp_path: "keeps (account P a) (on_app (on_store (next_temp_path p)))"
  by (intro account_store still_next_temp_path) (simp add: keeps_def next_temp_path_def)

subsection \<open>Files\<close>

definition tree :: "store \<Rightarrow> (path \<Rightarrow> tnode option) \<times> bool \<times> (string \<Rightarrow> bool) \<times> u64" where
  "tree s = (view (st_fs s), wf_fs (st_fs s), live_pin s, st_temp_counter s)"

lemma still_tree_read: "read_only m \<Longrightarrow> still tree (on_fs m)"
proof (rule stillI)
  fix s :: store assume m: "read_only m"
  obtain r f where run: "m (st_fs s) = (r, f)"
    by force
  have "view f = view (st_fs s)" "wf_fs f = wf_fs (st_fs s)"
    by (rule faults_same(1,2) [OF read_onlyD [OF m run]])+
  then show "tree (snd (on_fs m s)) = tree s"
    using run by (simp add: tree_def on_fs_def)
qed

lemma still_tree_load: "still tree (load C key)"
  unfolding load_def
  by (intro still_try still_tree_read read_only_reads)
    (auto intro!: still_try still_tree_read read_only_footer split: sum.split)

lemma read_only_body: "read_only (read_body e)"
  unfolding read_body_def by (auto intro!: read_only_bind)

abbreviation held_tree :: "holding_app \<Rightarrow> (path \<Rightarrow> tnode option) \<times> bool \<times> (string \<Rightarrow> bool) \<times> u64" where
  "held_tree p \<equiv> tree (app_store (fst p))"

lemma still_tree_store: "still tree m \<Longrightarrow> still held_tree (on_app (on_store m))"
  by (rule stillI) (auto simp: still_def io_simps on_app_def split: prod.split)

lemma live_pin_same: "st_pins t = st_pins s \<Longrightarrow> st_pin_refs t = st_pin_refs s \<Longrightarrow> live_pin t = live_pin s"
  by (simp add: live_pin_def fun_eq_iff cong: option.case_cong)

lemma still_tree_reserve: "still held_tree (reserve_more n)"
  by (rule stillI) (auto simp: reserve_more_def reserve_unfold tree_def intro: live_pin_same split: prod.split)

text \<open>Beside the entry: the shard directory may have been made, and the temp file is the fetch's own.\<close>

definition aside :: "string \<Rightarrow> store \<Rightarrow> store \<Rightarrow> bool" where
  "aside key s t \<longleftrightarrow>
     wf_fs (st_fs t) \<and> live_pin t = live_pin s
     \<and> (\<forall>p. p \<notin> {shard_path key, metadata_temp_path s key} \<longrightarrow> view (st_fs t) p = view (st_fs s) p)
     \<and> (view (st_fs t) (metadata_temp_path s key) = Some Dir \<longleftrightarrow> view (st_fs s) (metadata_temp_path s key) = Some Dir)"

definition packs :: "meta_codec \<Rightarrow> document \<Rightarrow> bytes \<Rightarrow> bool" where
  "packs C doc bs \<longleftrightarrow> pack_footer C (snd doc) (fst doc) = Inr bs"

text \<open>The entry is the old one, or evicted, or that of a document, complete.\<close>

definition kept :: "meta_codec \<Rightarrow> string \<Rightarrow> store \<Rightarrow> store \<Rightarrow> bool" where
  "kept C key s t \<longleftrightarrow>
     (\<forall>packed. store_effect s key packed t) \<or> (\<exists>doc packed. packs C doc packed \<and> store_effect s key packed t)"

fun document_tree :: "meta_codec \<Rightarrow> string \<Rightarrow> store \<Rightarrow> document_point \<Rightarrow> store \<Rightarrow> bool" where
  "document_tree C key s (CreatingTemp temp doc parts) t =
     (temp = metadata_temp_path s key \<and> aside key s t \<and> packs C doc (concat parts))"
| "document_tree C key s (WritingTemp temp i doc parts) t =
     (temp = metadata_temp_path s key \<and> aside key s t
      \<and> (\<exists>bs. writing temp i bs (st_fs t) \<and> packs C doc (bs @ concat parts)))"
| "document_tree C key s (FlushingTemp temp i doc) t =
     (temp = metadata_temp_path s key \<and> aside key s t \<and> (\<exists>bs. writing temp i bs (st_fs t) \<and> packs C doc bs))"
| "document_tree C key s (Swapping temp doc) t =
     (temp = metadata_temp_path s key \<and> aside key s t
      \<and> (\<exists>bs. view (st_fs t) temp = Some (File bs) \<and> packs C doc bs))"
| "document_tree C key s (CleaningTemp temp e) t = (temp = metadata_temp_path s key \<and> aside key s t)"
| "document_tree C key s (Trimming doc) t =
     (view (st_fs t) (metadata_temp_path s key) = None \<and> (\<exists>packed. packs C doc packed \<and> store_effect s key packed t))"
| "document_tree C key s (Answered (Inl e)) t = kept C key s t"
| "document_tree C key s (Answered (Inr doc)) t =
     (kept C key s t
      \<and> (view (st_fs s) (metadata_temp_path s key) = None \<longrightarrow> view (st_fs t) (metadata_temp_path s key) = None))"
| "document_tree C key s d t = (tree t = tree s)"

lemma document_names:
  assumes "key_ok key"
  shows "metadata_temp_path s key \<noteq> body_path key" "metadata_temp_path s key \<noteq> []" "body_path key \<noteq> []"
    "body_path key \<noteq> shard_path key" "metadata_temp_path s key \<noteq> shard_path key"
  using temp_neq_body [OF assms] by (simp_all add: temp_path_eq body_path_eq)

lemma aside_refl: "wf_fs (st_fs s) \<Longrightarrow> tree t = tree s \<Longrightarrow> aside key s t"
  by (simp add: aside_def tree_def)

lemma aside_changes:
  assumes "aside key s t" and "changes_at (metadata_temp_path s key) (st_fs t) (st_fs u)" and "live_pin u = live_pin t"
  shows "aside key s u"
  using assms by (auto simp: aside_def changes_at_def)

lemma aside_kept:
  assumes "key_ok key" and "aside key s t"
  shows "kept C key s t"
proof -
  have neq: "body_path key \<notin> {shard_path key, metadata_temp_path s key}"
    using document_names [OF assms(1)] by (metis insert_iff singletonD)
  have same: "wf_fs (st_fs t)" "live_pin t = live_pin s"
    "\<forall>p. p \<notin> {shard_path key, metadata_temp_path s key} \<longrightarrow> view (st_fs t) p = view (st_fs s) p"
    using assms(2) unfolding aside_def by blast+
  have "store_effect s key packed t" for packed
    using same neq by (intro store_effect_fs [of "st_fs t"]) simp_all
  then show ?thesis
    by (simp add: kept_def)
qed

lemma kept_evict: "kept C key s t \<Longrightarrow> kept C key s (snd (evict_files_to_bound t))"
  unfolding kept_def using store_effect_evict by blast

subsection \<open>Every point is sound\<close>

text \<open>Nothing is reserved before the request is answered.\<close>

fun unanswered :: "document_point \<Rightarrow> bool" where
  "unanswered LoadingEntry = True"
| "unanswered (Asking entry) = True"
| "unanswered d = False"

definition sound ::
  "meta_codec \<Rightarrow> published_entry multiset \<Rightarrow> string \<Rightarrow> app \<Rightarrow> document_point \<Rightarrow> holding_app \<Rightarrow> bool" where
  "sound C P key a d p \<longleftrightarrow>
     account P a p \<and> document_tree C key (app_store a) d (app_store (fst p)) \<and> (unanswered d \<longrightarrow> snd p = None)"

text \<open>An operation before the guard is armed leaves the tree; a failure of it is the answer.\<close>

lemma sound_quiet:
  assumes "or_answer r k = (d, q)" and "m p = r" and "key_ok key" and "wf_fs (app_files a)"
    and "account P a p" and "held_tree p = tree (app_store a)" and "keeps (account P a) m" and "still held_tree m"
    and "\<And>x p'. r = (Inr x, p') \<Longrightarrow> account P a p' \<Longrightarrow> held_tree p' = tree (app_store a) \<Longrightarrow> k x p' = (d, q) \<Longrightarrow>
      sound C P key a d q"
  shows "sound C P key a d q"
proof -
  obtain x p' where run: "r = (x, p')"
    by (rule prod.exhaust)
  have p': "account P a p'" "held_tree p' = tree (app_store a)"
    using keepsD [OF assms(7,5)] stillD [OF assms(8), of p x p'] assms(2,6) run by auto
  show ?thesis
  proof (cases x)
    case (Inl e)
    then have "d = Answered (Inl e)" "q = p'"
      using assms(1) run by (simp_all add: or_answer_def)
    then show ?thesis
      using p' aside_kept [OF assms(3) aside_refl [OF assms(4) p'(2)]] by (simp add: sound_def)
  next
    case (Inr y)
    then show ?thesis
      using assms(1,9) run p' by (simp add: or_answer_def)
  qed
qed

text \<open>An operation on the temp file, whose failure goes to the guard.\<close>

lemma sound_files:
  assumes "or_cleaning temp (on_tree m p) k = (d, q)" and "temp = metadata_temp_path (app_store a) key"
    and "account P a p" and "aside key (app_store a) (app_store (fst p))"
    and "\<And>r f. m (app_files (fst p)) = (r, f) \<Longrightarrow> changes_at temp (app_files (fst p)) f"
    and "\<And>x p'. m (app_files (fst p)) = (Inr x, app_files (fst p')) \<Longrightarrow> account P a p' \<Longrightarrow>
      aside key (app_store a) (app_store (fst p')) \<Longrightarrow> k x p' = (d, q) \<Longrightarrow> sound C P key a d q"
  shows "sound C P key a d q"
proof -
  obtain x p' where run: "on_tree m p = (x, p')"
    by (rule prod.exhaust)
  then have m: "m (app_files (fst p)) = (x, app_files (fst p'))" "live_pin (app_store (fst p')) = live_pin (app_store (fst p))"
    by (cases p; auto simp: on_tree_def io_simps intro: live_pin_same)+
  have p': "account P a p'"
    using keepsD [OF account_tree assms(3), of m] run by simp
  have side: "aside key (app_store a) (app_store (fst p'))"
    using aside_changes [OF assms(4)] assms(5) [OF m(1)] m(2) assms(2) by blast
  show ?thesis
  proof (cases x)
    case (Inl e)
    then show ?thesis
      using assms(1,2) run p' side by (auto simp: or_cleaning_def sound_def)
  next
    case (Inr y)
    then show ?thesis
      using assms(1,6) run m(1) p' side by (simp add: or_cleaning_def)
  qed
qed

lemma sound_loading:
  assumes "sound C P key a LoadingEntry p" and "key_ok key" and "wf_fs (app_files a)" and "C = env_codec E"
    and "document_step E net u ty rw key LoadingEntry p = (d, q)"
  shows "sound C P key a d q"
proof (rule sound_quiet [where m = "on_app (on_store (load (env_codec E) key))",
      OF assms(5) [unfolded document_step.simps] refl assms(2,3)])
  fix entry p'
  assume "on_app (on_store (load (env_codec E) key)) p = (Inr entry, p')" "account P a p'"
    "held_tree p' = tree (app_store a)" "(Asking entry, p') = (d, q)"
  then show "sound C P key a d q"
    using assms(1) by (cases p) (auto simp: sound_def io_simps)
qed (use assms(1) in \<open>auto simp: sound_def intro: account_store pins_ok_load still_tree_store still_tree_load\<close>)

lemma sound_lift:
  assumes "or_answer (r, p) k = (d, q)" and "key_ok key" and "wf_fs (app_files a)"
    and "account P a p" and "held_tree p = tree (app_store a)"
    and "\<And>x. r = Inr x \<Longrightarrow> k x p = (d, q) \<Longrightarrow> sound C P key a d q"
  shows "sound C P key a d q"
proof (rule sound_quiet [where m = "io_lift r", OF assms(1) io_lift_apply assms(2-5)])
  fix x p'
  assume "(r, p) = (Inr x, p')" and "k x p' = (d, q)"
  then show "sound C P key a d q"
    using assms(6) by simp
qed simp_all

lemma sound_answered:
  assumes "account P a p" and "held_tree p = tree (app_store a)" and "key_ok key" and "wf_fs (app_files a)"
  shows "sound C P key a (Answered r) p"
proof -
  have "kept C key (app_store a) (app_store (fst p))"
    by (rule aside_kept [OF assms(3) aside_refl [OF assms(4,2)]])
  moreover have "view (app_files (fst p)) = view (app_files a)"
    using assms(2) by (simp add: tree_def)
  ultimately show ?thesis
    using assms(1) by (cases r) (simp_all add: sound_def)
qed

lemma sound_points:
  assumes "account P a p" and "held_tree p = tree (app_store a)"
  shows "sound C P key a (ReadingStored e) p" and "sound C P key a (Collecting resp cs body) p"
    and "sound C P key a (MakingDirectory doc) p"
  using assms by (simp_all add: sound_def)

lemma sound_reserve:
  assumes "or_answer (reserve_more n p) k = (d, q)" and "key_ok key" and "wf_fs (app_files a)"
    and "account P a p" and "held_tree p = tree (app_store a)"
    and "\<And>x p'. account P a p' \<Longrightarrow> held_tree p' = tree (app_store a) \<Longrightarrow> k x p' = (d, q) \<Longrightarrow> sound C P key a d q"
  shows "sound C P key a d q"
  by (rule sound_quiet [where m = "reserve_more n", OF assms(1) refl assms(2-5) account_reserve still_tree_reserve])
    (rule assms(6))

lemma sound_asking:
  assumes "sound C P key a (Asking entry0) p" and "key_ok key" and "wf_fs (app_files a)"
    and "step_asking E net u ty entry0 (fst p) = (d, q)"
  shows "sound C P key a d q"
proof -
  let ?b = "snd (count_event (record_metadata_fetch ty) (fst p))"
  have p: "account P a (fst p, None)" "held_tree p = tree (app_store a)"
    using assms(1) by (cases p; simp add: sound_def)+
  have b: "account P a (?b, None)" "held_tree (?b, None) = tree (app_store a)"
    using p by (simp_all add: account_def count_event_def budget_def app_table_def)
  show ?thesis
  proof (rule sound_lift [OF assms(4) [unfolded step_asking_def Let_def] assms(2,3) b], goal_cases)
    case (1 resp)
    have read: "sound C P key a d q"
      if "or_answer (limited_initial_capacity (up_content_length resp) MAX_METADATA_BODY_LEN metadata_limit_error, (?b, None))
            (\<lambda>initial_capacity p.
          or_answer (reserve_more (case up_content_length resp of None \<Rightarrow> initial_capacity | Some n \<Rightarrow> n) p) (\<lambda>_ p.
          (Collecting resp (up_chunks resp) [], p))) = (d, q)"
      by (rule sound_lift [OF that assms(2,3) b], rule sound_reserve [OF _ assms(2,3) b], assumption) (auto intro: sound_points)
    have stored: "sound C P key a d q"
      if "or_answer (reserve_more (entry_body_len e) (?b, None)) (\<lambda>_ p. (ReadingStored e, p)) = (d, q)" for e
      by (rule sound_reserve [OF that assms(2,3) b]) (auto intro: sound_points)
    show ?case
      using 1(2) read stored by (cases "up_status resp = 304"; cases "usable_entry entry0") simp_all
  qed
qed

lemma sound_chunk:
  assumes "account P a p" and "held_tree p = tree (app_store a)" and "key_ok key" and "wf_fs (app_files a)"
    and "step_chunk resp c cs body p = (d, q)"
  shows "sound C P key a d q"
proof (rule sound_lift [OF assms(5) [unfolded step_chunk_def] assms(3,4,1,2)], goal_cases)
  case (1 chunk)
  show ?case
  proof (cases "length chunk > unat MAX_METADATA_BODY_LEN - length body")
    case True
    then show ?thesis
      using 1(2) sound_answered [OF assms(1-4)] by auto
  next
    case False
    then have "or_answer (reserve_more (of_nat (length body + length chunk)) p)
        (\<lambda>_ p. (Collecting resp cs (body @ chunk), p)) = (d, q)"
      using 1(2) by simp
    then show ?thesis
      by (rule sound_reserve [OF _ assms(3,4,1,2)]) (auto intro: sound_points)
  qed
qed

lemma sound_rewriting:
  assumes "account P a p" and "held_tree p = tree (app_store a)" and "key_ok key" and "wf_fs (app_files a)"
    and "step_rewriting E rw resp body p = (d, q)"
  shows "sound C P key a d q"
proof (rule sound_reserve [OF assms(5) [unfolded step_rewriting_def Let_def] assms(3,4,1,2)], goal_cases)
  case (1 x p')
  note answer = sound_answered [OF 1(1,2) assms(3,4), of C] and point = sound_points [OF 1(1,2), of C key]
  show ?case
  proof (rule sound_lift [OF 1(3) assms(3,4) 1(1,2)], goal_cases)
    case (1 rewritten)
    then show ?case
      using answer point(3) by (cases "134217728 < length rewritten") (auto split: if_splits)
  qed
qed

lemma serialized_packs:
  assumes "serialize_meta C (fst doc) = Inr mb" and "meta_len_u32 mb = Inr ml"
  shows "packs C doc (concat [snd doc, mb, to_be_bytes ml])"
  using assms by (auto simp: packs_def format_defs split: sum.splits if_splits)

lemma sound_directory:
  assumes "sound C P key a (MakingDirectory doc) p" and "key_ok key" and "wf_fs (app_files a)" and "C = env_codec E"
    and "step_directory E key doc p = (d, q)"
  shows "sound C P key a d q"
proof -
  obtain r p1 where mk: "on_tree (create_dir_all (butlast (body_path key))) p = (r, p1)"
    by (rule prod.exhaust)
  have p: "account P a p" "held_tree p = tree (app_store a)"
    using assms(1) by (simp_all add: sound_def)
  have acc: "account P a p1"
    using keepsD [OF account_tree p(1)] mk by (metis snd_conv)
  have live: "live_pin (app_store (fst p1)) = live_pin (app_store a)"
    "st_temp_counter (app_store (fst p1)) = st_temp_counter (app_store a)"
    using mk p(2) by (cases p; auto simp: on_tree_def io_simps tree_def live_pin_def fun_eq_iff cong: option.case_cong)+
  have wf: "wf_fs (app_files (fst p))" "view (app_files (fst p)) = view (app_files a)"
    using p(2) assms(3) by (simp_all add: tree_def)
  have run: "create_dir_all (shard_path key) (app_files (fst p)) = (r, app_files (fst p1))"
    using mk by (cases p) (auto simp: on_tree_def io_simps butlast_body_path)
  note made = create_dir_all_view [OF wf(1) run]
  show ?thesis
  proof (cases r)
    case (Inl e)
    then have "held_tree p1 = tree (app_store a)"
      using made live wf assms(3) by (simp add: tree_def)
    then show ?thesis
      using assms(5) mk Inl sound_answered [OF acc _ assms(2,3)] by (auto simp: step_directory_def or_answer_def)
  next
    case (Inr x)
    have side: "aside key (app_store a) (app_store (fst p1))"
    proof -
      have "\<forall>p. p \<noteq> shard_path key \<longrightarrow> view (app_files (fst p1)) p = view (app_files a) p"
        using made wf(2) by auto
      then show ?thesis
        using made live(1) document_names(5) [OF assms(2)] unfolding aside_def by (metis insertI1)
    qed
    have counter: "live_pin (t\<lparr>st_temp_counter := n\<rparr>) = live_pin t" for t n
      by (rule live_pin_same) simp_all
    obtain p2 where next_path: "on_app (on_store (next_temp_path (paths_temp (paths_for key)))) p1
        = (Inr (metadata_temp_path (app_store a) key), p2)"
      and p2: "app_files (fst p2) = app_files (fst p1)" "live_pin (app_store (fst p2)) = live_pin (app_store (fst p1))"
      using live by (cases p1) (auto simp: io_simps next_temp_path_def counter)
    have acc2: "account P a p2"
      using keepsD [OF account_temp_path acc] next_path by (metis snd_conv)
    have side2: "aside key (app_store a) (app_store (fst p2))"
      using side p2 by (simp add: aside_def)
    show ?thesis
      using assms(5) mk Inr next_path acc2 side2 aside_kept [OF assms(2) side2] serialized_packs [of C doc] assms(4)
      by (auto simp: step_directory_def or_answer_def sound_def split: sum.splits)
  qed
qed

lemma sound_creating:
  assumes "sound C P key a (CreatingTemp temp doc parts) p" and "key_ok key"
    and "document_step E net u ty rw key (CreatingTemp temp doc parts) p = (d, q)"
  shows "sound C P key a d q"
proof -
  have p: "account P a p" "aside key (app_store a) (app_store (fst p))" "temp = metadata_temp_path (app_store a) key"
    "packs C doc (concat parts)"
    using assms(1) by (simp_all add: sound_def)
  then have "wf_fs (app_files (fst p))" "temp \<noteq> []"
    using document_names(2) [OF assms(2)] by (simp_all add: aside_def)
  note create = create_file_view [OF this]
  show ?thesis
    by (rule sound_files [OF assms(3) [unfolded document_step.simps] p(3,1,2)])
      (use create p in \<open>fastforce simp: sound_def\<close>)+
qed

lemma sound_writing:
  assumes "sound C P key a (WritingTemp temp i doc parts) p"
    and "document_step E net u ty rw key (WritingTemp temp i doc parts) p = (d, q)"
  shows "sound C P key a d q"
proof -
  obtain bs where p: "account P a p" "aside key (app_store a) (app_store (fst p))" "temp = metadata_temp_path (app_store a) key"
    "writing temp i bs (app_files (fst p))" "packs C doc (bs @ concat parts)"
    using assms(1) by (auto simp: sound_def)
  show ?thesis
  proof (cases parts)
    case Nil
    then show ?thesis
      using assms(2) p by (auto simp: sound_def)
  next
    case (Cons new rest)
    note writes = write_all_view [OF p(4), of new]
    show ?thesis
    proof (rule sound_files [OF assms(2) [unfolded Cons document_step.simps] p(3,1,2)])
      show "changes_at temp (app_files (fst p)) f" if "write_all i new (app_files (fst p)) = (r, f)" for r f
        using writes [OF that] by blast
    next
      fix x p'
      assume run: "write_all i new (app_files (fst p)) = (Inr x, app_files (fst p'))" and "account P a p'"
        "aside key (app_store a) (app_store (fst p'))" "(WritingTemp temp i doc rest, p') = (d, q)"
      moreover have "writing temp i (bs @ new) (app_files (fst p'))"
        using writes [OF run] by simp
      ultimately show "sound C P key a d q"
        using p(3,5) Cons by (auto simp: sound_def intro!: exI [of _ "bs @ new"])
    qed
  qed
qed

lemma sound_flushing:
  assumes "sound C P key a (FlushingTemp temp i doc) p"
    and "document_step E net u ty rw key (FlushingTemp temp i doc) p = (d, q)"
  shows "sound C P key a d q"
proof -
  obtain bs where p: "account P a p" "aside key (app_store a) (app_store (fst p))" "temp = metadata_temp_path (app_store a) key"
    "writing temp i bs (app_files (fst p))" "packs C doc bs"
    using assms(1) by (auto simp: sound_def)
  note flush = flush_file_view [OF p(4)]
  show ?thesis
    by (rule sound_files [OF assms(2) [unfolded document_step.simps] p(3,1,2)])
      (use flush p in \<open>fastforce simp: sound_def\<close>)+
qed

text \<open>The rename publishes; if it fails, nothing has changed.\<close>

lemma sound_swapping:
  assumes "sound C P key a (Swapping temp doc) p" and "key_ok key"
    and "document_step E net u ty rw key (Swapping temp doc) p = (d, q)"
  shows "sound C P key a d q"
proof -
  obtain bs where p: "account P a p" "aside key (app_store a) (app_store (fst p))" "temp = metadata_temp_path (app_store a) key"
    "view (app_files (fst p)) temp = Some (File bs)" "packs C doc bs"
    using assms(1) by (auto simp: sound_def)
  have wf: "wf_fs (app_files (fst p))"
    using p(2) by (simp add: aside_def)
  have neq: "temp \<noteq> body_path key" "temp \<noteq> []" "body_path key \<noteq> []" "temp \<noteq> shard_path key"
    "body_path key \<noteq> shard_path key"
    using document_names [OF assms(2)] p(3) by metis+
  obtain r p' where run: "on_tree (rename_file temp (body_path key)) p = (r, p')"
    by (rule prod.exhaust)
  have m: "rename_file temp (body_path key) (app_files (fst p)) = (r, app_files (fst p'))"
    "live_pin (app_store (fst p')) = live_pin (app_store (fst p))"
    using run by (cases p; auto simp: on_tree_def io_simps intro: live_pin_same)+
  have acc: "account P a p'"
    using keepsD [OF account_tree p(1)] run by (metis snd_conv)
  note swap = rename_file_view [OF wf p(4) neq(1-3) m(1)]
  show ?thesis
  proof (cases r)
    case (Inl e)
    then have "aside key (app_store a) (app_store (fst p'))"
      using swap p(2) m(2) by (simp add: aside_def)
    then show ?thesis
      using assms(3) run Inl acc p(3) by (auto simp: or_cleaning_def sound_def)
  next
    case (Inr x)
    have other: "view (app_files (fst p')) k = view (app_files a) k"
      if "k \<notin> {body_path key, shard_path key, temp}" for k
      using that swap Inr p(2,3) by (simp add: aside_def)
    have "store_effect (app_store a) key bs (app_store (fst p'))"
      using swap Inr p(2,3) m(2) other by (intro store_effect_fs [of "app_files (fst p')"]) (auto simp: aside_def)
    moreover have "view (app_files (fst p')) temp = None"
      using swap Inr neq(1) by simp
    ultimately show ?thesis
      using assms(3) run Inr acc p(3,5) by (auto simp: or_cleaning_def sound_def)
  qed
qed

lemma sound_cleaning:
  assumes "sound C P key a (CleaningTemp temp e) p" and "key_ok key"
    and "document_step E net u ty rw key (CleaningTemp temp e) p = (d, q)"
  shows "sound C P key a d q"
proof -
  have p: "account P a p" "aside key (app_store a) (app_store (fst p))" "temp = metadata_temp_path (app_store a) key"
    using assms(1) by (simp_all add: sound_def)
  then have wf: "wf_fs (app_files (fst p))" "temp \<noteq> []"
    using document_names(2) [OF assms(2)] by (simp_all add: aside_def)
  have q: "d = Answered (Inl e)" "q = snd (on_tree (remove_file temp) p)"
    using assms(3) by simp_all
  have "aside key (app_store a) (app_store (fst q))"
    using aside_changes [OF p(2), of "app_store (fst q)"] remove_file_changes [OF wf] p(3) unfolding q
    by (cases p) (auto simp: on_tree_def io_simps intro: live_pin_same)
  moreover have "account P a q"
    unfolding q by (rule keepsD [OF account_tree p(1)])
  ultimately show ?thesis
    using q(1) aside_kept [OF assms(2)] by (simp add: sound_def)
qed

lemma sound_trimming:
  assumes "sound C P key a (Trimming doc) p"
    and "document_step E net u ty rw key (Trimming doc) p = (d, q)"
  shows "sound C P key a d q"
proof -
  obtain packed where p: "account P a p" "view (app_files (fst p)) (metadata_temp_path (app_store a) key) = None"
    "packs C doc packed" "store_effect (app_store a) key packed (app_store (fst p))"
    using assms(1) by (auto simp: sound_def)
  obtain r p' where run: "on_app (on_store evict_files_to_bound) p = (r, p')"
    by (rule prod.exhaust)
  then have t: "app_store (fst p') = snd (evict_files_to_bound (app_store (fst p)))"
    by (cases p) (auto simp: io_simps)
  have "keeps (account P a) (on_app (on_store evict_files_to_bound))"
    by (intro account_store still_evict pins_ok_evict)
  then have acc: "account P a p'"
    using keepsD p(1) run by (metis snd_conv)
  have "view (app_files (fst p')) (metadata_temp_path (app_store a) key) = None"
    using only_evicts_view [OF evict_only_unpinned [of "app_store (fst p)"]] p(2) unfolding t by metis
  moreover have "kept C key (app_store a) (app_store (fst p'))"
    using store_effect_evict [OF p(4)] p(3) unfolding kept_def t by blast
  ultimately show ?thesis
    using assms(2) run acc by (cases r) (auto simp: or_answer_def sound_def)
qed

lemma sound_step:
  assumes "sound (env_codec E) P key a d p" and "key_ok key" and "wf_fs (app_files a)"
    and "document_step E net u ty rw key d p = (d', q)"
  shows "sound (env_codec E) P key a d' q"
proof (cases d)
  case LoadingEntry
  show ?thesis
    by (rule sound_loading [OF assms(1) [unfolded LoadingEntry] assms(2,3) refl assms(4) [unfolded LoadingEntry]])
next
  case (Asking entry)
  show ?thesis
    by (rule sound_asking [OF assms(1) [unfolded Asking] assms(2,3) assms(4) [unfolded Asking document_step.simps]])
next
  case (ReadingStored e)
  then have p: "account P a p" "held_tree p = tree (app_store a)"
    using assms(1) by (simp_all add: sound_def)
  have still: "still held_tree (on_tree (read_body e))"
    unfolding on_tree_def by (intro still_tree_store still_tree_read read_only_body)
  show ?thesis
    by (rule sound_quiet [OF assms(4) [unfolded ReadingStored document_step.simps] refl assms(2,3) p account_tree still])
      (auto intro: sound_answered [OF _ _ assms(2,3)])
next
  case (Collecting resp cs body)
  then have p: "account P a p" "held_tree p = tree (app_store a)"
    using assms(1) by (simp_all add: sound_def)
  then show ?thesis
    using assms(4) Collecting sound_chunk [OF p assms(2,3)] sound_rewriting [OF p assms(2,3)] by (cases cs) auto
next
  case (MakingDirectory doc)
  show ?thesis
    by (rule sound_directory [OF assms(1) [unfolded MakingDirectory] assms(2,3) refl
        assms(4) [unfolded MakingDirectory document_step.simps]])
next
  case (CreatingTemp temp doc parts)
  show ?thesis
    by (rule sound_creating [OF assms(1) [unfolded CreatingTemp] assms(2) assms(4) [unfolded CreatingTemp]])
next
  case (WritingTemp temp i doc parts)
  show ?thesis
    by (rule sound_writing [OF assms(1) [unfolded WritingTemp] assms(4) [unfolded WritingTemp]])
next
  case (FlushingTemp temp i doc)
  show ?thesis
    by (rule sound_flushing [OF assms(1) [unfolded FlushingTemp] assms(4) [unfolded FlushingTemp]])
next
  case (Swapping temp doc)
  show ?thesis
    by (rule sound_swapping [OF assms(1) [unfolded Swapping] assms(2) assms(4) [unfolded Swapping]])
next
  case (CleaningTemp temp e)
  show ?thesis
    by (rule sound_cleaning [OF assms(1) [unfolded CleaningTemp] assms(2) assms(4) [unfolded CleaningTemp]])
next
  case (Trimming doc)
  show ?thesis
    by (rule sound_trimming [OF assms(1) [unfolded Trimming] assms(4) [unfolded Trimming]])
next
  case (Answered r)
  then show ?thesis
    using assms(1,4) by simp
qed

lemma sound_steps:
  assumes "sound (env_codec E) P key a d p" and "key_ok key" and "wf_fs (app_files a)"
    and "document_steps E net u ty rw key n d p = (d', q)"
  shows "sound (env_codec E) P key a d' q"
  using assms
proof (induction n arbitrary: d p)
  case (Suc n)
  obtain d1 p1 where one: "document_step E net u ty rw key d p = (d1, p1)"
    by (rule prod.exhaust)
  then show ?case
    using Suc.IH [OF sound_step [OF Suc.prems(1-3) one] Suc.prems(2,3)] Suc.prems(4) by simp
qed simp

subsection \<open>The drop\<close>

lemma armed_tree:
  assumes "document_tree C key s d t" and "armed_temp d = Some temp"
  shows "temp = metadata_temp_path s key" and "aside key s t"
  using assms by (cases d; simp)+

lemma unarmed_tree:
  assumes "document_tree C key s d t" and "armed_temp d = None" and "key_ok key" and "wf_fs (st_fs s)"
  shows "kept C key s t"
    and "view (st_fs s) (metadata_temp_path s key) = None \<Longrightarrow> (\<forall>e. d \<noteq> Answered (Inl e)) \<Longrightarrow>
      view (st_fs t) (metadata_temp_path s key) = None"
proof -
  show "kept C key s t"
  proof (cases d)
    case (Trimming doc)
    then show ?thesis
      using assms(1) [unfolded Trimming document_tree.simps] unfolding kept_def by blast
  next
    case (Answered r)
    then show ?thesis
      using assms(1) by (cases r) auto
  qed (use assms aside_kept [OF assms(3) aside_refl [OF assms(4)]] in auto)
  show "view (st_fs t) (metadata_temp_path s key) = None"
    if "view (st_fs s) (metadata_temp_path s key) = None" "\<forall>e. d \<noteq> Answered (Inl e)"
  proof (cases d)
    case (Answered r)
    then show ?thesis
      using assms(1) that by (cases r) auto
  qed (use assms(1,2) that in \<open>auto simp: tree_def\<close>)
qed

text \<open>The same when an operation that has begun is finished first.\<close>

lemma begun_aside:
  assumes "document_tree C key s d t" and "armed_temp d = Some temp" and "key_ok key" and "\<And>doc. d \<noteq> Swapping temp doc"
  shows "changes_at temp (st_fs t) (begun_document key d (st_fs t))"
proof -
  let ?f = "st_fs t"
  have wf: "wf_fs ?f" "temp \<noteq> []"
    using armed_tree [OF assms(1,2)] document_names(2) [OF assms(3)] by (simp_all add: aside_def)
  have writes: "changes_at temp ?f (snd (write_all i new ?f))" if "writing temp i bs ?f" for i new bs
    using that write_all_view by (metis prod.collapse)
  have flushes: "changes_at temp ?f (snd (flush_file i ?f))" if "writing temp i bs ?f" for i bs
    using that flush_file_view by (metis prod.collapse)
  have creates: "changes_at temp ?f (snd (create_file temp ?f))"
    using create_file_view [OF wf] by (metis prod.collapse)
  show ?thesis
  proof (cases d)
    case (WritingTemp temp' i doc parts)
    then show ?thesis
      using assms(1,2) writes changes_at_refl [OF wf(1)] by (cases parts) (auto simp: begun_document_def)
  next
    case (FlushingTemp temp' i doc)
    then show ?thesis
      using assms(1,2) flushes by (auto simp: begun_document_def)
  qed (use assms(2,4) creates remove_file_changes [OF wf] in \<open>auto simp: begun_document_def\<close>)
qed

lemma begun_swap:
  assumes "document_tree C key s (Swapping temp doc) t" and "key_ok key"
    and "st_fs u = begun_document key (Swapping temp doc) (st_fs t)" and "live_pin u = live_pin t"
  shows "kept C key s u" and "view (st_fs u) temp \<noteq> Some Dir" and "wf_fs (st_fs u)"
proof -
  obtain bs where t: "temp = metadata_temp_path s key" "aside key s t" "view (st_fs t) temp = Some (File bs)" "packs C doc bs"
    using assms(1) by auto
  have wf: "wf_fs (st_fs t)"
    using t(2) by (simp add: aside_def)
  have neq: "temp \<noteq> body_path key" "temp \<noteq> []" "body_path key \<noteq> []" "temp \<noteq> shard_path key"
    "body_path key \<noteq> shard_path key"
    using document_names [OF assms(2)] t(1) by metis+
  obtain r where run: "rename_file temp (body_path key) (st_fs t) = (r, st_fs u)"
    using assms(3) by (cases "rename_file temp (body_path key) (st_fs t)") (simp add: begun_document_def)
  note swap = rename_file_view [OF wf t(3) neq(1-3) run]
  show "wf_fs (st_fs u)"
    using swap by blast
  show "view (st_fs u) temp \<noteq> Some Dir"
    using swap neq(1) t(3) by (cases r) (simp_all del: view_Dir)
  have other: "view (st_fs u) k = view (st_fs s) k" if "k \<notin> {body_path key, shard_path key, temp}" for k
    using that swap t(1,2) by (cases r) (simp_all add: aside_def)
  have "view (st_fs u) (body_path key) \<in> {view (st_fs s) (body_path key), Some (File bs)}"
    using swap t(1,2) neq by (cases r) (simp_all add: aside_def)
  then have "store_effect s key bs u"
    using swap t(1,2) assms(4) other by (intro store_effect_fs [of "st_fs u"]) (auto simp: aside_def)
  then show "kept C key s u"
    using t(4) unfolding kept_def by blast
qed

lemma kept_removed:
  assumes "kept C key s t" and "key_ok key" and "changes_at (metadata_temp_path s key) (st_fs t) (st_fs u)"
    and "live_pin u = live_pin t"
  shows "kept C key s u"
proof -
  have "body_path key \<noteq> metadata_temp_path s key"
    using document_names(1) [OF assms(2)] by metis
  then have "store_effect s key packed t \<Longrightarrow> store_effect s key packed u" for packed
    using assms(4) changes_at_other [OF assms(3)] assms(3) unfolding store_effect_def changes_at_def by simp
  then show ?thesis
    using assms(1) unfolding kept_def by blast
qed

lemma kept_cong: "st_fs u = st_fs t \<Longrightarrow> live_pin u = live_pin t \<Longrightarrow> kept C key s t \<Longrightarrow> kept C key s u"
  unfolding kept_def store_effect_def by metis

lemma begun_unarmed:
  assumes "document_tree C key s d t" and "armed_temp d = None" and "key_ok key" and "wf_fs (st_fs s)"
    and "st_fs u = begun_document key d (st_fs t)" and "live_pin u = live_pin t"
  shows "kept C key s u"
    and "view (st_fs s) (metadata_temp_path s key) = None \<Longrightarrow> (\<forall>e. d \<noteq> Answered (Inl e)) \<Longrightarrow>
      view (st_fs u) (metadata_temp_path s key) = None"
proof -
  note t = unarmed_tree [OF assms(1-4)]
  have "kept C key s u \<and> (view (st_fs s) (metadata_temp_path s key) = None \<longrightarrow> (\<forall>e. d \<noteq> Answered (Inl e)) \<longrightarrow>
      view (st_fs u) (metadata_temp_path s key) = None)"
  proof (cases "\<exists>doc. d = MakingDirectory doc")
    case False
    then have "st_fs u = st_fs t"
      using assms(2,5) by (cases d) (auto simp: begun_document_def)
    then show ?thesis
      using t assms(6) kept_cong by metis
  next
    case True
    then have same: "view (st_fs t) = view (st_fs s)" "wf_fs (st_fs t)" "live_pin t = live_pin s"
      using assms(1,4) by (auto simp: tree_def)
    obtain r where run: "create_dir_all (shard_path key) (st_fs t) = (r, st_fs u)"
      using assms(5) True by (cases "create_dir_all (shard_path key) (st_fs t)") (auto simp: begun_document_def butlast_body_path)
    note made = create_dir_all_view [OF same(2) run]
    have other: "\<forall>p. p \<noteq> shard_path key \<longrightarrow> view (st_fs u) p = view (st_fs s) p"
      using made same(1) by auto
    have temp: "view (st_fs u) (metadata_temp_path s key) = view (st_fs s) (metadata_temp_path s key)"
      using other document_names(5) [OF assms(3)] by metis
    then have "aside key s u"
      using other made same(3) assms(6) unfolding aside_def by (metis insertI1)
    then show ?thesis
      using aside_kept [OF assms(3)] temp by metis
  qed
  then show "kept C key s u"
    and "view (st_fs s) (metadata_temp_path s key) = None \<Longrightarrow> (\<forall>e. d \<noteq> Answered (Inl e)) \<Longrightarrow>
      view (st_fs u) (metadata_temp_path s key) = None"
    by blast+
qed

lemma begun_armed:
  assumes "document_tree C key s d t" and "armed_temp d = Some temp" and "key_ok key"
    and "st_fs u = st_fs t \<or> st_fs u = begun_document key d (st_fs t)" and "live_pin u = live_pin t"
  shows "kept C key s u" and "wf_fs (st_fs u)"
    and "view (st_fs s) temp \<noteq> Some Dir \<Longrightarrow> view (st_fs u) temp \<noteq> Some Dir"
proof -
  note t = armed_tree [OF assms(1,2)]
  have side: "kept C key s u \<and> wf_fs (st_fs u) \<and> (view (st_fs s) temp \<noteq> Some Dir \<longrightarrow> view (st_fs u) temp \<noteq> Some Dir)"
    if "changes_at temp (st_fs t) (st_fs u)"
  proof -
    have u: "aside key s u"
      using aside_changes [OF t(2) _ assms(5)] that t(1) by metis
    then show ?thesis
      using aside_kept [OF assms(3) u] t(1) unfolding aside_def by metis
  qed
  have "kept C key s u \<and> wf_fs (st_fs u) \<and> (view (st_fs s) temp \<noteq> Some Dir \<longrightarrow> view (st_fs u) temp \<noteq> Some Dir)"
  proof (cases "st_fs u = st_fs t \<or> (\<forall>doc. d \<noteq> Swapping temp doc)")
    case True
    then have "changes_at temp (st_fs t) (st_fs u)"
      using begun_aside [OF assms(1-3)] assms(4) t(2) changes_at_refl unfolding aside_def by metis
    then show ?thesis
      by (rule side)
  next
    case False
    then obtain doc where d: "d = Swapping temp doc" "st_fs u = begun_document key (Swapping temp doc) (st_fs t)"
      using assms(4) by blast
    then show ?thesis
      using begun_swap [OF assms(1) [unfolded d(1)] assms(3) d(2) assms(5)] by blast
  qed
  then show "kept C key s u" and "wf_fs (st_fs u)"
    and "view (st_fs s) temp \<noteq> Some Dir \<Longrightarrow> view (st_fs u) temp \<noteq> Some Dir"
    by blast+
qed

lemma drop_reservation_files:
  "app_files (drop_reservation r b) = app_files b" "app_table (drop_reservation r b) = app_table b"
  "live_pin (app_store (drop_reservation r b)) = live_pin (app_store b)" "app_pins P (drop_reservation r b) = app_pins P b"
  "memory (drop_reservation r b) = budget (b, r)"
proof -
  show "live_pin (app_store (drop_reservation r b)) = live_pin (app_store b)"
    by (rule live_pin_same) (simp_all add: drop_reservation_def release_reservation_def)
qed (simp_all add: drop_reservation_def release_reservation_def app_table_def table_def memory_def budget_def)

lemma kept_effect:
  assumes "kept C key s t"
  shows "view (st_fs t) (body_path key) = view (st_fs s) (body_path key)
       \<or> view (st_fs t) (body_path key) = None \<and> \<not> live_pin s key
       \<or> (\<exists>meta body packed. pack_footer C body meta = Inr packed \<and> view (st_fs t) (body_path key) = Some (File packed))"
    and "\<forall>q. q \<notin> {body_path key, shard_path key, metadata_temp_path s key} \<longrightarrow>
         view (st_fs t) q = view (st_fs s) q \<or> view (st_fs t) q = None \<and> evictable s q"
proof -
  obtain packed where effect: "store_effect s key packed t"
    using assms unfolding kept_def by blast
  then show "\<forall>q. q \<notin> {body_path key, shard_path key, metadata_temp_path s key} \<longrightarrow>
         view (st_fs t) q = view (st_fs s) q \<or> view (st_fs t) q = None \<and> evictable s q"
    unfolding store_effect_def by blast
  have name: "view (st_fs t) (body_path key) = view (st_fs s) (body_path key)
       \<or> view (st_fs t) (body_path key) = None \<and> \<not> live_pin s key \<or> view (st_fs t) (body_path key) = Some (File bs)"
    if "store_effect s key bs t" for bs
    using that unfolding store_effect_def by (auto split: if_splits)
  show "view (st_fs t) (body_path key) = view (st_fs s) (body_path key)
       \<or> view (st_fs t) (body_path key) = None \<and> \<not> live_pin s key
       \<or> (\<exists>meta body packed. pack_footer C body meta = Inr packed \<and> view (st_fs t) (body_path key) = Some (File packed))"
  proof (cases "\<forall>packed. store_effect s key packed t")
    case True
    then show ?thesis
      using name [of "[]"] name [of "''x''"] by auto
  next
    case False
    then obtain doc bs where "packs C doc bs" "store_effect s key bs t"
      using assms unfolding kept_def by blast
    then show ?thesis
      using name [of bs] unfolding packs_def by blast
  qed
qed

text \<open>Dropped, the fetch gives back what it has reserved, and the guard removes the temp file.\<close>

lemma finish_document_facts:
  "app_table (finish_document key d b) = app_table b" "memory (finish_document key d b) = memory b"
  "app_pins P (finish_document key d b) = app_pins P b"
  "app_files (finish_document key d b) = begun_document key d (app_files b)"
  "live_pin (app_store (finish_document key d b)) = live_pin (app_store b)"
proof -
  show "live_pin (app_store (finish_document key d b)) = live_pin (app_store b)"
    by (rule live_pin_same) (simp_all add: finish_document_def on_app_store_def)
qed (simp_all add: finish_document_def on_app_store_def app_table_def table_def memory_def)

lemma drop_document_effect:
  assumes "sound C P key a d (b, r)" and "key_ok key" and "wf_fs (app_files a)"
    and "b' = b \<or> b' = finish_document key d b"
  shows "app_table (drop_document d (b', r)) = app_table a" and "memory (drop_document d (b', r)) = memory a"
    and "app_pins P (drop_document d (b', r))" and "kept C key (app_store a) (app_store (drop_document d (b', r)))"
    and "fs_faults (app_files b') = [] \<Longrightarrow> view (app_files a) (metadata_temp_path (app_store a) key) = None \<Longrightarrow>
      (\<forall>e. d \<noteq> Answered (Inl e)) \<Longrightarrow>
      view (app_files (drop_document d (b', r))) (metadata_temp_path (app_store a) key) = None"
proof -
  let ?s = "app_store a" and ?c = "drop_document d (b', r)"
  have acc: "app_table b' = app_table a" "budget (b', r) = memory a" "app_pins P b'"
    and live: "live_pin (app_store b') = live_pin (app_store b)"
    using assms(1,4) finish_document_facts [where key = key and d = d and b = b] by (auto simp: sound_def account_def budget_def)
  have tr: "document_tree C key ?s d (app_store b)"
    using assms(1) by (simp add: sound_def)
  have files: "app_files b' = app_files b \<or> app_files b' = begun_document key d (app_files b)"
    using assms(4) finish_document_facts(4) [where key = key and d = d and b = b] by blast
  have "app_table ?c = app_table a \<and> memory ?c = memory a \<and> app_pins P ?c \<and> kept C key ?s (app_store ?c)
    \<and> (fs_faults (app_files b') = [] \<longrightarrow> view (app_files a) (metadata_temp_path ?s key) = None \<longrightarrow>
        (\<forall>e. d \<noteq> Answered (Inl e)) \<longrightarrow> view (app_files ?c) (metadata_temp_path ?s key) = None)"
  proof (cases "armed_temp d")
    case None
    then have c: "?c = drop_reservation r b'"
      by (simp add: drop_document_def)
    have kept: "kept C key ?s (app_store b')"
      and gone: "view (app_files a) (metadata_temp_path ?s key) = None \<Longrightarrow> (\<forall>e. d \<noteq> Answered (Inl e)) \<Longrightarrow>
        view (app_files b') (metadata_temp_path ?s key) = None"
      using files unarmed_tree [OF tr None assms(2,3)] kept_cong [OF _ live]
        begun_unarmed [OF tr None assms(2,3) _ live] by metis+
    have "kept C key ?s (app_store ?c)"
      unfolding c by (rule kept_cong [OF _ _ kept]) (simp_all add: drop_reservation_files)
    then show ?thesis
      using acc gone unfolding c drop_reservation_files by blast
  next
    case (Some temp)
    obtain x b'' where run: "on_files (remove_file temp) b' = (x, b'')"
      by (rule prod.exhaust)
    then have c: "?c = drop_reservation r b''"
      by (simp add: drop_document_def Some)
    note temp = armed_tree(1) [OF tr Some] and armed = begun_armed [OF tr Some assms(2) files live]
    have "temp \<noteq> []"
      using temp document_names(2) [OF assms(2)] by simp
    note wf = armed(2) this
    have live': "live_pin (app_store b'') = live_pin (app_store b')" and mem: "budget (b'', r) = budget (b', r)"
      using run by (auto simp: on_files_def io_simps budget_def memory_def intro: live_pin_same)
    have "changes_at temp (app_files b') (app_files b'')"
      using remove_file_changes [OF wf] on_files_run [OF run] by (metis snd_conv)
    then have "kept C key ?s (app_store b'')"
      using kept_removed [OF armed(1) assms(2) _ live'] temp by blast
    then have "kept C key ?s (app_store ?c)"
      unfolding c by (rule kept_cong [rotated 2]) (simp_all add: drop_reservation_files)
    moreover have "view (app_files ?c) (metadata_temp_path ?s key) = None"
      if "fs_faults (app_files b') = []" "view (app_files a) (metadata_temp_path ?s key) = None"
    proof -
      have "view (app_files b') temp \<noteq> Some Dir"
        using armed(3) temp that(2) by (metis option.distinct(1))
      then show ?thesis
        using removed_temp(2) [OF wf run that(1)] temp unfolding c drop_reservation_files by simp
    qed
    ultimately show ?thesis
      using acc mem on_files_run [OF run, of P] unfolding c drop_reservation_files by auto
  qed
  then show "app_table ?c = app_table a" "memory ?c = memory a" "app_pins P ?c" "kept C key ?s (app_store ?c)"
    "fs_faults (app_files b') = [] \<Longrightarrow> view (app_files a) (metadata_temp_path ?s key) = None \<Longrightarrow>
      (\<forall>e. d \<noteq> Answered (Inl e)) \<Longrightarrow> view (app_files ?c) (metadata_temp_path ?s key) = None"
    by simp_all
qed

text \<open>
  C16: A fetch of a document that is dropped gives everything back.  At whatever await point it is dropped,
  whatever the upstream sent and whichever operation failed before, and whether or not an operation it
  waits for is still carried out: the memory it had reserved is free again, its flight is ended and out
  of the table, no publication has changed; under the entry's name is what was there, or a complete
  document, or nothing if the entry was not pinned and was evicted; no other committed file has changed
  unless it was evicted; and the temp file is gone, if it could be removed.
\<close>

theorem dropped_document_leaves_nothing:
  assumes "wf_fs (app_files a)" and "key_ok key" and "app_pins P a"
    and "leader = \<lparr>ml_inflight = i, ml_key = key\<rparr>"
    and "document_steps E net u ty rw key n LoadingEntry (a, None) = (d, (b, r))"
    and "b' = b \<or> b' = finish_document key d b"
  shows "let c = cancel_document leader d (b', r); s = app_store a; temp = metadata_temp_path s key in
    memory c = memory a \<and> app_pins P c \<and> st_inflight (app_store c) = (st_inflight s)(key := None)
    \<and> st_outcomes (app_store c) i = Some (case st_outcomes s i of
         None \<Rightarrow> Failed Interrupted ''metadata fetch cancelled'' | Some outcome \<Rightarrow> outcome)
    \<and> (view (app_files c) (body_path key) = view (app_files a) (body_path key)
       \<or> view (app_files c) (body_path key) = None \<and> \<not> live_pin s key
       \<or> (\<exists>meta body packed. pack_footer (env_codec E) body meta = Inr packed
            \<and> view (app_files c) (body_path key) = Some (File packed)))
    \<and> (\<forall>q. q \<notin> {body_path key, shard_path key, temp} \<longrightarrow>
         view (app_files c) q = view (app_files a) q \<or> view (app_files c) q = None \<and> evictable s q)
    \<and> (fs_faults (app_files b') = [] \<longrightarrow> view (app_files a) temp = None \<longrightarrow> (\<forall>e. d \<noteq> Answered (Inl e)) \<longrightarrow>
         view (app_files c) temp = None)"
proof -
  let ?C = "env_codec E" and ?s = "app_store a" and ?b = "drop_document d (b', r)" and ?c = "cancel_document leader d (b', r)"
  have "sound ?C P key a LoadingEntry (a, None)"
    using assms(3) by (simp add: sound_def account_def budget_def held_def)
  from sound_steps [OF this assms(2,1,5)] have p: "sound ?C P key a d (b, r)" .
  note b = drop_document_effect [OF p assms(2,1,6)]
  have c: "?c = on_app_store (finish_inflight key \<circ> (\<lambda>s. snd (fail_inflight i Interrupted ''metadata fetch cancelled'' s))) ?b"
    by (simp add: cancel_document_def metadata_cleanup_def assms(4))
  have files: "app_files ?c = app_files ?b" and pins: "app_pins P ?c" and mem: "memory ?c = memory a"
    using b(2,3) unfolding c
    by (simp_all add: on_app_store_def finish_inflight_def fail_inflight_def complete_def drop_outcome_def memory_def
        split: option.split)
  have table: "st_inflight (app_store ?c) = (st_inflight ?s)(key := None)"
    "st_outcomes (app_store ?c) i = Some (case st_outcomes ?s i of
         None \<Rightarrow> Failed Interrupted ''metadata fetch cancelled'' | Some outcome \<Rightarrow> outcome)"
    using b(1) unfolding c
    by (auto simp: on_app_store_def finish_inflight_def fail_inflight_def complete_def drop_outcome_def app_table_def
        table_def split: option.split)
  show ?thesis
    unfolding Let_def files using table pins mem kept_effect [OF b(4)] b(5) by (intro conjI impI) assumption+
qed

section \<open>Instances\<close>

abbreviation sample_document_steps :: "nat \<Rightarrow> document_point \<times> holding_app" where
  "sample_document_steps n \<equiv> document_steps (sample_env page_meta) (\<lambda>_. Inr (sample_response 200)) (npm sample_origins) ''npm''
     RewriteNone sample_key n LoadingEntry (sample_app fresh_store, None)"

definition sample_metadata_leader :: metadata_leader where
  "sample_metadata_leader = \<lparr>ml_inflight = 0, ml_key = sample_key\<rparr>"

text \<open>Dropped while the body is written to the temp file: the file goes, and a MiB of memory is free again.\<close>

lemma sample_collected:
  "sample_document_steps 5 = (MakingDirectory (page_meta, ''body''),
     ((sample_app (fresh_store\<lparr>st_memory_permits := 1023\<rparr>))\<lparr>app_stats := record_metadata_fetch ''npm'' default_stats\<rparr>, Some 1))"
proof -
  have five: "(5 :: nat) = Suc (Suc (Suc (Suc (Suc 0))))"
    by simp
  have "meta_etag page_meta = Some ''1''"
    by code_simp
  then show ?thesis
    unfolding five using load_fresh fresh_memory(1)
    by (simp add: step_asking_def step_chunk_def step_rewriting_def or_answer_def Let_def io_simps count_event_def
        send_request_def sample_app_def sample_env_def usable_entry_def conditional_headers_def sample_response_def
        limited_initial_capacity_def reserve_more_def reserve_unfold held_def next_chunk_def mib_small working_set_def
        output_bound_def apply_rewrite_def page_meta_def [symmetric])
qed

lemma document_steps_add:
  "document_steps E net u ty rw key (m + n) d p =
     (case document_steps E net u ty rw key m d p of (d', q) \<Rightarrow> document_steps E net u ty rw key n d' q)"
  by (induction m arbitrary: d p) (simp_all split: prod.split)

lemma dropped_document_leaves_nothing_witness:
  "\<exists>i p. let temp = metadata_temp_path fresh_store sample_key;
         d = WritingTemp temp i (page_meta, ''body'') [''body'', ''{etag:1}'', to_be_bytes (8 :: u32)];
         c = cancel_document sample_metadata_leader d p in
       sample_document_steps 7 = (d, p) \<and> view (app_files (fst p)) temp = Some (File []) \<and> memory (fst p) = 1023
       \<and> view (app_files c) temp = None \<and> memory c = 1024
       \<and> st_outcomes (app_store c) 0 = Some (Failed Interrupted ''metadata fetch cancelled'')"
proof -
  let ?f0 = "st_fs fresh_store" and ?temp = "metadata_temp_path fresh_store sample_key"
  let ?f1 = "fs_link (shard_path sample_key) NDir ?f0"
  let ?f2 = "fs_link ?temp (NFile 1) (?f1\<lparr>fs_data := (fs_data ?f1)(1 := []), fs_pending := (fs_pending ?f1)(1 := []),
      fs_mtime := (fs_mtime ?f1)(1 := fs_clock ?f1), fs_next := 2\<rparr>)"
  let ?d = "WritingTemp ?temp 1 (page_meta, ''body'') [''body'', ''{etag:1}'', to_be_bytes (8 :: u32)]"
  let ?a = "\<lambda>s. (sample_app s)\<lparr>app_stats := record_metadata_fetch ''npm'' default_stats\<rparr>"
  let ?p = "(?a (fresh_store\<lparr>st_memory_permits := 1023, st_temp_counter := 1, st_fs := ?f2\<rparr>), Some 1 :: reservation)"
  have f0: "fs_faults ?f0 = []" "fs_lookup ?f0 (shard_path sample_key) = None" "fs_lookup ?f0 ?temp = None" "fs_next ?f0 = 1"
    "st_temp_counter fresh_store = 0"
    by code_simp+
  have neq: "?temp \<noteq> shard_path sample_key" "?temp \<noteq> []" "butlast ?temp = shard_path sample_key"
    using document_names [OF sample_key_ok] by (simp_all add: temp_path_eq)
  have mk: "create_dir_all (shard_path sample_key) ?f0 = (Inr (), ?f1)"
    using f0 by (simp add: create_dir_all_def fs_op_no_faults)
  have create: "create_file ?temp ?f1 = (Inr 1, ?f2)"
    using f0 neq by (simp add: create_file_def fs_op_no_faults fs_simps Let_def)
  have run: "sample_document_steps 7 = (?d, ?p)"
  proof -
    have seven: "(7 :: nat) = 5 + Suc (Suc 0)"
      by simp
    have meta: "serialize_meta (env_codec (sample_env page_meta)) page_meta = Inr ''{etag:1}''" "meta_len_u32 ''{etag:1}'' = Inr 8"
      by (simp_all add: format_defs sample_env_def only_codec_def MAX_META_LEN_def)
    show ?thesis
      unfolding seven document_steps_add sample_collected
      using mk create meta f0(5)
      by (simp add: step_directory_def or_answer_def or_cleaning_def on_tree_def io_simps next_temp_path_def butlast_body_path
          sample_app_def)
  qed
  have pins: "app_pins {#} (sample_app fresh_store)"
    by (rule pins_okI) (simp_all add: sample_app_def fresh_store_def empty_store_def)
  have dropped: "memory (cancel_document sample_metadata_leader ?d ?p) = 1024"
    "st_outcomes (app_store (cancel_document sample_metadata_leader ?d ?p)) 0 = Some (Failed Interrupted ''metadata fetch cancelled'')"
    "view (app_files (cancel_document sample_metadata_leader ?d ?p)) ?temp = None"
    using dropped_document_leaves_nothing [OF _ sample_key_ok pins sample_metadata_leader_def run, where b' = "fst ?p"] fresh_store_wf f0
      fresh_memory(1) fresh_flights(4)
    by (simp_all add: sample_app_def Let_def memory_def view_None)
  have "view (app_files (fst ?p)) ?temp = Some (File [])"
    using neq by (simp add: view_def fs_simps sample_app_def)
  then show ?thesis
    using run dropped by (intro exI [of _ 1] exI [of _ ?p]) (simp add: Let_def memory_def sample_app_def)
qed

end
