(* ===== verification/Git.thy ===== *)
theory Git
  imports Proxy
begin

text \<open>
  \<^verbatim>\<open>src/git.rs\<close>: the proxy for fetching from git repositories over HTTP.  A request is parsed into a
  repository and one of the two calls of the smart protocol, or it is turned away; what is forwarded
  carries only the headers of an allow list, and the answer is streamed without hop-by-hop headers.

  Reading the request body is \<^verbatim>\<open>axum::body::to_bytes\<close>, which is not part of the repository: a parameter
  that yields the bytes or the text of an error.  The client that sends the requests follows no
  redirects and is a \<open>network\<close> of its own.
\<close>

section \<open>Requests\<close>

definition MAX_GIT_REQUEST_BODY_BYTES :: usize where
  "MAX_GIT_REQUEST_BODY_BYTES = 8388608"

datatype github_git_rpc = InfoRefs | UploadPack

record github_git_path =
  git_owner :: string
  git_repo :: string
  git_rpc :: github_git_rpc

datatype git_path_error = InvalidPath | ReceivePack

record git_upstream_request =
  gu_method :: string
  gu_upstream :: url

datatype parsed_git_request = NotGit | Rejected u16 string | Forward git_upstream_request

text \<open>The answer: a body that is complete, or the stream of the chunks of the upstream.\<close>

datatype git_reply = Buffered response | Streamed u16 "string \<rightharpoonup> bytes" "(string + bytes) list"

definition is_allowlisted_git_request_header :: "string \<Rightarrow> string \<Rightarrow> bool" where
  "is_allowlisted_git_request_header verb name \<longleftrightarrow>
     (if verb = ''GET'' then eq_ignore_ascii_case name ''git-protocol''
      else if verb = ''POST'' then
        eq_ignore_ascii_case name CONTENT_TYPE
        \<or> eq_ignore_ascii_case name ''content-encoding''
        \<or> eq_ignore_ascii_case name ''git-protocol''
      else False)"

text \<open>\<^verbatim>\<open>HeaderMap::insert\<close> replaces what was stored under the name.\<close>

fun forward_headers :: "string \<Rightarrow> header_list \<Rightarrow> (string \<times> string) list \<Rightarrow> (string \<times> string) list" where
  "forward_headers verb [] forwarded = forwarded"
| "forward_headers verb ((name, v) # headers) forwarded =
     forward_headers verb headers
       (if is_allowlisted_git_request_header verb name then AList.update name v forwarded else forwarded)"

fun reply_headers :: "header_list \<Rightarrow> (string \<rightharpoonup> bytes) \<Rightarrow> (string \<rightharpoonup> bytes)" where
  "reply_headers [] out = out"
| "reply_headers ((name, v) # headers) out =
     reply_headers headers (if \<not> is_hop_header name then out(name \<mapsto> v) else out)"

definition handle_git ::
  "network \<Rightarrow> string \<Rightarrow> url \<Rightarrow> header_list \<Rightarrow> bytes option \<Rightarrow> (app, git_reply) io" where
  "handle_git net verb upstream headers body =
     (let request = \<lparr>ur_method = verb, ur_url = upstream, ur_headers = forward_headers verb headers [],
                     ur_body = body\<rparr> in
      io_bind (io_lift (send_request net request)) (\<lambda>resp.
      io_bind (count_event (record_git_forward UPSTREAM_GITHUB)) (\<lambda>_.
      io_return (Streamed (up_status resp) (reply_headers (up_headers resp) Map.empty) (up_chunks resp)))))"

section \<open>Paths\<close>

definition valid_repo_segment :: "string \<Rightarrow> bool" where
  "valid_repo_segment segment \<longleftrightarrow>
     segment \<noteq> [] \<and> segment \<noteq> ''.'' \<and> segment \<noteq> ''..''
     \<and> slash \<notin> set segment \<and> backslash \<notin> set segment \<and> CHR ''%'' \<notin> set segment"

definition new_git_path :: "string \<Rightarrow> string \<Rightarrow> github_git_rpc \<Rightarrow> github_git_path option" where
  "new_git_path owner repo rpc =
     (if \<not> valid_repo_segment owner \<or> \<not> valid_repo_segment repo then None
      else Some \<lparr>git_owner = owner, git_repo = repo, git_rpc = rpc\<rparr>)"

fun ensure_well_formed_percent_encoding :: "bytes \<Rightarrow> git_path_error + unit" where
  "ensure_well_formed_percent_encoding [] = Inr ()"
| "ensure_well_formed_percent_encoding (b # rest) =
     (if b \<noteq> CHR ''%'' then ensure_well_formed_percent_encoding rest
      else
        (case rest of
           h # l # rest' \<Rightarrow>
             if \<not> is_ascii_hexdigit h \<or> \<not> is_ascii_hexdigit l then Inl InvalidPath
             else ensure_well_formed_percent_encoding rest'
         | _ \<Rightarrow> Inl InvalidPath))"

text \<open>The loop that refuses percent-encoded segments.\<close>

fun refuse_percent :: "string list \<Rightarrow> git_path_error + unit" where
  "refuse_percent [] = Inr ()"
| "refuse_percent (segment # segments) =
     (if CHR ''%'' \<in> set segment then
        (case ensure_well_formed_percent_encoding segment of
           Inl e \<Rightarrow> Inl e
         | Inr _ \<Rightarrow> Inl InvalidPath)
      else refuse_percent segments)"

definition repo_name :: "string \<Rightarrow> string" where
  "repo_name segment = (case strip_suffix ''.git'' segment of None \<Rightarrow> segment | Some repo \<Rightarrow> repo)"

definition match_segments :: "string list \<Rightarrow> git_path_error + github_git_path option" where
  "match_segments segments =
     (case segments of
        [owner, repo_segment, a, b] \<Rightarrow>
          if a = ''info'' \<and> b = ''refs'' then Inr (new_git_path owner (repo_name repo_segment) InfoRefs)
          else Inr None
      | [owner, repo_segment, a] \<Rightarrow>
          if a = ''git-upload-pack'' then Inr (new_git_path owner (repo_name repo_segment) UploadPack)
          else if a = ''git-receive-pack'' then Inl ReceivePack
          else Inr None
      | _ \<Rightarrow> Inr None)"

definition parse_github_git_request_path :: "string \<Rightarrow> git_path_error + github_git_path option" where
  "parse_github_git_request_path p =
     (if \<not> prefix [slash] p \<or> backslash \<in> set p then Inl InvalidPath
      else if p = [slash] then Inr None
      else
        (let raw = tl p in
         if raw = [] \<or> contains_str [slash, slash] raw then Inl InvalidPath
         else
           (let segments = split_char slash raw in
            if list_ex (\<lambda>segment. segment = [] \<or> segment = ''.'' \<or> segment = ''..'') segments
            then Inl InvalidPath
            else
              (case refuse_percent segments of
                 Inl e \<Rightarrow> Inl e
               | Inr _ \<Rightarrow> match_segments segments))))"

section \<open>Resolving a request\<close>

definition upload_pack_service :: string where
  "upload_pack_service = ''service=git-upload-pack''"

definition info_refs_tail :: "github_git_path \<Rightarrow> string" where
  "info_refs_tail path = git_owner path @ ''/'' @ git_repo path @ ''.git/info/refs''"

definition upload_pack_tail :: "github_git_path \<Rightarrow> string" where
  "upload_pack_tail path = git_owner path @ ''/'' @ git_repo path @ ''.git/git-upload-pack''"

definition upstream_url ::
  "url_lib \<Rightarrow> github_git_path \<Rightarrow> registry_origins \<Rightarrow> string option \<Rightarrow> url option" where
  "upstream_url L path upstreams query =
     (case git_rpc path of
        InfoRefs \<Rightarrow>
          if query = Some upload_pack_service
          then map_option (\<lambda>u. lib_set_query L u (Some upload_pack_service))
                 (join_url L (github upstreams) (info_refs_tail path))
          else None
      | UploadPack \<Rightarrow>
          if query = None then join_url L (github upstreams) (upload_pack_tail path) else None)"

definition forward_to :: "string \<Rightarrow> url option \<Rightarrow> parsed_git_request" where
  "forward_to verb upstream =
     (case upstream of
        None \<Rightarrow> NotGit
      | Some u \<Rightarrow> Forward \<lparr>gu_method = verb, gu_upstream = u\<rparr>)"

definition resolve ::
  "url_lib \<Rightarrow> github_git_path \<Rightarrow> string \<Rightarrow> string option \<Rightarrow> registry_origins \<Rightarrow> parsed_git_request" where
  "resolve L path verb query upstreams =
     (if verb = ''GET'' then
        (case git_rpc path of
           InfoRefs \<Rightarrow>
             if query = Some upload_pack_service then forward_to ''GET'' (upstream_url L path upstreams query)
             else if query = Some ''service=git-receive-pack''
             then Rejected 405 ''git-receive-pack is not supported''
             else Rejected 400 ''info/refs requires ?service=git-upload-pack''
         | UploadPack \<Rightarrow> Rejected 405 ''git-upload-pack requires POST'')
      else if verb = ''POST'' then
        (case git_rpc path of
           UploadPack \<Rightarrow>
             if query \<noteq> None then Rejected 400 ''git-upload-pack does not accept query parameters''
             else forward_to ''POST'' (upstream_url L path upstreams None)
         | InfoRefs \<Rightarrow> Rejected 405 ''info/refs requires GET'')
      else Rejected 405 ''unsupported git method'')"

definition uri_contains_userinfo :: "uri \<Rightarrow> bool" where
  "uri_contains_userinfo uri =
     (case uri_authority uri of None \<Rightarrow> False | Some authority \<Rightarrow> CHR ''@'' \<in> set authority)"

definition from_request :: "url_lib \<Rightarrow> string \<Rightarrow> uri \<Rightarrow> registry_origins \<Rightarrow> parsed_git_request" where
  "from_request L verb uri upstreams =
     (if uri_contains_userinfo uri
      then Rejected 403 ''credential-bearing git requests are not supported''
      else if verb = ''CONNECT'' then Rejected 405 ''CONNECT is not supported''
      else if uri_scheme uri \<noteq> None \<or> uri_authority uri \<noteq> None
      then Rejected 400 ''absolute-form git requests are not supported''
      else
        (case parse_github_git_request_path (uri_path uri) of
           Inr (Some path) \<Rightarrow> resolve L path verb (uri_query uri) upstreams
         | Inr None \<Rightarrow> NotGit
         | Inl ReceivePack \<Rightarrow> Rejected 405 ''git-receive-pack is not supported''
         | Inl InvalidPath \<Rightarrow> Rejected 400 ''invalid git path''))"

definition reads_body :: "git_upstream_request \<Rightarrow> bool" where
  "reads_body r \<longleftrightarrow> gu_method r = ''POST''"

definition rejection :: "u16 \<Rightarrow> string \<Rightarrow> response" where
  "rejection status msg = simple_response status ''text/plain; charset=utf-8'' msg"

text \<open>The tail of \<^verbatim>\<open>request\<close> once the body is there.\<close>

definition forward_git ::
  "network \<Rightarrow> git_upstream_request \<Rightarrow> header_list \<Rightarrow> bytes option \<Rightarrow> app \<Rightarrow> git_reply \<times> app" where
  "forward_git net r headers body a =
     (case handle_git net (gu_method r) (gu_upstream r) headers body a of
        (Inr reply, b) \<Rightarrow> (reply, b)
      | (Inl e, b) \<Rightarrow> (Buffered (request_failed_response e), b))"

definition git_request ::
  "env \<Rightarrow> network \<Rightarrow> ('body \<Rightarrow> usize \<Rightarrow> string + bytes) \<Rightarrow> string \<Rightarrow> uri \<Rightarrow> header_list \<Rightarrow> 'body \<Rightarrow> app
     \<Rightarrow> git_reply \<times> app" where
  "git_request E net to_bytes verb uri headers body a =
     (case from_request (env_url E) verb uri (env_upstreams E) of
        NotGit \<Rightarrow> (Buffered not_found, a)
      | Rejected status msg \<Rightarrow> (Buffered (rejection status msg), a)
      | Forward r \<Rightarrow>
          if reads_body r then
            (case to_bytes body MAX_GIT_REQUEST_BODY_BYTES of
               Inl e \<Rightarrow> (Buffered (simple_response 400 ''text/plain; charset=utf-8'' e), a)
             | Inr content \<Rightarrow> forward_git net r headers (Some content) a)
          else forward_git net r headers None a)"

section \<open>Lemmas\<close>

subsection \<open>Headers\<close>

lemma forward_headers_names:
  assumes "distinct (map fst forwarded)"
    and "\<forall>(n, v)\<in>set forwarded. is_allowlisted_git_request_header verb n \<and> P n v"
    and "\<forall>(n, v)\<in>set headers. P n v"
  shows "distinct (map fst (forward_headers verb headers forwarded))
    \<and> (\<forall>(n, v)\<in>set (forward_headers verb headers forwarded). is_allowlisted_git_request_header verb n \<and> P n v)"
  using assms
proof (induction verb headers forwarded rule: forward_headers.induct)
  case (2 verb name v headers forwarded)
  let ?fw = "if is_allowlisted_git_request_header verb name then AList.update name v forwarded else forwarded"
  have "distinct (map fst ?fw)"
    using 2(2) by (simp add: distinct_update)
  moreover have "\<forall>(n, v)\<in>set ?fw. is_allowlisted_git_request_header verb n \<and> P n v"
  proof -
    have "set (AList.update name v forwarded) \<subseteq> insert (name, v) (set forwarded)"
      by (induction forwarded) auto
    with 2(3,4) show ?thesis by (fastforce split: if_splits)
  qed
  ultimately show ?case
    using 2(1,4) by simp
qed simp

text \<open>The headers of the answer are those of the upstream, the last one of each name, without the hop-by-hop ones.\<close>

lemma reply_headers_eq:
  "reply_headers headers out n =
     (if is_hop_header n then out n else case map_of (rev headers) n of None \<Rightarrow> out n | Some v \<Rightarrow> Some v)"
proof (induction headers arbitrary: out n)
  case (Cons h headers)
  obtain name v where h: "h = (name, v)" by force
  show ?case
    by (cases "n = name"; cases "map_of (rev headers) n")
      (simp_all add: h Cons.IH map_add_def)
qed simp

subsection \<open>Paths\<close>

text \<open>How a client spells the path of a repository's call, with or without the suffix.\<close>

definition rpc_segments :: "github_git_rpc \<Rightarrow> string list" where
  "rpc_segments rpc = (case rpc of InfoRefs \<Rightarrow> [''info'', ''refs''] | UploadPack \<Rightarrow> [''git-upload-pack''])"

definition request_path :: "github_git_path \<Rightarrow> string \<Rightarrow> string" where
  "request_path path ext = slash # join_char slash ([git_owner path, git_repo path @ ext] @ rpc_segments (git_rpc path))"

definition valid_git_path :: "github_git_path \<Rightarrow> bool" where
  "valid_git_path path \<longleftrightarrow> valid_repo_segment (git_owner path) \<and> valid_repo_segment (git_repo path)"

lemma refuse_percent_Inr: "refuse_percent segments = Inr u \<longleftrightarrow> (\<forall>s\<in>set segments. CHR ''%'' \<notin> set s)"
  by (induction segments) (auto split: sum.split)

lemma new_git_path_Some:
  "new_git_path owner repo rpc = Some path \<longleftrightarrow>
     path = \<lparr>git_owner = owner, git_repo = repo, git_rpc = rpc\<rparr> \<and> valid_git_path path"
  by (auto simp: new_git_path_def valid_git_path_def)

lemma match_segments_Some:
  "match_segments segments = Inr (Some path) \<longleftrightarrow>
     valid_git_path path
     \<and> (\<exists>seg. segments = [git_owner path, seg] @ rpc_segments (git_rpc path) \<and> git_repo path = repo_name seg)"
  by (cases path; cases "git_rpc path")
    (auto simp: match_segments_def new_git_path_Some rpc_segments_def split: list.splits if_splits)

lemma join_no_empty_segment:
  assumes "segments \<noteq> []" "[] \<notin> set segments" "\<forall>s\<in>set segments. c \<notin> set s"
  shows "\<not> contains_str [c, c] (join_char c segments)"
proof
  assume "contains_str [c, c] (join_char c segments)"
  then obtain a b where ab: "join_char c segments = a @ c # c # b"
    by (auto simp: contains_str_iff)
  have "[] \<in> set (tl (split_char c (a @ c # c # b)))"
    by (induction a) (auto split: list.split)
  then have "[] \<in> set (split_char c (join_char c segments))"
    using ab by (auto dest: list.set_sel(2) [rotated])
  then show False
    using split_join_char [OF assms(1,3)] assms(2) by simp
qed

lemma rpc_segments_plain:
  "s \<in> set (rpc_segments rpc) \<Longrightarrow> s \<noteq> [] \<and> s \<noteq> ''.'' \<and> s \<noteq> ''..'' \<and> slash \<notin> set s \<and> backslash \<notin> set s \<and> CHR ''%'' \<notin> set s"
  by (cases rpc) (auto simp: rpc_segments_def slash_def backslash_def)

lemma mem_join_char: "s \<in> set segs \<Longrightarrow> set s \<subseteq> set (join_char c segs)"
  by (induction c segs rule: join_char.induct) auto

text \<open>A segment that passes every check the parser makes before it looks at the shape.\<close>

definition plain_segment :: "string \<Rightarrow> bool" where
  "plain_segment s \<longleftrightarrow>
     s \<noteq> [] \<and> s \<noteq> ''.'' \<and> s \<noteq> ''..'' \<and> slash \<notin> set s \<and> backslash \<notin> set s \<and> CHR ''%'' \<notin> set s"

lemma plain_valid: "plain_segment s \<longleftrightarrow> valid_repo_segment s"
  by (simp add: plain_segment_def valid_repo_segment_def)

lemma parse_path_segments:
  "parse_github_git_request_path p = Inr (Some path) \<longleftrightarrow>
     (\<exists>segs. segs \<noteq> [] \<and> p = slash # join_char slash segs \<and> (\<forall>s\<in>set segs. plain_segment s)
        \<and> match_segments segs = Inr (Some path))"
    (is "?parse \<longleftrightarrow> (\<exists>segs. ?spec segs)")
proof
  assume parse: ?parse
  then obtain raw where raw: "p = slash # raw" "raw \<noteq> []" "backslash \<notin> set p"
    by (auto simp: parse_github_git_request_path_def prefix_def Let_def split: if_splits)
  with parse have checks: "list_all (\<lambda>s. s \<noteq> [] \<and> s \<noteq> ''.'' \<and> s \<noteq> ''..'') (split_char slash raw)"
      "refuse_percent (split_char slash raw) = Inr ()" "match_segments (split_char slash raw) = Inr (Some path)"
    by (auto simp: parse_github_git_request_path_def Let_def list_ex_iff list_all_iff split: if_splits sum.splits)
  have "?spec (split_char slash raw)"
    using raw checks mem_join_char [of _ "split_char slash raw" slash]
    by (auto simp: plain_segment_def list_all_iff refuse_percent_Inr dest: split_char_no_sep)
  then show "\<exists>segs. ?spec segs" ..
next
  assume "\<exists>segs. ?spec segs"
  then obtain segs where segs: "?spec segs" ..
  let ?raw = "join_char slash segs"
  have split: "split_char slash ?raw = segs"
    using segs by (intro split_join_char) (auto simp: plain_segment_def)
  have "?raw \<noteq> []"
  proof
    assume "?raw = []"
    then have "segs = [[]]" using split by simp
    with segs show False by (simp add: plain_segment_def)
  qed
  moreover have "\<not> contains_str [slash, slash] ?raw"
    using segs by (intro join_no_empty_segment) (auto simp: plain_segment_def)
  moreover have "backslash \<notin> set ?raw" "backslash \<noteq> slash"
    using segs set_join_char [of slash segs] by (auto simp: plain_segment_def slash_def backslash_def)
  moreover have "refuse_percent segs = Inr ()" "\<not> list_ex (\<lambda>s. s = [] \<or> s = ''.'' \<or> s = ''..'') segs"
    using segs by (auto simp: refuse_percent_Inr plain_segment_def list_ex_iff)
  ultimately show ?parse
    using segs split by (simp add: parse_github_git_request_path_def Let_def)
qed

lemma repo_name_eq:
  "repo = repo_name seg \<longleftrightarrow> seg = repo @ ''.git'' \<or> seg = repo \<and> \<not> suffix ''.git'' repo"
  by (auto simp: repo_name_def strip_suffix_Some strip_suffix_None suffix_def split: option.splits)

section \<open>Properties\<close>

text \<open>
  C39: The paths of the two calls are parsed as they are printed.  The parser yields a repository and a call exactly
  for the paths \<^verbatim>\<open>/owner/repo.git/info/refs\<close> and \<^verbatim>\<open>/owner/repo.git/git-upload-pack\<close>, and the same without the
  suffix for a repository whose name does not end in it, with an owner and a repository name that are one
  plain segment each: nothing empty, no dot segment, no slash, backslash or percent sign.
\<close>

theorem git_path_roundtrip:
  "parse_github_git_request_path p = Inr (Some path) \<longleftrightarrow>
     valid_git_path path
     \<and> (p = request_path path ''.git'' \<or> (p = request_path path [] \<and> \<not> suffix ''.git'' (git_repo path)))"
    (is "_ \<longleftrightarrow> ?rhs")
proof -
  let ?segs = "\<lambda>seg. [git_owner path, seg] @ rpc_segments (git_rpc path)"
  have plain: "\<forall>s\<in>set (?segs (git_repo path @ ext)). plain_segment s"
    if "valid_git_path path" "ext = [] \<or> ext = ''.git''" for ext
    using that rpc_segments_plain [of _ "git_rpc path"]
    by (auto simp: valid_git_path_def plain_valid valid_repo_segment_def plain_segment_def slash_def backslash_def)
  have "parse_github_git_request_path p = Inr (Some path) \<longleftrightarrow>
      valid_git_path path \<and> (\<exists>seg. p = slash # join_char slash (?segs seg) \<and> (\<forall>s\<in>set (?segs seg). plain_segment s)
        \<and> git_repo path = repo_name seg)"
    unfolding parse_path_segments match_segments_Some by blast
  also have "\<dots> \<longleftrightarrow> ?rhs"
    using plain [of "[]"] plain [of "''.git''"] by (auto simp: repo_name_eq request_path_def)
  finally show ?thesis .
qed

lemma git_path_roundtrip_witness:
  "parse_github_git_request_path ''/rust-lang/cargo/info/refs''
     = Inr (Some \<lparr>git_owner = ''rust-lang'', git_repo = ''cargo'', git_rpc = InfoRefs\<rparr>)"
  using git_path_roundtrip [of "''/rust-lang/cargo/info/refs''"
      "\<lparr>git_owner = ''rust-lang'', git_repo = ''cargo'', git_rpc = InfoRefs\<rparr>"]
  by (simp add: request_path_def rpc_segments_def valid_git_path_def valid_repo_segment_def slash_def backslash_def
      suffix_to_prefix)

subsection \<open>What is forwarded\<close>

text \<open>A request of the smart protocol's fetch side, for a repository of the configured host.\<close>

definition fetch_request :: "url_lib \<Rightarrow> registry_origins \<Rightarrow> github_git_path \<Rightarrow> string option \<Rightarrow> upstream_request \<Rightarrow> bool" where
  "fetch_request L upstreams path query r \<longleftrightarrow>
     (git_rpc path = InfoRefs \<and> ur_method r = ''GET'' \<and> query = Some upload_pack_service \<and> ur_body r = None
      \<and> (\<exists>u. below L (github upstreams) (info_refs_tail path) u \<and> ur_url r = lib_set_query L u (Some upload_pack_service)))
     \<or> (git_rpc path = UploadPack \<and> ur_method r = ''POST'' \<and> query = None \<and> ur_body r \<noteq> None
        \<and> below L (github upstreams) (upload_pack_tail path) (ur_url r))"

text \<open>What \<^verbatim>\<open>to_bytes\<close> documents: it fails when the body is longer than the limit.\<close>

definition limits_body :: "('body \<Rightarrow> usize \<Rightarrow> string + bytes) \<Rightarrow> bool" where
  "limits_body to_bytes \<longleftrightarrow> (\<forall>body limit content. to_bytes body limit = Inr content \<longrightarrow> length content \<le> unat limit)"

lemma limits_bodyD: "limits_body to_bytes \<Longrightarrow> to_bytes body limit = Inr content \<Longrightarrow> length content \<le> unat limit"
  by (simp add: limits_body_def)

lemma resolve_Forward:
  assumes "resolve L path verb query upstreams = Forward r"
  shows "gu_method r = verb
    \<and> (verb = ''GET'' \<and> git_rpc path = InfoRefs \<and> query = Some upload_pack_service
         \<and> (\<exists>u. below L (github upstreams) (info_refs_tail path) u \<and> gu_upstream r = lib_set_query L u (Some upload_pack_service))
       \<or> verb = ''POST'' \<and> git_rpc path = UploadPack \<and> query = None
         \<and> below L (github upstreams) (upload_pack_tail path) (gu_upstream r))"
  using assms
  by (auto simp: resolve_def forward_to_def upstream_url_def dest: join_url_below
      split: if_splits github_git_rpc.splits option.splits)

lemma from_request_Forward:
  assumes "from_request L verb uri upstreams = Forward r"
  obtains path where "uri_scheme uri = None" "uri_authority uri = None"
    "parse_github_git_request_path (uri_path uri) = Inr (Some path)"
    "resolve L path verb (uri_query uri) upstreams = Forward r"
  using assms
  by (auto simp: from_request_def split: if_splits sum.splits option.splits git_path_error.splits)

lemma forward_git_eq:
  "forward_git net r headers content a =
     (case net \<lparr>ur_method = gu_method r, ur_url = gu_upstream r, ur_headers = forward_headers (gu_method r) headers [],
               ur_body = content\<rparr> of
        Inl e \<Rightarrow> (Buffered (simple_response 502 ''text/plain; charset=utf-8'' e), a)
      | Inr resp \<Rightarrow>
          (Streamed (up_status resp)
             (\<lambda>n. if is_hop_header n then None else map_of (rev (up_headers resp)) n) (up_chunks resp),
           a\<lparr>app_stats := record_git_forward UPSTREAM_GITHUB (app_stats a)\<rparr>))"
  by (auto simp: forward_git_def handle_git_def Let_def io_bind_def io_simps send_request_def count_event_def
      other_error_def request_failed_response_def error_status_def reply_headers_eq split: sum.split option.split)

text \<open>The only headers that leave the proxy; the names are compared as the crate compares them.\<close>

definition forwardable :: "upstream_request \<Rightarrow> header_list \<Rightarrow> bool" where
  "forwardable r headers \<longleftrightarrow>
     distinct (map fst (ur_headers r))
     \<and> list_all (\<lambda>(n, v). (n, v) \<in> set headers
         \<and> map ascii_lower n \<in> {''git-protocol'', ''content-type'', ''content-encoding''}) (ur_headers r)"

lemma forward_headers_forwardable:
  "forwardable \<lparr>ur_method = verb, ur_url = u, ur_headers = forward_headers verb headers [], ur_body = b\<rparr> headers"
proof -
  have "map ascii_lower n \<in> {''git-protocol'', ''content-type'', ''content-encoding''}"
    if "is_allowlisted_git_request_header verb n" for n
    using that
    by (auto simp: is_allowlisted_git_request_header_def eq_ignore_ascii_case_def header_names ascii_lower_def
        less_eq_char_def split: if_splits)
  then show ?thesis
    using forward_headers_names [of "[]" verb "\<lambda>n v. (n, v) \<in> set headers" headers]
    by (auto simp: forwardable_def list_all_iff)
qed

text \<open>
  C8: A git request is answered by the proxy itself, without asking the network and without changing any state,
  or it is one fetch call for a repository of the configured host: an origin-form \<^verbatim>\<open>GET\<close> of \<^verbatim>\<open>info/refs\<close> for
  \<^verbatim>\<open>git-upload-pack\<close> or a \<^verbatim>\<open>POST\<close> of \<^verbatim>\<open>git-upload-pack\<close> without a query, for a plain owner and repository.  Then
  the request that is sent lies below the host's path, carries no header but those of the allow list, and a
  body of at most 8 MiB.  If sending fails the client gets 502 and nothing is counted; otherwise it gets the
  upstream's status, its headers without the hop-by-hop ones, and its chunks, and one forward is counted.
\<close>

theorem git_request_forwards:
  assumes "limits_body to_bytes"
  shows "(\<exists>reply. \<forall>net a. git_request E net to_bytes verb uri headers body a = (Buffered reply, a))
    \<or> (\<exists>path sent. uri_scheme uri = None \<and> uri_authority uri = None
        \<and> parse_github_git_request_path (uri_path uri) = Inr (Some path)
        \<and> ur_method sent = verb
        \<and> fetch_request (env_url E) (env_upstreams E) path (uri_query uri) sent
        \<and> forwardable sent headers
        \<and> (case ur_body sent of None \<Rightarrow> True | Some content \<Rightarrow> length content \<le> 8388608)
        \<and> (\<forall>net a. git_request E net to_bytes verb uri headers body a =
             (case net sent of
                Inl e \<Rightarrow> (Buffered (simple_response 502 ''text/plain; charset=utf-8'' e), a)
              | Inr resp \<Rightarrow>
                  (Streamed (up_status resp)
                     (\<lambda>n. if is_hop_header n then None else map_of (rev (up_headers resp)) n) (up_chunks resp),
                   a\<lparr>app_stats := record_git_forward UPSTREAM_GITHUB (app_stats a)\<rparr>))))"
    (is "?local \<or> ?forwarded")
proof (cases "from_request (env_url E) verb uri (env_upstreams E)")
  case (Forward r)
  then obtain path where path: "uri_scheme uri = None" "uri_authority uri = None"
      "parse_github_git_request_path (uri_path uri) = Inr (Some path)"
      "resolve (env_url E) path verb (uri_query uri) (env_upstreams E) = Forward r"
    by (rule from_request_Forward)
  note r = resolve_Forward [OF path(4)]
  let ?sent = "\<lambda>content. \<lparr>ur_method = gu_method r, ur_url = gu_upstream r,
      ur_headers = forward_headers (gu_method r) headers [], ur_body = content\<rparr>"
  show ?thesis
  proof (cases "verb = ''POST''")
    case True
    show ?thesis
    proof (cases "to_bytes body MAX_GIT_REQUEST_BODY_BYTES")
      case (Inl e)
      then have ?local
        using Forward True r by (simp add: git_request_def reads_body_def)
      then show ?thesis ..
    next
      case (Inr content)
      then have "length content \<le> 8388608"
        using limits_bodyD [OF assms] by (fastforce simp: MAX_GIT_REQUEST_BODY_BYTES_def)
      then have ?forwarded
        using Forward True r path Inr
        by (intro exI [of _ path] exI [of _ "?sent (Some content)"])
          (simp add: git_request_def reads_body_def fetch_request_def forward_headers_forwardable forward_git_eq)
      then show ?thesis ..
    qed
  next
    case False
    then have ?forwarded
      using Forward r path
      by (intro exI [of _ path] exI [of _ "?sent None"])
        (simp add: git_request_def reads_body_def fetch_request_def forward_headers_forwardable forward_git_eq)
    then show ?thesis ..
  qed
qed (auto simp: git_request_def)

definition sample_to_bytes :: "bytes \<Rightarrow> usize \<Rightarrow> string + bytes" where
  "sample_to_bytes body limit = (if length body \<le> unat limit then Inr body else Inl ''length limit exceeded'')"

definition sample_git_uri :: uri where
  "sample_git_uri =
     \<lparr>uri_scheme = None, uri_authority = None, uri_path = ''/rust-lang/cargo/info/refs'',
      uri_query = Some ''service=git-upload-pack''\<rparr>"

lemma git_request_forwards_witness:
  "\<exists>path sent. parse_github_git_request_path ''/rust-lang/cargo/info/refs'' = Inr (Some path)
     \<and> fetch_request sample_lib sample_origins path (Some ''service=git-upload-pack'') sent
     \<and> forwardable sent [(''authorization'', ''secret''), (''git-protocol'', ''version=2'')]"
proof -
  let ?headers = "[(''authorization'', ''secret''), (''git-protocol'', ''version=2'')]"
  let ?run = "git_request (sample_env page_meta) (\<lambda>_. Inr (sample_response 200)) sample_to_bytes ''GET'' sample_git_uri ?headers []"
  have "from_request sample_lib ''GET'' sample_git_uri sample_origins
      = Forward \<lparr>gu_method = ''GET'', gu_upstream =
          (https_url ''github.com'' ''/rust-lang/cargo.git/info/refs'')\<lparr>url_query := Some ''service=git-upload-pack''\<rparr>\<rparr>"
    by code_simp
  then have "\<exists>s h cs b. ?run (sample_app fresh_store) = (Streamed s h cs, b)"
    by (simp add: git_request_def sample_env_def reads_body_def forward_git_eq)
  moreover have "limits_body sample_to_bytes"
    by (simp add: limits_body_def sample_to_bytes_def)
  note git_request_forwards [OF this, of "sample_env page_meta" "''GET''" sample_git_uri ?headers "[]"]
  ultimately show ?thesis
    by (auto simp: sample_git_uri_def sample_env_def)
qed

end
