(* ===== verification/Handlers.thy ===== *)
theory Handlers
  imports Flights Git
begin

text \<open>
  \<^verbatim>\<open>src/cargo.rs\<close>, \<^verbatim>\<open>src/pypi.rs\<close>, \<^verbatim>\<open>src/npm.rs\<close> and \<^verbatim>\<open>src/app.rs\<close>: the request handlers and the routers.  A handler that
  goes through the cache starts one of the calls of the machine of concurrent requests; the others are
  answered at once, with the memory that is reserved for the body of the answer.

  Which handler a path and a method select is decided by the router of the crate \<^verbatim>\<open>axum\<close>, given the
  table of routes; it is a parameter, and may choose any handler of the table.
\<close>

section \<open>Answers\<close>

text \<open>
  A call of \<open>Flights\<close> ends with a result, and the handler turns an error into a response.  A panic of
  \<^verbatim>\<open>expect\<close> leaves the client without an answer.
\<close>

datatype service = Answered response reservation | Started call | Panicked

definition reply_of :: "response io_result \<Rightarrow> response" where
  "reply_of r = (case r of Inr x \<Rightarrow> x | Inl e \<Rightarrow> request_failed_response e)"

definition answer_now :: "response \<Rightarrow> service" where
  "answer_now r = Answered r None"

definition start_or_404 :: "call option \<Rightarrow> service" where
  "start_or_404 c = (case c of None \<Rightarrow> answer_now not_found | Some call \<Rightarrow> Started call)"

text \<open>\<^verbatim>\<open>handle_artifact_head\<close> behind a URL that may not exist.\<close>

definition head_or_404 :: "env \<Rightarrow> network \<Rightarrow> url option \<Rightarrow> app \<Rightarrow> service \<times> app" where
  "head_or_404 E net upstream a =
     (case upstream of
        None \<Rightarrow> (answer_now not_found, a)
      | Some u \<Rightarrow> (case handle_artifact_head E net u a of (r, b) \<Rightarrow> (answer_now (reply_of r), b)))"

section \<open>Raw paths\<close>

text \<open>Each of the three route files has a \<^verbatim>\<open>raw_path_tail\<close> of its own.\<close>

definition raw_path_tail :: "uri \<Rightarrow> string \<Rightarrow> string option" where
  "raw_path_tail uri pre =
     (if uri_query uri \<noteq> None then None
      else
        (case strip_prefix pre (uri_path uri) of
           None \<Rightarrow> None
         | Some p \<Rightarrow> if p \<noteq> [] then Some p else None))"

definition pypi_raw_path_tail :: "uri \<Rightarrow> string \<Rightarrow> string option" where
  "pypi_raw_path_tail uri pre =
     (if uri_query uri \<noteq> None then None
      else
        (case strip_prefix pre (uri_path uri) of
           None \<Rightarrow> None
         | Some p \<Rightarrow> if p \<noteq> [] then Some p else None))"

definition npm_raw_path_tail :: "uri \<Rightarrow> string \<Rightarrow> string option" where
  "npm_raw_path_tail uri pre =
     (if uri_query uri \<noteq> None then None
      else
        (case strip_prefix pre (uri_path uri) of
           None \<Rightarrow> None
         | Some p \<Rightarrow> if p = [] then None else Some p))"

definition raw_download :: "uri \<Rightarrow> (string \<times> string) option" where
  "raw_download uri =
     (if uri_query uri \<noteq> None then None
      else
        (case strip_prefix ''/cargo/api/v1/crates/'' (uri_path uri) of
           None \<Rightarrow> None
         | Some rest \<Rightarrow>
             (case strip_suffix ''/download'' rest of
                None \<Rightarrow> None
              | Some p \<Rightarrow>
                  (case split_once_char slash p of
                     None \<Rightarrow> None
                   | Some (crate_name, version) \<Rightarrow>
                       if crate_name \<noteq> [] \<and> version \<noteq> [] \<and> slash \<notin> set version
                       then Some (crate_name, version) else None))))"

definition raw_project :: "uri \<Rightarrow> string option" where
  "raw_project uri =
     (if uri_query uri \<noteq> None then None
      else
        (case strip_prefix ''/pypi/simple/'' (uri_path uri) of
           None \<Rightarrow> None
         | Some rest \<Rightarrow>
             (case strip_suffix [slash] rest of
                None \<Rightarrow> None
              | Some project \<Rightarrow> if project \<noteq> [] \<and> slash \<notin> set project then Some project else None)))"

section \<open>Cargo\<close>

text \<open>\<^verbatim>\<open>serde_json\<close> prints an object of one member without spaces.\<close>

definition cargo_config :: "env \<Rightarrow> string \<Rightarrow> bytes" where
  "cargo_config E origin =
     ''{'' @ json_write_string (env_json E) ''dl'' @ '':''
     @ json_write_string (env_json E) (origin @ ''/cargo/api/v1/crates'') @ ''}''"

definition cargo_config_response :: "env \<Rightarrow> string \<Rightarrow> bool \<Rightarrow> response" where
  "cargo_config_response E origin head_only =
     (let body = cargo_config E origin in
      \<lparr>resp_status = 200,
       resp_headers = [CONTENT_TYPE \<mapsto> ''application/json'', CONTENT_LENGTH \<mapsto> decimal (length body)],
       resp_body = (if head_only then [] else body)\<rparr>)"

definition cargo_config_get :: "env \<Rightarrow> uri \<Rightarrow> service" where
  "cargo_config_get E uri =
     answer_now (if uri_query uri \<noteq> None then not_found else cargo_config_response E (env_public_base_url E) False)"

definition cargo_config_head :: "env \<Rightarrow> uri \<Rightarrow> service" where
  "cargo_config_head E uri =
     answer_now (if uri_query uri \<noteq> None then not_found else cargo_config_response E (env_public_base_url E) True)"

definition cargo_index_upstream :: "env \<Rightarrow> uri \<Rightarrow> url option" where
  "cargo_index_upstream E uri =
     Option.bind (raw_path_tail uri ''/cargo/index/'') (cargo_index_url (env_url E) (env_upstreams E))"

definition cargo_index_get :: "env \<Rightarrow> uri \<Rightarrow> service" where
  "cargo_index_get E uri =
     start_or_404 (map_option (\<lambda>u. metadata_call E False u UPSTREAM_CARGO_INDEX RewriteNone) (cargo_index_upstream E uri))"

definition cargo_index_head :: "env \<Rightarrow> uri \<Rightarrow> service" where
  "cargo_index_head E uri =
     start_or_404 (map_option (\<lambda>u. metadata_call E True u UPSTREAM_CARGO_INDEX RewriteNone) (cargo_index_upstream E uri))"

definition cargo_download_upstream :: "env \<Rightarrow> uri \<Rightarrow> url option" where
  "cargo_download_upstream E uri =
     Option.bind (raw_download uri)
       (\<lambda>(crate_name, version). cargo_download_url (env_url E) (env_upstreams E) crate_name version)"

definition cargo_download_get :: "env \<Rightarrow> uri \<Rightarrow> service" where
  "cargo_download_get E uri =
     start_or_404 (map_option (\<lambda>u. artifact_call E u UPSTREAM_CARGO_DOWNLOAD) (cargo_download_upstream E uri))"

definition cargo_download_head :: "env \<Rightarrow> network \<Rightarrow> uri \<Rightarrow> app \<Rightarrow> service \<times> app" where
  "cargo_download_head E net uri = head_or_404 E net (cargo_download_upstream E uri)"

section \<open>PyPI\<close>

definition pypi_root_upstream :: "env \<Rightarrow> uri \<Rightarrow> url option" where
  "pypi_root_upstream E uri =
     (if uri_query uri \<noteq> None then None else pypi_simple_url (env_url E) (env_upstreams E) None)"

definition pypi_project_upstream :: "env \<Rightarrow> uri \<Rightarrow> url option" where
  "pypi_project_upstream E uri =
     Option.bind (raw_project uri) (\<lambda>project. pypi_simple_url (env_url E) (env_upstreams E) (Some project))"

definition pypi_page_call :: "env \<Rightarrow> bool \<Rightarrow> url \<Rightarrow> call" where
  "pypi_page_call E head u = metadata_call E head u UPSTREAM_PYPI_SIMPLE (Pypi (env_public_base_url E))"

definition pypi_simple_root_get :: "env \<Rightarrow> uri \<Rightarrow> service" where
  "pypi_simple_root_get E uri = start_or_404 (map_option (pypi_page_call E False) (pypi_root_upstream E uri))"

definition pypi_simple_root_head :: "env \<Rightarrow> uri \<Rightarrow> service" where
  "pypi_simple_root_head E uri = start_or_404 (map_option (pypi_page_call E True) (pypi_root_upstream E uri))"

definition pypi_simple_project_get :: "env \<Rightarrow> uri \<Rightarrow> service" where
  "pypi_simple_project_get E uri = start_or_404 (map_option (pypi_page_call E False) (pypi_project_upstream E uri))"

definition pypi_simple_project_head :: "env \<Rightarrow> uri \<Rightarrow> service" where
  "pypi_simple_project_head E uri = start_or_404 (map_option (pypi_page_call E True) (pypi_project_upstream E uri))"

definition pypi_file_upstream :: "env \<Rightarrow> uri \<Rightarrow> url option" where
  "pypi_file_upstream E uri =
     Option.bind (pypi_raw_path_tail uri ''/pypi/files/'') (\<lambda>p. pypi_file_url (env_url E) p (env_upstreams E))"

definition pypi_file_get :: "env \<Rightarrow> uri \<Rightarrow> service" where
  "pypi_file_get E uri =
     start_or_404 (map_option (\<lambda>u. artifact_call E u UPSTREAM_PYPI_FILES) (pypi_file_upstream E uri))"

definition pypi_file_head :: "env \<Rightarrow> network \<Rightarrow> uri \<Rightarrow> app \<Rightarrow> service \<times> app" where
  "pypi_file_head E net uri = head_or_404 E net (pypi_file_upstream E uri)"

section \<open>npm\<close>

definition MAX_AUDIT_REQUEST_BODY_BYTES :: usize where
  "MAX_AUDIT_REQUEST_BODY_BYTES = 8388608"

definition npm_packument_upstream :: "env \<Rightarrow> uri \<Rightarrow> url option" where
  "npm_packument_upstream E uri =
     Option.bind (npm_raw_path_tail uri ''/npm/'') (npm_packument_url (env_url E) (env_upstreams E))"

definition npm_packument_call :: "env \<Rightarrow> bool \<Rightarrow> url \<Rightarrow> call" where
  "npm_packument_call E head u = metadata_call E head u UPSTREAM_NPM (Npm (env_public_base_url E))"

definition npm_packument_get :: "env \<Rightarrow> uri \<Rightarrow> service" where
  "npm_packument_get E uri = start_or_404 (map_option (npm_packument_call E False) (npm_packument_upstream E uri))"

definition npm_packument_head :: "env \<Rightarrow> uri \<Rightarrow> service" where
  "npm_packument_head E uri = start_or_404 (map_option (npm_packument_call E True) (npm_packument_upstream E uri))"

definition npm_tarball_upstream :: "env \<Rightarrow> uri \<Rightarrow> url option" where
  "npm_tarball_upstream E uri =
     Option.bind (npm_raw_path_tail uri ''/npm/tarballs/'') (\<lambda>p. npm_tarball_url (env_url E) p (env_upstreams E))"

definition npm_tarball_get :: "env \<Rightarrow> uri \<Rightarrow> service" where
  "npm_tarball_get E uri =
     start_or_404 (map_option (\<lambda>u. artifact_call E u UPSTREAM_NPM) (npm_tarball_upstream E uri))"

definition npm_tarball_head :: "env \<Rightarrow> network \<Rightarrow> uri \<Rightarrow> app \<Rightarrow> service \<times> app" where
  "npm_tarball_head E net uri = head_or_404 E net (npm_tarball_upstream E uri)"

text \<open>
  The requests that pass through: one counter, an upstream permit until the handler returns, and the
  answer with the memory its body holds.
\<close>

definition search_parameters :: "string list" where
  "search_parameters = [''text'', ''size'', ''from'', ''quality'', ''popularity'', ''maintenance'']"

definition passed :: "(response \<times> reservation) io_result \<Rightarrow> response \<times> reservation" where
  "passed r = (case r of Inr x \<Rightarrow> x | Inl e \<Rightarrow> (request_failed_response e, None))"

definition with_permit :: "(app \<Rightarrow> service \<times> app) \<Rightarrow> app \<Rightarrow> service \<times> app" where
  "with_permit m a =
     (case on_store try_acquire_upstream_permit a of
        (Inl e, b) \<Rightarrow> (answer_now (request_failed_response e), b)
      | (Inr _, b) \<Rightarrow> (case m b of (x, c) \<Rightarrow> (x, on_app_store release_upstream_permit c)))"

definition npm_search :: "env \<Rightarrow> network \<Rightarrow> string \<Rightarrow> uri \<Rightarrow> app \<Rightarrow> service \<times> app" where
  "npm_search E net verb uri a =
     (if uri_path uri \<noteq> ''/npm/-/v1/search'' then (answer_now not_found, a)
      else
        (case join_url (env_url E) (npm (env_upstreams E)) ''-/v1/search'' of
           None \<Rightarrow> (Panicked, a)
         | Some u \<Rightarrow>
             (let upstream = lib_set_query (env_url E) u (uri_query uri) in
              if list_ex (\<lambda>(name, _). name \<notin> set search_parameters) (lib_query_pairs (env_url E) upstream)
              then (answer_now not_found, a)
              else
                with_permit (\<lambda>b.
                  (case handle_npm_request E net (get_request upstream) b of
                     (r, c) \<Rightarrow>
                       (case passed r of
                          (response, res) \<Rightarrow>
                            if verb = ''HEAD''
                            then (answer_now (response_without_body response), drop_reservation res c)
                            else (Answered response res, c))))
                  (snd (count_event record_npm_search_request a)))))"

definition audit_path :: "string \<Rightarrow> string option" where
  "audit_path p =
     (if p = ''/npm/-/npm/v1/security/advisories/bulk'' then Some ''-/npm/v1/security/advisories/bulk''
      else if p = ''/npm/-/npm/v1/security/audits/quick'' then Some ''-/npm/v1/security/audits/quick''
      else None)"

definition audit_headers :: "header_list \<Rightarrow> (string \<times> string) list" where
  "audit_headers headers =
     List.map_filter (\<lambda>name. map_option (\<lambda>v. (name, v)) (map_of headers name)) [''content-type'', ''content-encoding'']"

definition npm_audit ::
  "env \<Rightarrow> network \<Rightarrow> ('body \<Rightarrow> usize \<Rightarrow> string + bytes) \<Rightarrow> uri \<Rightarrow> header_list \<Rightarrow> 'body \<Rightarrow> app \<Rightarrow> service \<times> app" where
  "npm_audit E net to_bytes uri headers body a =
     (case audit_path (uri_path uri) of
        None \<Rightarrow> (answer_now not_found, a)
      | Some p \<Rightarrow>
          if uri_query uri \<noteq> None then (answer_now not_found, a)
          else
            with_permit (\<lambda>b.
              (case to_bytes body MAX_AUDIT_REQUEST_BODY_BYTES of
                 Inl e \<Rightarrow> (answer_now (simple_response 400 ''text/plain; charset=utf-8'' e), b)
               | Inr content \<Rightarrow>
                   (case join_url (env_url E) (npm (env_upstreams E)) p of
                      None \<Rightarrow> (Panicked, b)
                    | Some upstream \<Rightarrow>
                        (case handle_npm_request E net
                                \<lparr>ur_method = ''POST'', ur_url = upstream, ur_headers = audit_headers headers,
                                 ur_body = Some content\<rparr> b of
                           (r, c) \<Rightarrow> (case passed r of (response, res) \<Rightarrow> (Answered response res, c))))))
              (snd (count_event record_npm_audit_request a)))"

section \<open>Routers\<close>

datatype endpoint =
    Cargo_config_get | Cargo_config_head | Cargo_index_get | Cargo_index_head
  | Cargo_download_get | Cargo_download_head
  | Pypi_simple_root_get | Pypi_simple_root_head | Pypi_simple_project_get | Pypi_simple_project_head
  | Pypi_file_get | Pypi_file_head
  | Npm_search | Npm_audit | Npm_tarball_get | Npm_tarball_head | Npm_packument_get | Npm_packument_head

type_synonym routes = "(string \<times> (string \<times> endpoint) list) list"

definition cargo_router :: routes where
  "cargo_router =
     [(''/cargo/index/config.json'', [(''GET'', Cargo_config_get), (''HEAD'', Cargo_config_head)]),
      (''/cargo/index/{*path}'', [(''GET'', Cargo_index_get), (''HEAD'', Cargo_index_head)]),
      (''/cargo/api/v1/crates/{crate_name}/{version}/download'',
         [(''GET'', Cargo_download_get), (''HEAD'', Cargo_download_head)])]"

definition pypi_router :: routes where
  "pypi_router =
     [(''/pypi/simple/'', [(''GET'', Pypi_simple_root_get), (''HEAD'', Pypi_simple_root_head)]),
      (''/pypi/simple/{project}/'', [(''GET'', Pypi_simple_project_get), (''HEAD'', Pypi_simple_project_head)]),
      (''/pypi/files/{*path}'', [(''GET'', Pypi_file_get), (''HEAD'', Pypi_file_head)])]"

definition npm_router :: routes where
  "npm_router =
     [(''/npm/-/v1/search'', [(''GET'', Npm_search)]),
      (''/npm/-/npm/v1/security/advisories/bulk'', [(''POST'', Npm_audit)]),
      (''/npm/-/npm/v1/security/audits/quick'', [(''POST'', Npm_audit)]),
      (''/npm/tarballs/{*path}'', [(''GET'', Npm_tarball_get), (''HEAD'', Npm_tarball_head)]),
      (''/npm/{*package}'', [(''GET'', Npm_packument_get), (''HEAD'', Npm_packument_head)])]"

text \<open>What the router answers: a handler of the table, the fallback, or a refusal of its own.\<close>

datatype routed = Matched endpoint | Fallback | Refused response

type_synonym router = "routes \<Rightarrow> string \<Rightarrow> string \<Rightarrow> routed"

fun serve_endpoint ::
  "env \<Rightarrow> network \<Rightarrow> ('body \<Rightarrow> usize \<Rightarrow> string + bytes) \<Rightarrow> endpoint \<Rightarrow> string \<Rightarrow> uri \<Rightarrow> header_list \<Rightarrow> 'body
     \<Rightarrow> app \<Rightarrow> service \<times> app" where
  "serve_endpoint E net tb Cargo_config_get verb uri headers body a = (cargo_config_get E uri, a)"
| "serve_endpoint E net tb Cargo_config_head verb uri headers body a = (cargo_config_head E uri, a)"
| "serve_endpoint E net tb Cargo_index_get verb uri headers body a = (cargo_index_get E uri, a)"
| "serve_endpoint E net tb Cargo_index_head verb uri headers body a = (cargo_index_head E uri, a)"
| "serve_endpoint E net tb Cargo_download_get verb uri headers body a = (cargo_download_get E uri, a)"
| "serve_endpoint E net tb Cargo_download_head verb uri headers body a = cargo_download_head E net uri a"
| "serve_endpoint E net tb Pypi_simple_root_get verb uri headers body a = (pypi_simple_root_get E uri, a)"
| "serve_endpoint E net tb Pypi_simple_root_head verb uri headers body a = (pypi_simple_root_head E uri, a)"
| "serve_endpoint E net tb Pypi_simple_project_get verb uri headers body a = (pypi_simple_project_get E uri, a)"
| "serve_endpoint E net tb Pypi_simple_project_head verb uri headers body a = (pypi_simple_project_head E uri, a)"
| "serve_endpoint E net tb Pypi_file_get verb uri headers body a = (pypi_file_get E uri, a)"
| "serve_endpoint E net tb Pypi_file_head verb uri headers body a = pypi_file_head E net uri a"
| "serve_endpoint E net tb Npm_search verb uri headers body a = npm_search E net verb uri a"
| "serve_endpoint E net tb Npm_audit verb uri headers body a = npm_audit E net tb uri headers body a"
| "serve_endpoint E net tb Npm_tarball_get verb uri headers body a = (npm_tarball_get E uri, a)"
| "serve_endpoint E net tb Npm_tarball_head verb uri headers body a = npm_tarball_head E net uri a"
| "serve_endpoint E net tb Npm_packument_get verb uri headers body a = (npm_packument_get E uri, a)"
| "serve_endpoint E net tb Npm_packument_head verb uri headers body a = (npm_packument_head E uri, a)"

definition pkg_router ::
  "router \<Rightarrow> env \<Rightarrow> network \<Rightarrow> ('body \<Rightarrow> usize \<Rightarrow> string + bytes) \<Rightarrow> string \<Rightarrow> uri \<Rightarrow> header_list \<Rightarrow> 'body
     \<Rightarrow> app \<Rightarrow> service \<times> app" where
  "pkg_router select E net tb verb uri headers body a =
     (case select (cargo_router @ pypi_router @ npm_router) verb (uri_path uri) of
        Matched endpoint \<Rightarrow> serve_endpoint E net tb endpoint verb uri headers body a
      | Fallback \<Rightarrow> (answer_now not_found, a)
      | Refused response \<Rightarrow> (answer_now response, a))"

definition git_router ::
  "env \<Rightarrow> network \<Rightarrow> ('body \<Rightarrow> usize \<Rightarrow> string + bytes) \<Rightarrow> string \<Rightarrow> uri \<Rightarrow> header_list \<Rightarrow> 'body \<Rightarrow> app
     \<Rightarrow> git_reply \<times> app" where
  "git_router = git_request"

definition management_stats :: "app \<Rightarrow> response" where
  "management_stats a =
     simple_response 200 ''text/plain; version=0.0.4; charset=utf-8'' (render_prometheus (app_stats a))"

datatype management_routed = Stats_endpoint | Management_fallback | Management_refused response

definition management_router ::
  "((string \<times> string) list \<Rightarrow> string \<Rightarrow> string \<Rightarrow> management_routed) \<Rightarrow> string \<Rightarrow> uri \<Rightarrow> app \<Rightarrow> response" where
  "management_router select verb uri a =
     (case select [(''/stats'', ''GET'')] verb (uri_path uri) of
        Stats_endpoint \<Rightarrow> management_stats a
      | Management_fallback \<Rightarrow> not_found
      | Management_refused response \<Rightarrow> response)"

section \<open>Lemmas\<close>

subsection \<open>Upstreams\<close>

text \<open>The calls the handlers may start: the counter, the kind, the rewriting and the registry.\<close>

definition registry_table :: "env \<Rightarrow> (string \<times> bool \<times> metadata_rewrite \<times> url) list" where
  "registry_table E =
     [(UPSTREAM_CARGO_INDEX, False, RewriteNone, cargo_index (env_upstreams E)),
      (UPSTREAM_CARGO_DOWNLOAD, True, RewriteNone, cargo_download (env_upstreams E)),
      (UPSTREAM_PYPI_SIMPLE, False, Pypi (env_public_base_url E), pypi_simple (env_upstreams E)),
      (UPSTREAM_PYPI_FILES, True, RewriteNone, pypi_files (env_upstreams E)),
      (UPSTREAM_NPM, True, RewriteNone, npm (env_upstreams E)),
      (UPSTREAM_NPM, False, Npm (env_public_base_url E), npm (env_upstreams E))]"

definition registry_call :: "env \<Rightarrow> call \<Rightarrow> bool" where
  "registry_call E c \<longleftrightarrow>
     list_ex (\<lambda>(label, artifact, rewrite, base).
         stays_on (env_url E) base (call_upstream c)
         \<and> c = (if artifact then artifact_call E (call_upstream c) label
                else metadata_call E (call_head c) (call_upstream c) label rewrite))
       (registry_table E)"

text \<open>The calls of the handlers are those the system admits.\<close>

lemma calls_made_by: "made_by E (artifact_call E u label)" "made_by E (metadata_call E head u label rewrite)"
  by (simp_all add: made_by_def artifact_call_def metadata_call_def)

lemma registry_made:
  assumes "registry_call E c"
  shows "made_by E c"
proof -
  obtain label artifact rewrite where "c = (if artifact then artifact_call E (call_upstream c) label
      else metadata_call E (call_head c) (call_upstream c) label rewrite)"
    using assms by (auto simp only: registry_call_def list_ex_iff)
  then show ?thesis
    using calls_made_by by metis
qed

lemmas upstream_defs =
  cargo_index_upstream_def cargo_download_upstream_def pypi_root_upstream_def pypi_project_upstream_def
  pypi_file_upstream_def npm_packument_upstream_def npm_tarball_upstream_def

lemma upstreams_confined:
  "cargo_index_upstream E uri = Some u \<Longrightarrow> stays_on (env_url E) (cargo_index (env_upstreams E)) u"
  "cargo_download_upstream E uri = Some u \<Longrightarrow> stays_on (env_url E) (cargo_download (env_upstreams E)) u"
  "pypi_root_upstream E uri = Some u \<Longrightarrow> stays_on (env_url E) (pypi_simple (env_upstreams E)) u"
  "pypi_project_upstream E uri = Some u \<Longrightarrow> stays_on (env_url E) (pypi_simple (env_upstreams E)) u"
  "pypi_file_upstream E uri = Some u \<Longrightarrow> stays_on (env_url E) (pypi_files (env_upstreams E)) u"
  "npm_packument_upstream E uri = Some u \<Longrightarrow> stays_on (env_url E) (npm (env_upstreams E)) u"
  "npm_tarball_upstream E uri = Some u \<Longrightarrow> stays_on (env_url E) (npm (env_upstreams E)) u"
  using index_route.builder_confined download_route.builder_confined [where x = "(c, v)" for c v, simplified]
    simple_route.builder_confined file_route.builder_confined tarball_route.builder_confined
    packument_route.builder_confined
  by (auto simp: upstream_defs bind_eq_Some_conv split: if_splits)

lemma join_url_confined: "join_url L base p = Some u \<Longrightarrow> stays_on L base u"
  by (drule join_url_below) (auto simp: below_def matches_origin_def stays_on_def)

lemma upstreams_no_query:
  "cargo_index_upstream E uri = Some u \<Longrightarrow> uri_query uri = None"
  "cargo_download_upstream E uri = Some u \<Longrightarrow> uri_query uri = None"
  "pypi_root_upstream E uri = Some u \<Longrightarrow> uri_query uri = None"
  "pypi_project_upstream E uri = Some u \<Longrightarrow> uri_query uri = None"
  "pypi_file_upstream E uri = Some u \<Longrightarrow> uri_query uri = None"
  "npm_packument_upstream E uri = Some u \<Longrightarrow> uri_query uri = None"
  "npm_tarball_upstream E uri = Some u \<Longrightarrow> uri_query uri = None"
  by (auto simp: upstream_defs bind_eq_Some_conv raw_path_tail_def pypi_raw_path_tail_def npm_raw_path_tail_def raw_download_def
      raw_project_def split: if_splits)

lemma start_or_404_Started: "start_or_404 c = Started d \<longleftrightarrow> c = Some d"
  by (cases c) (simp_all add: start_or_404_def answer_now_def)

text \<open>Only the handlers that start a call do so, and they leave the state alone.\<close>

lemmas starting_defs =
  cargo_config_get_def cargo_config_head_def cargo_index_get_def cargo_index_head_def cargo_download_get_def
  pypi_simple_root_get_def pypi_simple_root_head_def pypi_simple_project_get_def pypi_simple_project_head_def
  pypi_file_get_def npm_packument_get_def npm_packument_head_def npm_tarball_get_def

lemmas heading_defs = cargo_download_head_def pypi_file_head_def npm_tarball_head_def

lemma head_or_404_Started: "fst (head_or_404 E net u a) \<noteq> Started c"
  by (simp add: head_or_404_def answer_now_def split: option.split prod.split)

lemma with_permit_Started: "(\<And>b. fst (m b) \<noteq> Started c) \<Longrightarrow> fst (with_permit m a) \<noteq> Started c"
  by (auto simp: with_permit_def answer_now_def split: prod.splits sum.splits) (metis fst_conv)

lemma npm_Started: "fst (npm_search E net verb uri a) \<noteq> Started c" "fst (npm_audit E net tb uri headers body a) \<noteq> Started c"
proof -
  show "fst (npm_search E net verb uri a) \<noteq> Started c"
    by (auto simp: npm_search_def answer_now_def Let_def split: option.split intro!: with_permit_Started)
      (auto simp: answer_now_def split: prod.splits if_splits)
  show "fst (npm_audit E net tb uri headers body a) \<noteq> Started c"
    by (auto simp: npm_audit_def answer_now_def split: option.split intro!: with_permit_Started)
      (auto simp: answer_now_def split: option.splits sum.splits prod.splits)
qed

lemma registry_calls:
  fixes E :: env
  defines "ups \<equiv> env_upstreams E"
  shows "stays_on (env_url E) (cargo_index ups) u \<Longrightarrow> registry_call E (metadata_call E h u UPSTREAM_CARGO_INDEX RewriteNone)"
    and "stays_on (env_url E) (cargo_download ups) u \<Longrightarrow> registry_call E (artifact_call E u UPSTREAM_CARGO_DOWNLOAD)"
    and "stays_on (env_url E) (pypi_simple ups) u \<Longrightarrow> registry_call E (pypi_page_call E h u)"
    and "stays_on (env_url E) (pypi_files ups) u \<Longrightarrow> registry_call E (artifact_call E u UPSTREAM_PYPI_FILES)"
    and "stays_on (env_url E) (npm ups) u \<Longrightarrow> registry_call E (artifact_call E u UPSTREAM_NPM)"
    and "stays_on (env_url E) (npm ups) u \<Longrightarrow> registry_call E (npm_packument_call E h u)"
  unfolding ups_def
  by (simp_all add: registry_call_def registry_table_def metadata_call_def artifact_call_def pypi_page_call_def
      npm_packument_call_def)

lemma serve_endpoint_Started:
  assumes "serve_endpoint E net tb endpoint verb uri headers body a = (Started c, b)"
  shows "b = a \<and> uri_query uri = None \<and> registry_call E c"
proof -
  have no: "\<And>m. fst m \<noteq> Started c \<Longrightarrow> m \<noteq> (Started c, b)" by auto
  note impossible = head_or_404_Started [THEN no] npm_Started [THEN no]
  show ?thesis
    using assms
    by (cases endpoint)
      (auto simp: starting_defs heading_defs start_or_404_Started answer_now_def impossible
        dest: upstreams_no_query intro: registry_calls upstreams_confined)
qed

lemma registry_call_key:
  assumes "registry_call E d"
  shows "(call_artifact d \<longrightarrow> call_rewrite d = RewriteNone)
    \<and> call_key d = hash_key (env_digest E) (if call_artifact d then ''artifact'' else ''metadata'')
        (lib_as_str (env_url E) (call_upstream d))
        (if call_artifact d then None else Some (cache_identity (call_rewrite d)))"
proof -
  obtain label artifact rewrite u head where
    d: "d = (if artifact then artifact_call E u label else metadata_call E head u label rewrite)"
    using assms unfolding registry_call_def list_ex_iff by blast
  show ?thesis
    unfolding d by (simp add: artifact_call_def metadata_call_def artifact_key_def metadata_key_def)
qed

subsection \<open>Requests\<close>

text \<open>
  The requests the handlers may send themselves: the header of an artifact, a search, and an audit with
  nothing of the client's but the body and how it is encoded.
\<close>

definition own_request :: "env \<Rightarrow> upstream_request \<Rightarrow> bool" where
  "own_request E r \<longleftrightarrow>
     (ur_method r = ''HEAD'' \<and> ur_headers r = [] \<and> ur_body r = None
      \<and> list_ex (\<lambda>base. stays_on (env_url E) base (ur_url r))
          [cargo_download (env_upstreams E), pypi_files (env_upstreams E), npm (env_upstreams E)])
     \<or> (ur_method r = ''GET'' \<and> ur_headers r = [] \<and> ur_body r = None
        \<and> (\<exists>u q. stays_on (env_url E) (npm (env_upstreams E)) u \<and> ur_url r = lib_set_query (env_url E) u q
             \<and> list_all (\<lambda>(name, _). name \<in> set search_parameters) (lib_query_pairs (env_url E) (ur_url r))))
     \<or> (ur_method r = ''POST'' \<and> set (map fst (ur_headers r)) \<subseteq> {''content-type'', ''content-encoding''}
        \<and> stays_on (env_url E) (npm (env_upstreams E)) (ur_url r)
        \<and> (\<exists>content. ur_body r = Some content \<and> length content \<le> 8388608))"

definition same_answers :: "env \<Rightarrow> network \<Rightarrow> network \<Rightarrow> bool" where
  "same_answers E net net' \<longleftrightarrow> (\<forall>r. own_request E r \<longrightarrow> net r = net' r)"

lemma head_or_404_same:
  assumes "same_answers E net net'" and "u = None \<or> (\<exists>v. u = Some v \<and>
     list_ex (\<lambda>base. stays_on (env_url E) base v)
          [cargo_download (env_upstreams E), pypi_files (env_upstreams E), npm (env_upstreams E)])"
  shows "head_or_404 E net u a = head_or_404 E net' u a"
proof (cases u)
  case (Some v)
  let ?r = "(get_request v)\<lparr>ur_method := ''HEAD''\<rparr>"
  have "own_request E ?r"
    using assms(2) Some by (auto simp: own_request_def get_request_def)
  then have "send_request net ?r = send_request net' ?r"
    using assms(1) by (simp add: same_answers_def send_request_def)
  then show ?thesis
    by (simp add: head_or_404_def handle_artifact_head_def Some)
qed (simp add: head_or_404_def)

lemma npm_request_same:
  "same_answers E net net' \<Longrightarrow> own_request E r \<Longrightarrow> handle_npm_request E net r = handle_npm_request E net' r"
  by (simp add: handle_npm_request_def send_request_def same_answers_def)

lemma npm_search_same:
  assumes "same_answers E net net'"
  shows "npm_search E net verb uri a = npm_search E net' verb uri a"
proof -
  have "handle_npm_request E net (get_request v) = handle_npm_request E net' (get_request v)"
    if "join_url (env_url E) (npm (env_upstreams E)) ''-/v1/search'' = Some u"
      "v = lib_set_query (env_url E) u (uri_query uri)"
      "\<not> list_ex (\<lambda>(name, _). name \<notin> set search_parameters) (lib_query_pairs (env_url E) v)" for u v
    using that join_url_confined [OF that(1)]
    by (intro npm_request_same [OF assms]) (auto simp: own_request_def get_request_def list_ex_iff list_all_iff)
  then show ?thesis
    by (simp add: npm_search_def Let_def split: option.split)
qed

lemma audit_headers_names: "set (map fst (audit_headers headers)) \<subseteq> {''content-type'', ''content-encoding''}"
  by (auto simp: audit_headers_def map_filter_simps split: option.splits)

lemma npm_audit_same:
  assumes "same_answers E net net'" and "limits_body tb"
  shows "npm_audit E net tb uri headers body a = npm_audit E net' tb uri headers body a"
proof -
  have "handle_npm_request E net \<lparr>ur_method = ''POST'', ur_url = u, ur_headers = audit_headers headers, ur_body = Some content\<rparr>
      = handle_npm_request E net' \<lparr>ur_method = ''POST'', ur_url = u, ur_headers = audit_headers headers, ur_body = Some content\<rparr>"
    if "join_url (env_url E) (npm (env_upstreams E)) p = Some u" "tb body MAX_AUDIT_REQUEST_BODY_BYTES = Inr content"
    for p u content
    using join_url_confined [OF that(1)] limits_bodyD [OF assms(2) that(2)] audit_headers_names [of headers]
    by (intro npm_request_same [OF assms(1)]) (simp add: own_request_def MAX_AUDIT_REQUEST_BODY_BYTES_def)
  then show ?thesis
    by (cases "tb body MAX_AUDIT_REQUEST_BODY_BYTES")
      (auto simp: npm_audit_def intro!: arg_cong [of _ _ "\<lambda>m. with_permit m _"] ext split: option.split)
qed

lemma serve_endpoint_same:
  assumes "same_answers E net net'" and "limits_body tb"
  shows "serve_endpoint E net tb endpoint verb uri headers body a = serve_endpoint E net' tb endpoint verb uri headers body a"
proof -
  note heads = head_or_404_same [OF assms(1)]
  have "cargo_download_head E net uri a = cargo_download_head E net' uri a"
    unfolding cargo_download_head_def by (intro heads) (cases "cargo_download_upstream E uri"; auto dest: upstreams_confined)
  moreover have "pypi_file_head E net uri a = pypi_file_head E net' uri a"
    unfolding pypi_file_head_def by (intro heads) (cases "pypi_file_upstream E uri"; auto dest: upstreams_confined)
  moreover have "npm_tarball_head E net uri a = npm_tarball_head E net' uri a"
    unfolding npm_tarball_head_def by (intro heads) (cases "npm_tarball_upstream E uri"; auto dest: upstreams_confined)
  ultimately show ?thesis
    using npm_search_same [OF assms(1)] npm_audit_same [OF assms] by (cases endpoint) simp_all
qed

lemma pkg_router_Started:
  assumes "pkg_router select E net tb verb uri headers body a = (Started c, b)"
  shows "b = a \<and> uri_query uri = None \<and> registry_call E c"
  using assms serve_endpoint_Started [of E net tb _ verb uri headers body a]
  by (auto simp: pkg_router_def answer_now_def split: routed.splits)

subsection \<open>Permits\<close>

text \<open>Everything of the store but the memory permits.\<close>

definition rest :: "app \<Rightarrow> store" where
  "rest a = (app_store a)\<lparr>st_memory_permits := 0\<rparr>"

abbreviation pair_rest :: "app \<times> reservation \<Rightarrow> store" where
  "pair_rest p \<equiv> rest (fst p)"

lemma still_rest_reserve [intro, simp]: "still pair_rest (reserve_more n)"
  by (rule stillI) (auto simp: reserve_more_def reserve_unfold rest_def split: prod.split)

lemma still_rest_body [intro, simp]: "still pair_rest (read_metadata_body resp)"
proof -
  have "still pair_rest (read_metadata_chunks cs body)" for cs body
    by (induction cs arbitrary: body) (auto intro!: still_bind)
  then show ?thesis
    unfolding read_metadata_body_def Let_def by (intro still_bind still_lift still_rest_reserve)
qed

definition held_by :: "service \<Rightarrow> reservation" where
  "held_by x = (case x of Answered _ res \<Rightarrow> res | _ \<Rightarrow> None)"

text \<open>What a handler may do to the permits: nothing, apart from the memory that goes with its answer.\<close>

definition returns_permits :: "(app \<Rightarrow> service \<times> app) \<Rightarrow> bool" where
  "returns_permits m \<longleftrightarrow>
     (\<forall>a. case m a of (x, b) \<Rightarrow> memory b + held (held_by x) = memory a \<and> app_table b = app_table a)"

lemma returns_permitsI:
  "(\<And>a x b. m a = (x, b) \<Longrightarrow> memory b + held (held_by x) = memory a \<and> app_table b = app_table a) \<Longrightarrow> returns_permits m"
  by (simp add: returns_permits_def split: prod.split)

lemma returns_permitsD:
  "returns_permits m \<Longrightarrow> m a = (x, b) \<Longrightarrow> memory b + held (held_by x) = memory a \<and> app_table b = app_table a"
  unfolding returns_permits_def by (drule spec [of _ a]) simp

lemma held_by_simps [simp]:
  "held_by (answer_now r) = None" "held_by (Answered r res) = res" "held_by (Started c) = None" "held_by Panicked = None"
  by (simp_all add: held_by_def answer_now_def)

lemma held_None [simp]: "held None = 0"
  by (simp add: held_def)

lemma rest_table: "rest b = rest a \<Longrightarrow> app_table b = app_table a"
proof -
  have "app_table x = table (rest x)" for x
    by (simp add: app_table_def table_def rest_def)
  then show "rest b = rest a \<Longrightarrow> app_table b = app_table a"
    by simp
qed

lemma rest_drop_reservation: "rest (drop_reservation res a) = rest a"
  by (simp add: rest_def drop_reservation_def release_reservation_def)

lemma memory_drop_reservation: "memory (drop_reservation res a) = memory a + held res"
  by (simp add: memory_def drop_reservation_def release_reservation_def)

lemma with_reservation_rest:
  assumes "still pair_rest m" and "with_reservation m a = (r, b)"
  shows "rest b = rest a"
proof -
  obtain y c q where m: "m (a, None) = (y, (c, q))"
    by (metis prod.collapse)
  have "rest c = rest a"
    using stillD [OF assms(1) m] by simp
  then show ?thesis
    using assms(2) m by (cases y) (auto simp: with_reservation_def rest_drop_reservation)
qed

lemma npm_request_effect:
  assumes "handle_npm_request E net r a = (x, b)"
  shows "memory b + held (snd (passed x)) = memory a" and "rest b = rest a"
proof -
  let ?m = "\<lambda>resp. io_bind (read_metadata_body resp) (\<lambda>body. io_return
      (bytes_response (env_http E)
         (meta_for_bytes (env_http E) (up_status resp) (up_headers resp) (of_nat (length body)) True) body))"
  have still: "still budget (?m resp)" "still pair_rest (?m resp)" for resp
    by (intro still_bind still_budget_body still_rest_body still_return)+
  have run: "handle_npm_request E net r a =
      (case net r of Inl e \<Rightarrow> (Inl (other_error e), a) | Inr resp \<Rightarrow> with_reservation (?m resp) a)"
    by (cases "net r") (simp_all add: handle_npm_request_def io_bind_def [of "io_lift _"] io_simps send_request_def)
  consider (failed) e where "b = a" "x = Inl (other_error e)"
    | (answered) resp where "with_reservation (?m resp) a = (x, b)"
    using assms unfolding run by (cases "net r") (simp_all, metis)
  then show "memory b + held (snd (passed x)) = memory a" and "rest b = rest a"
  proof (atomize (full), cases)
    case answered
    have "rest b = rest a"
      by (rule with_reservation_rest [OF still(2) answered])
    moreover have "memory b + held (snd (passed x)) = memory a"
      using with_reservation_memory [OF still(1) answered]
      by (cases x) (auto simp: passed_def split: prod.splits)
    ultimately show "memory b + held (snd (passed x)) = memory a \<and> rest b = rest a" by blast
  qed (simp add: passed_def)
qed

lemma returns_pure: "returns_permits (\<lambda>a. (x, a))" if "held_by x = None"
  using that by (simp add: returns_permits_def)

lemma acquire_release:
  assumes "on_store try_acquire_upstream_permit a = (Inr u, b)" and "app_table c = app_table b"
  shows "app_table (on_app_store release_upstream_permit c) = app_table a"
  using assms
  by (auto simp: io_simps try_acquire_upstream_permit_def app_table_def table_def on_app_store_def release_upstream_permit_def
      split: if_splits)

lemma acquire_memory:
  "on_store try_acquire_upstream_permit a = (r, b) \<Longrightarrow> memory b = memory a"
  "on_store try_acquire_upstream_permit a = (Inl e, b) \<Longrightarrow> app_table b = app_table a"
  "memory (on_app_store release_upstream_permit c) = memory c"
  by (auto simp: io_simps try_acquire_upstream_permit_def memory_def app_table_def table_def on_app_store_def
      release_upstream_permit_def split: if_splits)

lemma returns_with_permit:
  assumes "returns_permits m"
  shows "returns_permits (with_permit m)"
proof (rule returns_permitsI)
  fix a x b assume run: "with_permit m a = (x, b)"
  obtain r c where acquired: "on_store try_acquire_upstream_permit a = (r, c)" by force
  show "memory b + held (held_by x) = memory a \<and> app_table b = app_table a"
  proof (cases r)
    case (Inl e)
    then show ?thesis
      using run acquired acquire_memory(1,2) by (auto simp: with_permit_def)
  next
    case (Inr u)
    obtain y d where m: "m c = (y, d)" by force
    have "x = y" "b = on_app_store release_upstream_permit d"
      using run acquired Inr m by (simp_all add: with_permit_def)
    then show ?thesis
      using returns_permitsD [OF assms m] acquire_memory(1) [OF acquired] acquire_memory(3)
        acquire_release [OF acquired [unfolded Inr]] by simp
  qed
qed

lemma returns_head_or_404: "returns_permits (head_or_404 E net u)"
proof (rule returns_permitsI)
  fix a x b assume run: "head_or_404 E net u a = (x, b)"
  show "memory b + held (held_by x) = memory a \<and> app_table b = app_table a"
  proof (cases u)
    case (Some v)
    let ?key = "artifact_key (env_digest E) (lib_as_str (env_url E) v)"
    let ?send = "send_request net ((get_request v)\<lparr>ur_method := ''HEAD''\<rparr>)"
    obtain r where head: "handle_artifact_head E net v a = (r, b)" and x: "held_by x = None"
      using run Some by (auto simp: head_or_404_def split: prod.splits)
    obtain h c where load: "on_store (load (env_codec E) ?key) a = (h, c)" by force
    have c: "memory c = memory a" "app_table c = app_table a"
      using stillD [OF still_memory_on_store [OF still_load] load] stillD [OF still_app_store [OF still_load] load] by auto
    consider (plain) "b = c"
      | (asked) d where "on_store try_acquire_upstream_permit c = (Inr (), d)" "b = on_app_store release_upstream_permit d"
      | (refused) e where "on_store try_acquire_upstream_permit c = (Inl e, b)"
    proof (cases h)
      case (Inr hit)
      obtain q d where q: "on_store try_acquire_upstream_permit c = (q, d)" by force
      show ?thesis
        using head load Inr q that
        by (cases hit; cases q; cases ?send)
          (auto simp: handle_artifact_head_def Let_def io_bind_def io_try_def io_return_apply io_lift_apply)
    qed (use head load that in \<open>simp add: handle_artifact_head_def Let_def io_bind_def\<close>)
    then have "memory b = memory c \<and> app_table b = app_table c"
      using acquire_memory acquire_release by cases auto
    then show ?thesis
      using c x by simp
  qed (use run in \<open>auto simp: head_or_404_def\<close>)
qed

lemma returns_counted: "returns_permits m \<Longrightarrow> returns_permits (\<lambda>a. m (snd (count_event f a)))"
proof (rule returns_permitsI)
  fix a x b assume "returns_permits m" "m (snd (count_event f a)) = (x, b)"
  from returns_permitsD [OF this] show "memory b + held (held_by x) = memory a \<and> app_table b = app_table a"
    by (simp add: count_event_def memory_def app_table_def)
qed

lemma returns_if:
  "(c \<Longrightarrow> returns_permits m) \<Longrightarrow> (\<not> c \<Longrightarrow> returns_permits n) \<Longrightarrow> returns_permits (\<lambda>a. if c then m a else n a)"
  by (cases c) simp_all

text \<open>A handler's request to npm: the memory is in the answer, or dropped with its body.\<close>

lemma returns_npm_request:
  "returns_permits (\<lambda>b. case handle_npm_request E net r b of (x, c) \<Rightarrow>
     (case passed x of (response, res) \<Rightarrow>
        if discard then (answer_now (response_without_body response), drop_reservation res c)
        else (Answered response res, c)))"
proof (rule returns_permitsI)
  fix a y b
  obtain x c response res where run: "handle_npm_request E net r a = (x, c)" and p: "passed x = (response, res)"
    by (metis prod.collapse)
  note effect = npm_request_effect [OF run]
  assume "(case handle_npm_request E net r a of (x, c) \<Rightarrow>
     (case passed x of (response, res) \<Rightarrow>
        if discard then (answer_now (response_without_body response), drop_reservation res c)
        else (Answered response res, c))) = (y, b)"
  then have y: "held_by y = (if discard then None else res)" and b: "b = (if discard then drop_reservation res c else c)"
    using run p by (auto split: if_splits)
  have "rest b = rest a"
    using effect(2) by (simp add: b rest_drop_reservation)
  then have "app_table b = app_table a"
    by (rule rest_table)
  moreover have "memory b + held (held_by y) = memory a"
    using effect(1) unfolding p y b by (cases discard) (simp_all add: memory_drop_reservation)
  ultimately show "memory b + held (held_by y) = memory a \<and> app_table b = app_table a"
    by blast
qed

lemma returns_npm_search: "returns_permits (npm_search E net verb uri)"
proof -
  have "returns_permits (\<lambda>a. npm_search E net verb uri a)"
    unfolding npm_search_def Let_def
    by (cases "join_url (env_url E) (npm (env_upstreams E)) ''-/v1/search''"; simp only: option.case;
        intro returns_if returns_pure returns_counted returns_with_permit returns_npm_request; simp)
  then show ?thesis .
qed

lemma returns_npm_audit: "returns_permits (npm_audit E net tb uri headers body)"
proof -
  note npm = returns_npm_request [where discard = False, simplified]
  have "returns_permits (\<lambda>b. case tb body MAX_AUDIT_REQUEST_BODY_BYTES of
      Inl e \<Rightarrow> (answer_now (simple_response 400 ''text/plain; charset=utf-8'' e), b)
    | Inr content \<Rightarrow>
        (case join_url (env_url E) (npm (env_upstreams E)) p of
           None \<Rightarrow> (Panicked, b)
         | Some upstream \<Rightarrow>
             (case handle_npm_request E net
                     \<lparr>ur_method = ''POST'', ur_url = upstream, ur_headers = audit_headers headers,
                      ur_body = Some content\<rparr> b of
                (r, c) \<Rightarrow> (case passed r of (response, res) \<Rightarrow> (Answered response res, c)))))" for p
    by (cases "tb body MAX_AUDIT_REQUEST_BODY_BYTES"; cases "join_url (env_url E) (npm (env_upstreams E)) p")
      (simp_all add: returns_pure npm)
  then have "returns_permits (\<lambda>a. npm_audit E net tb uri headers body a)"
    unfolding npm_audit_def
    by (cases "audit_path (uri_path uri)"; simp only: option.case;
        intro returns_if returns_pure returns_counted returns_with_permit; simp)
  then show ?thesis .
qed

lemma starting_hold_nothing:
  "held_by (start_or_404 c) = None" "held_by (cargo_config_get E uri) = None" "held_by (cargo_config_head E uri) = None"
  by (simp_all add: start_or_404_def cargo_config_get_def cargo_config_head_def split: option.split)

lemma returns_serve_endpoint: "returns_permits (serve_endpoint E net tb endpoint verb uri headers body)"
proof (rule returns_permitsI)
  fix a x b assume "serve_endpoint E net tb endpoint verb uri headers body a = (x, b)"
  then show "memory b + held (held_by x) = memory a \<and> app_table b = app_table a"
    by (cases endpoint)
      (auto simp: starting_hold_nothing starting_defs heading_defs dest: returns_permitsD [OF returns_head_or_404]
        returns_permitsD [OF returns_npm_search] returns_permitsD [OF returns_npm_audit])
qed

section \<open>Properties\<close>

text \<open>
  C9: Whatever handler the router selects and whatever the client sends, the package server only talks to
  the configured registries.  A request that goes through the cache starts a call without touching the
  state, its target has no query, and the call is one of six: its upstream lies on the registry the
  counter names, with the rewriting and the cache key that belong to it.  All other requests the handlers
  send are \<^verbatim>\<open>HEAD\<close>s of artifacts, searches with known parameters and audits of at most 8 MiB carrying only
  two headers of the client: two networks that agree on those are not told apart.
\<close>

theorem package_requests_confined:
  assumes "limits_body tb" and "same_answers E net net'"
  shows "(case pkg_router select E net tb verb uri headers body a of
      (Started c, b) \<Rightarrow> b = a \<and> uri_query uri = None \<and> registry_call E c
    | _ \<Rightarrow> True)
    \<and> pkg_router select E net tb verb uri headers body a = pkg_router select E net' tb verb uri headers body a"
proof
  show "case pkg_router select E net tb verb uri headers body a of
      (Started c, b) \<Rightarrow> b = a \<and> uri_query uri = None \<and> registry_call E c | _ \<Rightarrow> True"
    using pkg_router_Started [of select E net tb verb uri headers body a]
    by (auto split: prod.splits service.splits)
  show "pkg_router select E net tb verb uri headers body a = pkg_router select E net' tb verb uri headers body a"
    using serve_endpoint_same [OF assms(2,1)] by (simp add: pkg_router_def split: routed.split)
qed

text \<open>A router for the witnesses: every \<^verbatim>\<open>GET\<close> is for the file route, every \<^verbatim>\<open>POST\<close> for an audit.\<close>

definition sample_router :: router where
  "sample_router routes verb p =
     (if verb = ''GET'' then Matched Pypi_file_get else if verb = ''POST'' then Matched Npm_audit else Fallback)"

definition sample_file_uri :: "string \<Rightarrow> uri" where
  "sample_file_uri name =
     \<lparr>uri_scheme = None, uri_authority = None, uri_path = ''/pypi/files/packages/'' @ name, uri_query = None\<rparr>"

definition hashing_env :: env where
  "hashing_env = (sample_env file_meta)\<lparr>env_digest := (\<lambda>x. x)\<rparr>"

definition sample_file_call :: "string \<Rightarrow> call" where
  "sample_file_call name =
     artifact_call hashing_env (https_url ''files.pythonhosted.org'' (''/packages/'' @ name)) UPSTREAM_PYPI_FILES"

lemma sample_started:
  assumes "name = ''a.whl'' \<or> name = ''b.whl''"
  shows "pkg_router sample_router hashing_env net sample_to_bytes ''GET'' (sample_file_uri name) [] [] a
    = (Started (sample_file_call name), a)"
proof -
  have "pypi_file_url sample_lib ''packages/a.whl'' sample_origins = Some (https_url ''files.pythonhosted.org'' ''/packages/a.whl'')"
      "pypi_file_url sample_lib ''packages/b.whl'' sample_origins = Some (https_url ''files.pythonhosted.org'' ''/packages/b.whl'')"
    by code_simp+
  moreover have "pypi_raw_path_tail (sample_file_uri name) ''/pypi/files/'' = Some (''packages/'' @ name)"
    by (simp add: pypi_raw_path_tail_def sample_file_uri_def strip_prefix_def)
  ultimately show ?thesis
    using assms
    by (auto simp: pkg_router_def sample_router_def pypi_file_get_def pypi_file_upstream_def hashing_env_def sample_env_def
        start_or_404_def sample_file_call_def)
qed

lemma sample_to_bytes_limits: "limits_body sample_to_bytes"
  by (simp add: limits_body_def sample_to_bytes_def)

lemma package_requests_confined_witness:
  "pkg_router sample_router hashing_env (\<lambda>_. Inl ''refused'') sample_to_bytes ''GET'' (sample_file_uri ''a.whl'') [] []
      (sample_app fresh_store) = (Started (sample_file_call ''a.whl''), sample_app fresh_store)
   \<and> registry_call hashing_env (sample_file_call ''a.whl'')"
proof -
  let ?net = "\<lambda>_. Inl ''refused''"
  have same: "same_answers hashing_env ?net ?net"
    by (simp add: same_answers_def)
  show ?thesis
    using package_requests_confined [OF sample_to_bytes_limits same, where select = sample_router and verb = "''GET''"
        and uri = "sample_file_uri ''a.whl''" and headers = "[]" and body = "[]" and a = "sample_app fresh_store"]
    by (simp add: sample_started)
qed

text \<open>
  C11: Requests share a flight and a cache entry only if they ask for the same thing.  If the package server
  starts two calls with the same key, both are for artifacts or both for metadata, for the same upstream
  URL and with the same rewriting, or else the digest has a collision.  The text of a URL contains no NUL
  byte, which the crate \<^verbatim>\<open>url\<close> documents.
\<close>

theorem shared_key_same_content:
  assumes "pkg_router select E net tb verb uri headers body a = (Started c, b)"
    and "pkg_router select' E net' tb' verb' uri' headers' body' a' = (Started c', b')"
    and "call_key c = call_key c'"
    and "CHR 0x00 \<notin> set (lib_as_str (env_url E) (call_upstream c))"
    and "CHR 0x00 \<notin> set (lib_as_str (env_url E) (call_upstream c'))"
  shows "(call_artifact c = call_artifact c' \<and> call_rewrite c = call_rewrite c'
      \<and> lib_as_str (env_url E) (call_upstream c) = lib_as_str (env_url E) (call_upstream c'))
    \<or> (\<exists>x y. x \<noteq> y \<and> env_digest E x = env_digest E y)"
proof -
  let ?kind_of = "\<lambda>d. if call_artifact d then ''artifact'' else ''metadata''"
  let ?repr = "\<lambda>d. if call_artifact d then None else Some (cache_identity (call_rewrite d))"
  have "registry_call E c" "registry_call E c'"
    using pkg_router_Started [OF assms(1)] pkg_router_Started [OF assms(2)] by blast+
  then have plain: "call_artifact c \<longrightarrow> call_rewrite c = RewriteNone" "call_artifact c' \<longrightarrow> call_rewrite c' = RewriteNone"
    and "call_key c = hash_key (env_digest E) (?kind_of c) (lib_as_str (env_url E) (call_upstream c)) (?repr c)"
      "call_key c' = hash_key (env_digest E) (?kind_of c') (lib_as_str (env_url E) (call_upstream c')) (?repr c')"
    using registry_call_key by blast+
  then have "?kind_of c = ?kind_of c' \<and> lib_as_str (env_url E) (call_upstream c) = lib_as_str (env_url E) (call_upstream c')
        \<and> ?repr c = ?repr c' \<or> (\<exists>x y. x \<noteq> y \<and> env_digest E x = env_digest E y)"
    using assms(3-5) by (intro hash_key_separates) auto
  then show ?thesis
    using plain by (auto simp: cache_identity_inj split: if_splits)
qed

lemma shared_key_same_content_witness:
  "call_key (sample_file_call ''a.whl'') \<noteq> call_key (sample_file_call ''b.whl'')"
proof
  assume "call_key (sample_file_call ''a.whl'') = call_key (sample_file_call ''b.whl'')"
  from shared_key_same_content [OF sample_started sample_started this] show False
    by (simp add: sample_file_call_def artifact_call_def hashing_env_def sample_env_def sample_lib_def https_url_def)
qed

text \<open>
  C21: Handling a request gives back what it took.  Whatever handler the router selects and however it ends, in an
  answer, a started call or a panic, the upstream permits and the in-flight table are as before, and the
  memory permits are as before but for those that the body of the answer holds.
\<close>

theorem handlers_return_permits:
  "case pkg_router select E net tb verb uri headers body a of (x, b) \<Rightarrow>
     memory b + held (held_by x) = memory a
     \<and> st_upstream_permits (app_store b) = st_upstream_permits (app_store a)
     \<and> st_inflight (app_store b) = st_inflight (app_store a)
     \<and> st_outcomes (app_store b) = st_outcomes (app_store a)"
proof -
  obtain x b where run: "pkg_router select E net tb verb uri headers body a = (x, b)" by force
  have "returns_permits (pkg_router select E net tb verb uri headers body)"
    using returns_permitsD [OF returns_serve_endpoint [of E net tb _ verb uri headers body]]
    by (intro returns_permitsI) (auto simp: pkg_router_def split: routed.splits)
  then have "memory b + held (held_by x) = memory a \<and> app_table b = app_table a"
    using run by (rule returns_permitsD)
  then show ?thesis
    by (simp add: run app_table_def table_def)
qed

end
