(* ===== verification/Jobs.thy ===== *)
theory Jobs
  imports DocumentPoints Handlers
begin

text \<open>
  The whole program as concurrent jobs that share the store, cut at their await points.  Beside the tasks of
  \<open>Flights\<close> there are the requests that go to the upstream without the in-flight table
  (\<^verbatim>\<open>handle_artifact_head\<close> of \<^verbatim>\<open>src/proxy.rs\<close>, \<^verbatim>\<open>npm_search\<close> and \<^verbatim>\<open>npm_audit\<close> of \<^verbatim>\<open>src/npm.rs\<close> with
  \<^verbatim>\<open>handle_npm_request\<close>), and a fetch is not one step but a job that advances from point to point
  (\<open>DocumentPoints\<close>, \<open>DownloadPoints\<close>) while all others run.  A job holds what its function owns: an
  upstream permit, a reservation of memory.
\<close>

section \<open>Requests that pass through\<close>

text \<open>
  Where such a request is: just arrived, or not found in the cache, or with its permit before an answer, while the body of an audit is
  read (\<^verbatim>\<open>to_bytes\<close>), or while the body of the answer is read.  The flag tells that the body will be
  dropped.  After the handler has returned, the answer and the memory of its body are on their way to the
  client.
\<close>

datatype passing =
    Head_arrived url
  | Head_missed url
  | Head_sent url
  | Search_arrived string uri
  | Audit_arrived uri header_list
  | Audit_body string header_list
  | Sent bool upstream_request
  | Reading_body bool upstream_response "(string + bytes) list" bytes
  | Replied response

fun permit_held :: "passing \<Rightarrow> bool" where
  "permit_held (Head_sent u) = True"
| "permit_held (Audit_body path headers) = True"
| "permit_held (Sent dropped request) = True"
| "permit_held (Reading_body dropped resp cs body) = True"
| "permit_held q = False"

fun newly_arrived :: "passing \<Rightarrow> bool" where
  "newly_arrived (Head_arrived u) = True"
| "newly_arrived (Search_arrived verb uri) = True"
| "newly_arrived (Audit_arrived uri headers) = True"
| "newly_arrived q = False"

text \<open>
  When the handler returns, the permit goes back; with an error, the memory too.  A search for HEAD drops the
  body of whatever it answers.
\<close>

definition return_permit :: "holding_app \<Rightarrow> holding_app" where
  "return_permit p = (on_app_store release_upstream_permit (fst p), snd p)"

definition drop_memory :: "holding_app \<Rightarrow> holding_app" where
  "drop_memory p = (drop_reservation (snd p) (fst p), None)"

definition without_body :: "bool \<Rightarrow> response \<Rightarrow> response" where
  "without_body dropped r = (if dropped then response_without_body r else r)"

definition reply_error :: "bool \<Rightarrow> io_error \<Rightarrow> holding_app \<Rightarrow> passing option \<times> holding_app" where
  "reply_error dropped e p =
     (Some (Replied (without_body dropped (request_failed_response e))), return_permit (drop_memory p))"

definition or_error ::
  "bool \<Rightarrow> 'a io_result \<times> holding_app \<Rightarrow> ('a \<Rightarrow> holding_app \<Rightarrow> passing option \<times> holding_app)
     \<Rightarrow> passing option \<times> holding_app" where
  "or_error dropped r k = (case r of (Inl e, p) \<Rightarrow> reply_error dropped e p | (Inr x, p) \<Rightarrow> k x p)"

text \<open>Admission: \<^verbatim>\<open>try_acquire_upstream_permit\<close>, without waiting.\<close>

definition admitted :: "passing \<Rightarrow> holding_app \<Rightarrow> passing option \<times> holding_app" where
  "admitted q p =
     (case on_app (on_store try_acquire_upstream_permit) p of
        (Inl e, p') \<Rightarrow> (Some (Replied (request_failed_response e)), p')
      | (Inr _, p') \<Rightarrow> (Some q, p'))"

definition pass_head :: "env \<Rightarrow> url \<Rightarrow> holding_app \<Rightarrow> passing option \<times> holding_app" where
  "pass_head E u p =
     (case on_app (on_store (load (env_codec E) (artifact_key (env_digest E) (lib_as_str (env_url E) u)))) p of
        (Inl e, p') \<Rightarrow> (Some (Replied (request_failed_response e)), p')
      | (Inr (Some entry), p') \<Rightarrow> (Some (Replied (empty_response_from_meta (env_http E) (entry_meta entry))), p')
      | (Inr None, p') \<Rightarrow> (Some (Head_missed u), p'))"

definition pass_head_sent :: "env \<Rightarrow> network \<Rightarrow> url \<Rightarrow> holding_app \<Rightarrow> passing option \<times> holding_app" where
  "pass_head_sent E net u p =
     or_error False (send_request net ((get_request u)\<lparr>ur_method := ''HEAD''\<rparr>), p) (\<lambda>resp p.
     (Some (Replied (empty_response_from_meta (env_http E)
              (meta_from_upstream (env_http E) (up_status resp) (up_headers resp) None))),
      return_permit p))"

text \<open>\<open>None\<close> is a panic of \<^verbatim>\<open>expect\<close>, which unwinds the handler.\<close>

definition pass_search :: "env \<Rightarrow> string \<Rightarrow> uri \<Rightarrow> holding_app \<Rightarrow> passing option \<times> holding_app" where
  "pass_search E verb uri p =
     (if uri_path uri \<noteq> ''/npm/-/v1/search'' then (Some (Replied not_found), p)
      else
        (case join_url (env_url E) (npm (env_upstreams E)) ''-/v1/search'' of
           None \<Rightarrow> (None, p)
         | Some u \<Rightarrow>
             (let upstream = lib_set_query (env_url E) u (uri_query uri) in
              if list_ex (\<lambda>(name, _). name \<notin> set search_parameters) (lib_query_pairs (env_url E) upstream)
              then (Some (Replied not_found), p)
              else
                admitted (Sent (verb = ''HEAD'') (get_request upstream))
                  (snd (count_event record_npm_search_request (fst p)), snd p))))"

definition pass_audit :: "uri \<Rightarrow> header_list \<Rightarrow> holding_app \<Rightarrow> passing option \<times> holding_app" where
  "pass_audit uri headers p =
     (case audit_path (uri_path uri) of
        None \<Rightarrow> (Some (Replied not_found), p)
      | Some path \<Rightarrow>
          if uri_query uri \<noteq> None then (Some (Replied not_found), p)
          else admitted (Audit_body path headers) (snd (count_event record_npm_audit_request (fst p)), snd p))"

text \<open>The body of an audit is what \<^verbatim>\<open>to_bytes\<close> answers.\<close>

definition pass_audit_body ::
  "env \<Rightarrow> string + bytes \<Rightarrow> string \<Rightarrow> header_list \<Rightarrow> holding_app \<Rightarrow> passing option \<times> holding_app" where
  "pass_audit_body E content path headers p =
     (case content of
        Inl e \<Rightarrow> (Some (Replied (simple_response 400 ''text/plain; charset=utf-8'' e)), return_permit p)
      | Inr body \<Rightarrow>
          (case join_url (env_url E) (npm (env_upstreams E)) path of
             None \<Rightarrow> (None, return_permit p)
           | Some upstream \<Rightarrow>
               (Some (Sent False \<lparr>ur_method = ''POST'', ur_url = upstream, ur_headers = audit_headers headers,
                                  ur_body = Some body\<rparr>), p)))"

definition pass_sent :: "network \<Rightarrow> bool \<Rightarrow> upstream_request \<Rightarrow> holding_app \<Rightarrow> passing option \<times> holding_app" where
  "pass_sent net dropped request p =
     or_error dropped (send_request net request, p) (\<lambda>resp p.
     or_error dropped (limited_initial_capacity (up_content_length resp) MAX_METADATA_BODY_LEN metadata_limit_error, p)
       (\<lambda>initial_capacity p.
     or_error dropped (reserve_more (case up_content_length resp of None \<Rightarrow> initial_capacity | Some n \<Rightarrow> n) p) (\<lambda>_ p.
     (Some (Reading_body dropped resp (up_chunks resp) []), p))))"

definition pass_chunk ::
  "bool \<Rightarrow> upstream_response \<Rightarrow> string + bytes \<Rightarrow> (string + bytes) list \<Rightarrow> bytes \<Rightarrow> holding_app
     \<Rightarrow> passing option \<times> holding_app" where
  "pass_chunk dropped resp c cs body p =
     or_error dropped (next_chunk c, p) (\<lambda>chunk p.
     if length chunk > unat MAX_METADATA_BODY_LEN - length body
     then reply_error dropped (invalid_data metadata_limit_error) p
     else
       or_error dropped (reserve_more (of_nat (length body + length chunk)) p) (\<lambda>_ p.
       (Some (Reading_body dropped resp cs (body @ chunk)), p)))"

definition pass_answer :: "env \<Rightarrow> bool \<Rightarrow> upstream_response \<Rightarrow> bytes \<Rightarrow> holding_app \<Rightarrow> passing option \<times> holding_app" where
  "pass_answer E dropped resp body p =
     (let response =
        bytes_response (env_http E)
          (meta_for_bytes (env_http E) (up_status resp) (up_headers resp) (of_nat (length body)) True) body in
      (Some (Replied (without_body dropped response)), return_permit (if dropped then drop_memory p else p)))"

fun pass_step ::
  "env \<Rightarrow> network \<Rightarrow> string + bytes \<Rightarrow> passing \<Rightarrow> holding_app \<Rightarrow> (passing option \<times> holding_app) option" where
  "pass_step E net content (Head_arrived u) p = Some (pass_head E u p)"
| "pass_step E net content (Head_missed u) p = Some (admitted (Head_sent u) p)"
| "pass_step E net content (Head_sent u) p = Some (pass_head_sent E net u p)"
| "pass_step E net content (Search_arrived verb uri) p = Some (pass_search E verb uri p)"
| "pass_step E net content (Audit_arrived uri headers) p = Some (pass_audit uri headers p)"
| "pass_step E net content (Audit_body path headers) p = Some (pass_audit_body E content path headers p)"
| "pass_step E net content (Sent dropped request) p = Some (pass_sent net dropped request p)"
| "pass_step E net content (Reading_body dropped resp [] body) p = Some (pass_answer E dropped resp body p)"
| "pass_step E net content (Reading_body dropped resp (c # cs) body) p = Some (pass_chunk dropped resp c cs body p)"
| "pass_step E net content (Replied r) p = None"

text \<open>A request that is dropped, or whose answer is delivered, gives back what it still holds.\<close>

definition drop_passing :: "passing \<Rightarrow> holding_app \<Rightarrow> app" where
  "drop_passing q p = fst ((if permit_held q then return_permit else id) (drop_memory p))"

subsection \<open>Against the handlers\<close>

text \<open>With no other job in between, such a request is answered as the handler of \<open>Handlers\<close> answers it in one step.\<close>

inductive pass_run ::
  "env \<Rightarrow> network \<Rightarrow> string + bytes \<Rightarrow> passing option \<times> holding_app \<Rightarrow> passing option \<times> holding_app \<Rightarrow> bool"
  for E net content where
  stay: "pass_run E net content x x"
| go: "pass_step E net content q p = Some y \<Longrightarrow> pass_run E net content y z \<Longrightarrow> pass_run E net content (Some q, p) z"

fun served :: "service \<times> app \<Rightarrow> passing option \<times> holding_app" where
  "served (Answered r res, b) = (Some (Replied r), (b, res))"
| "served (_, b) = (None, (b, None))"

definition finished ::
  "env \<Rightarrow> bool \<Rightarrow> upstream_response \<Rightarrow> bytes io_result \<times> holding_app \<Rightarrow> passing option \<times> holding_app" where
  "finished E dropped resp x =
     (case x of (Inl e, p) \<Rightarrow> reply_error dropped e p | (Inr body, p) \<Rightarrow> pass_answer E dropped resp body p)"

lemma run_one: "pass_step E net content q p = Some x \<Longrightarrow> pass_run E net content (Some q, p) x"
  by (blast intro: pass_run.intros)

lemma run_chunks:
  "pass_run E net content (Some (Reading_body dropped resp cs body), p) (finished E dropped resp (read_metadata_chunks cs body p))"
proof (induction cs arbitrary: body p)
  case Nil
  show ?case
    by (rule run_one) (simp add: finished_def io_bind_def io_simps)
next
  case (Cons c cs)
  show ?case
  proof (cases "next_chunk c")
    case (Inl e)
    then show ?thesis
      by (intro run_one) (simp add: finished_def io_bind_def io_simps pass_chunk_def or_error_def)
  next
    case (Inr chunk)
    show ?thesis
    proof (cases "length chunk > unat MAX_METADATA_BODY_LEN - length body")
      case True
      then show ?thesis
        using Inr by (intro run_one) (simp add: finished_def io_bind_def io_simps pass_chunk_def or_error_def)
    next
      case False
      obtain x q where more: "reserve_more (of_nat (length body + length chunk)) p = (x, q)"
        by (rule prod.exhaust)
      show ?thesis
      proof (cases x)
        case (Inl e)
        then show ?thesis
          using Inr False more by (intro run_one) (simp add: finished_def io_bind_def io_simps pass_chunk_def or_error_def)
      next
        case (Inr y)
        then have "pass_step E net content (Reading_body dropped resp (c # cs) body) p =
            Some (Some (Reading_body dropped resp cs (body @ chunk)), q)"
          and "read_metadata_chunks (c # cs) body p = read_metadata_chunks cs (body @ chunk) q"
          using \<open>next_chunk c = Inr chunk\<close> False more by (simp_all add: io_bind_def io_simps pass_chunk_def or_error_def)
        then show ?thesis
          using pass_run.go Cons.IH by metis
      qed
    qed
  qed
qed

definition released :: "service \<times> app \<Rightarrow> service \<times> app" where
  "released x = (fst x, on_app_store release_upstream_permit (snd x))"

definition npm_answer :: "env \<Rightarrow> network \<Rightarrow> bool \<Rightarrow> upstream_request \<Rightarrow> app \<Rightarrow> service \<times> app" where
  "npm_answer E net dropped request a =
     (case handle_npm_request E net request a of
        (r, c) \<Rightarrow>
          (case Handlers.passed r of
             (response, res) \<Rightarrow>
               if dropped then (answer_now (response_without_body response), drop_reservation res c)
               else (Answered response res, c)))"

lemma run_sent:
  "pass_run E net content (Some (Sent dropped request), (a, None)) (served (released (npm_answer E net dropped request a)))"
proof (cases "send_request net request")
  case (Inl e)
  then show ?thesis
    by (intro run_one)
      (simp add: pass_sent_def or_error_def reply_error_def npm_answer_def handle_npm_request_def io_bind_def io_simps
        Handlers.passed_def released_def answer_now_def return_permit_def drop_memory_def without_body_def)
next
  case (Inr resp)
  let ?limit = "limited_initial_capacity (up_content_length resp) MAX_METADATA_BODY_LEN metadata_limit_error"
  show ?thesis
  proof (cases ?limit)
    case (Inl e)
    then show ?thesis
      using Inr by (intro run_one)
        (simp add: pass_sent_def or_error_def reply_error_def npm_answer_def handle_npm_request_def io_bind_def io_simps
          with_reservation_def read_metadata_body_def
          Handlers.passed_def released_def answer_now_def return_permit_def drop_memory_def without_body_def)
  next
    case (Inr capacity)
    let ?len = "case up_content_length resp of None \<Rightarrow> capacity | Some n \<Rightarrow> n"
    obtain x p where more: "reserve_more ?len (a, None) = (x, p)"
      by (rule prod.exhaust)
    have body: "read_metadata_body resp (a, None) = (case x of Inl e \<Rightarrow> (Inl e, p) | Inr _ \<Rightarrow> read_metadata_chunks (up_chunks resp) [] p)"
      using Inr more by (simp add: read_metadata_body_def io_bind_def io_simps Let_def split: sum.split)
    have done': "served (released (npm_answer E net dropped request a)) = finished E dropped resp (read_metadata_body resp (a, None))"
    proof -
      obtain y b r where "read_metadata_body resp (a, None) = (y, (b, r))"
        by (metis surj_pair)
      then show ?thesis
        using \<open>send_request net request = Inr resp\<close>
        by (cases y) (simp_all add: npm_answer_def handle_npm_request_def io_bind_def io_return_def io_lift_def with_reservation_def
            finished_def reply_error_def pass_answer_def Let_def Handlers.passed_def released_def answer_now_def
            return_permit_def drop_memory_def without_body_def)
    qed
    show ?thesis
    proof (cases x)
      case (Inl e)
      then show ?thesis
        using \<open>send_request net request = Inr resp\<close> \<open>?limit = Inr capacity\<close> more unfolding done' body
        by (intro run_one) (simp add: pass_sent_def or_error_def finished_def)
    next
      case (Inr y)
      then have "pass_step E net content (Sent dropped request) (a, None) =
          Some (Some (Reading_body dropped resp (up_chunks resp) []), p)"
        using \<open>send_request net request = Inr resp\<close> \<open>?limit = Inr capacity\<close> more
        by (simp add: pass_sent_def or_error_def)
      from pass_run.go [OF this run_chunks] show ?thesis
        unfolding done' body Inr by simp
    qed
  qed
qed

lemma run_admitted:
  assumes "pass_step E net content q0 (a, None) = Some (admitted q (b, None))"
    and "\<And>c. pass_run E net content (Some q, (c, None)) (served (released (m c)))"
  shows "pass_run E net content (Some q0, (a, None)) (served (with_permit m b))"
proof -
  obtain x c where acquire: "on_store try_acquire_upstream_permit b = (x, c)"
    by (rule prod.exhaust)
  show ?thesis
  proof (cases x)
    case (Inl e)
    then show ?thesis
      using assms(1) acquire by (intro run_one) (simp add: admitted_def on_app_def with_permit_def answer_now_def)
  next
    case (Inr y)
    then have "pass_step E net content q0 (a, None) = Some (Some q, (c, None))"
      using assms(1) acquire by (simp add: admitted_def on_app_def)
    moreover have "with_permit m b = released (m c)"
      using Inr acquire by (simp add: with_permit_def released_def split: prod.split)
    ultimately show ?thesis
      using pass_run.go [OF _ assms(2)] by simp
  qed
qed

lemma search_as_handled:
  "pass_run E net content (Some (Search_arrived verb uri), (a, None)) (served (npm_search E net verb uri a))"
proof (cases "join_url (env_url E) (npm (env_upstreams E)) ''-/v1/search''")
  case None
  then show ?thesis
    by (intro run_one) (simp add: pass_search_def npm_search_def answer_now_def)
next
  case (Some u)
  define upstream where "upstream = lib_set_query (env_url E) u (uri_query uri)"
  define refused where "refused \<longleftrightarrow>
    uri_path uri \<noteq> ''/npm/-/v1/search''
      \<or> list_ex (\<lambda>(name, _). name \<notin> set search_parameters) (lib_query_pairs (env_url E) upstream)"
  let ?b = "snd (count_event record_npm_search_request a)"
  have handler: "npm_search E net verb uri a =
      (if refused then (answer_now not_found, a)
       else with_permit (npm_answer E net (verb = ''HEAD'') (get_request upstream)) ?b)"
    using Some by (simp add: npm_search_def npm_answer_def [abs_def] refused_def upstream_def)
  have first: "pass_step E net content (Search_arrived verb uri) (a, None) =
      Some (if refused then (Some (Replied not_found), (a, None))
            else admitted (Sent (verb = ''HEAD'') (get_request upstream)) (?b, None))"
    using Some by (simp add: pass_search_def refused_def upstream_def)
  show ?thesis
  proof (cases refused)
    case True
    then show ?thesis
      using first handler by (intro run_one) (simp add: answer_now_def)
  next
    case False
    then show ?thesis
      using first handler run_admitted [OF _ run_sent] by simp
  qed
qed

lemma audit_as_handled:
  "pass_run E net (to_bytes body MAX_AUDIT_REQUEST_BODY_BYTES) (Some (Audit_arrived uri headers), (a, None))
     (served (npm_audit E net to_bytes uri headers body a))"
proof (cases "audit_path (uri_path uri) = None \<or> uri_query uri \<noteq> None")
  case True
  then show ?thesis
    by (intro run_one) (auto simp: pass_audit_def npm_audit_def answer_now_def split: option.split)
next
  case False
  then obtain path where path: "audit_path (uri_path uri) = Some path" and query: "uri_query uri = None"
    by auto
  let ?content = "to_bytes body MAX_AUDIT_REQUEST_BODY_BYTES" and ?b = "snd (count_event record_npm_audit_request a)"
  define m where "m b =
    (case ?content of
       Inl e \<Rightarrow> (answer_now (simple_response 400 ''text/plain; charset=utf-8'' e), b)
     | Inr content \<Rightarrow>
         (case join_url (env_url E) (npm (env_upstreams E)) path of
            None \<Rightarrow> (Panicked, b)
          | Some upstream \<Rightarrow>
              npm_answer E net False
                \<lparr>ur_method = ''POST'', ur_url = upstream, ur_headers = audit_headers headers, ur_body = Some content\<rparr> b))" for b
  have plain: "npm_answer E net False request b =
      (case handle_npm_request E net request b of
         (r, c) \<Rightarrow> (case Handlers.passed r of (response, res) \<Rightarrow> (Answered response res, c)))" for request b
    by (simp add: npm_answer_def)
  have handler: "npm_audit E net to_bytes uri headers body a = with_permit m ?b"
    using path query unfolding m_def [abs_def] plain by (simp add: npm_audit_def)
  have "pass_run E net ?content (Some (Audit_body path headers), (c, None)) (served (released (m c)))" for c
  proof (cases ?content)
    case (Inl e)
    then show ?thesis
      by (intro run_one) (simp add: pass_audit_body_def m_def released_def answer_now_def return_permit_def)
  next
    case (Inr content)
    show ?thesis
    proof (cases "join_url (env_url E) (npm (env_upstreams E)) path")
      case None
      then show ?thesis
        using Inr by (intro run_one) (simp add: pass_audit_body_def m_def released_def return_permit_def)
    next
      case (Some upstream)
      let ?request = "\<lparr>ur_method = ''POST'', ur_url = upstream, ur_headers = audit_headers headers, ur_body = Some content\<rparr>"
      have "pass_step E net ?content (Audit_body path headers) (c, None) = Some (Some (Sent False ?request), (c, None))"
        using Inr Some by (simp add: pass_audit_body_def)
      from pass_run.go [OF this run_sent] show ?thesis
        using Inr Some by (simp add: m_def)
    qed
  qed
  moreover have "pass_step E net ?content (Audit_arrived uri headers) (a, None) = Some (admitted (Audit_body path headers) (?b, None))"
    using path query by (simp add: pass_audit_def)
  ultimately show ?thesis
    using run_admitted unfolding handler by blast
qed

lemma head_as_handled:
  "pass_run E net content (Some (Head_arrived u), (a, None)) (served (head_or_404 E net (Some u) a))"
proof -
  obtain r b where load: "on_store (load (env_codec E) (artifact_key (env_digest E) (lib_as_str (env_url E) u))) a = (r, b)"
    by (rule prod.exhaust)
  define m where "m c = (answer_now (reply_of (case send_request net ((get_request u)\<lparr>ur_method := ''HEAD''\<rparr>) of
      Inl e \<Rightarrow> Inl e
    | Inr resp \<Rightarrow> Inr (empty_response_from_meta (env_http E)
        (meta_from_upstream (env_http E) (up_status resp) (up_headers resp) None)))), c :: app)" for c
  consider e where "r = Inl e" | entry where "r = Inr (Some entry)" | "r = Inr None"
    by (metis option.exhaust sum.exhaust)
  then show ?thesis
  proof cases
    case 3
    have "pass_run E net content (Some (Head_sent u), (c, None)) (served (released (m c)))" for c
      by (intro run_one) (simp add: pass_head_sent_def or_error_def reply_error_def m_def released_def answer_now_def
          return_permit_def drop_memory_def without_body_def reply_of_def split: sum.split)
    then have "pass_run E net content (Some (Head_missed u), (b, None)) (served (with_permit m b))"
      by (intro run_admitted) simp_all
    moreover have "pass_step E net content (Head_arrived u) (a, None) = Some (Some (Head_missed u), (b, None))"
      using load 3 by (simp add: pass_head_def on_app_def)
    moreover have "head_or_404 E net (Some u) a = with_permit m b"
      using load 3 by (auto simp: head_or_404_def handle_artifact_head_def Let_def io_bind_def io_try_def io_lift_def
          with_permit_def m_def answer_now_def reply_of_def split: prod.splits sum.splits)
    ultimately show ?thesis
      using pass_run.go by metis
  qed (use load in \<open>intro run_one, simp add: pass_head_def on_app_def head_or_404_def handle_artifact_head_def Let_def
      io_bind_def io_return_def reply_of_def answer_now_def\<close>)+
qed

section \<open>Jobs\<close>

datatype job =
    Plain task
  | Reading call nat document_point reservation
  | Downloading call nat fetch_point
  | Passing passing reservation

text \<open>The leader's function is called: its fetch is at the first point.\<close>

definition start_fetch :: "call \<Rightarrow> nat \<Rightarrow> job" where
  "start_fetch c i = (if call_artifact c then Downloading c i Requesting else Reading c i LoadingEntry None)"

definition job_plain :: "env \<Rightarrow> network \<Rightarrow> task \<Rightarrow> system \<Rightarrow> (job list \<times> system) option" where
  "job_plain E net t s =
     (case t of
        Fetching c i \<Rightarrow> Some ([start_fetch c i], s)
      | _ \<Rightarrow> map_option (\<lambda>(ts, s'). (map Plain ts, s')) (advance E net t s))"

definition job_reading ::
  "env \<Rightarrow> network \<Rightarrow> call \<Rightarrow> nat \<Rightarrow> document_point \<Rightarrow> reservation \<Rightarrow> system \<Rightarrow> job list \<times> system" where
  "job_reading E net c i d r s =
     (case document_step E net (call_upstream c) (call_type c) (call_rewrite c) (call_key c) d (sys_app s, r) of
        (d', (a, r')) \<Rightarrow> ([Reading c i d' r'], s\<lparr>sys_app := a\<rparr>))"

text \<open>The fetch has returned: the body with its memory is wrapped, or the memory is dropped with the error.\<close>

definition job_answered :: "env \<Rightarrow> call \<Rightarrow> nat \<Rightarrow> document io_result \<Rightarrow> reservation \<Rightarrow> system \<Rightarrow> job list \<times> system" where
  "job_answered E c i result r s =
     (case resolved (result, (sys_app s, r)) of
        (x, a) \<Rightarrow>
          ([Plain (Completing c i (metadata_outcome x) (Leader (Some (answer c (metadata_reply E x)))))],
           s\<lparr>sys_app := a, sys_held := (sys_held s)(i := (case x of Inr (_, res) \<Rightarrow> res | Inl _ \<Rightarrow> None))\<rparr>))"

definition job_downloading :: "env \<Rightarrow> network \<Rightarrow> call \<Rightarrow> nat \<Rightarrow> fetch_point \<Rightarrow> system \<Rightarrow> job list \<times> system" where
  "job_downloading E net c i d s =
     (case fetch_step E net (call_upstream c) (call_type c) (leader_of c i) d (sys_app s) of
        (d', a) \<Rightarrow> ([Downloading c i d'], s\<lparr>sys_app := a\<rparr>))"

definition job_fetched :: "call \<Rightarrow> nat \<Rightarrow> (string \<times> string) + fetch_outcome \<Rightarrow> job list" where
  "job_fetched c i r = [Plain (Completing c i (artifact_outcome r) (Leader None))]"

definition job_passing :: "passing option \<times> holding_app \<Rightarrow> system \<Rightarrow> job list \<times> system" where
  "job_passing x s =
     (case x of
        (Some q, (a, r)) \<Rightarrow> ([Passing q r], s\<lparr>sys_app := a\<rparr>)
      | (None, p) \<Rightarrow> ([], s\<lparr>sys_app := fst (drop_memory p)\<rparr>))"

definition job_step :: "env \<Rightarrow> network \<Rightarrow> string + bytes \<Rightarrow> job \<Rightarrow> system \<Rightarrow> (job list \<times> system) option" where
  "job_step E net content j s =
     (case j of
        Plain t \<Rightarrow> job_plain E net t s
      | Reading c i (document_point.Answered result) r \<Rightarrow> Some (job_answered E c i result r s)
      | Reading c i d r \<Rightarrow> Some (job_reading E net c i d r s)
      | Downloading c i (Fetched r) \<Rightarrow> Some (job_fetched c i r, s)
      | Downloading c i d \<Rightarrow> Some (job_downloading E net c i d s)
      | Passing q r \<Rightarrow> map_option (\<lambda>x. job_passing x s) (pass_step E net content q (sys_app s, r)))"

text \<open>
  Dropping a job: the guards of a fetch act as they do at its point, and its permit goes back.  An operation on
  files that has begun is finished first, or does not begin.
\<close>

definition job_cancel :: "job \<Rightarrow> system \<Rightarrow> (job list \<times> system) option" where
  "job_cancel j s =
     (case j of
        Plain t \<Rightarrow> map_option (\<lambda>(ts, s'). (map Plain ts, s')) (cancel t s)
      | Reading c i d r \<Rightarrow>
          Some ([Plain (Cleaning c i)],
                with_store release_upstream_permit (s\<lparr>sys_app := drop_document d (sys_app s, r)\<rparr>))
      | Downloading c i d \<Rightarrow>
          Some ([Plain (Cleaning c i)],
                with_store release_upstream_permit (s\<lparr>sys_app := drop_point d (sys_app s)\<rparr>))
      | Passing q r \<Rightarrow> Some ([], s\<lparr>sys_app := drop_passing q (sys_app s, r)\<rparr>))"

definition job_begun :: "job \<Rightarrow> system \<Rightarrow> system" where
  "job_begun j s =
     (case j of
        Reading c i d r \<Rightarrow> s\<lparr>sys_app := finish_document (call_key c) d (sys_app s)\<rparr>
      | Downloading c i d \<Rightarrow> s\<lparr>sys_app := finish_begun (leader_of c i) d (sys_app s)\<rparr>
      | _ \<Rightarrow> s)"

section \<open>The system\<close>

text \<open>What a job is to the in-flight table: a fetch at any point is a fetch.\<close>

fun job_task :: "job \<Rightarrow> task" where
  "job_task (Plain t) = t"
| "job_task (Reading c i d r) = Fetching c i"
| "job_task (Downloading c i d) = Fetching c i"
| "job_task (Passing q r) = Done None (Inl not_found_error)"

abbreviation job_tasks :: "job multiset \<Rightarrow> task multiset" where
  "job_tasks \<equiv> image_mset job_task"

inductive jobs_step :: "env \<Rightarrow> system \<times> job multiset \<Rightarrow> system \<times> job multiset \<Rightarrow> bool" for E where
  advancing: "job_step E net content j s = Some (js, s') \<Longrightarrow> jobs_step E (s, add_mset j J) (s', mset js + J)"
| dropping: "job_cancel j t = Some (js, s') \<Longrightarrow> t = s \<or> t = job_begun j s \<Longrightarrow>
    jobs_step E (s, add_mset j J) (s', mset js + J)"
| admitting_call: "made_by E c \<Longrightarrow> jobs_step E (s, J) (s, add_mset (Plain (start_task c)) J)"
| admitting_passing: "newly_arrived q \<Longrightarrow> jobs_step E (s, J) (s, add_mset (Passing q None) J)"
| reaping_flight: "\<forall>t\<in>#job_tasks J. refers t \<noteq> Some i \<Longrightarrow> i \<notin> ran (st_inflight (the_store s)) \<Longrightarrow>
    jobs_step E (s, J) (reap i s, J)"
| evicting_files: "0 < st_janitor_queue (the_store s) \<Longrightarrow> jobs_step E (s, J) (janitor s, J)"
| settling_file: "fs_pending (st_fs (the_store s)) i \<noteq> [] \<Longrightarrow> jobs_step E (s, J) (background_write n i s, J)"
| time_passing: "jobs_step E (s, J) (tick s, J)"

section \<open>What a step takes and gives back\<close>

text \<open>
  \<open>level\<close>: the table and the upstream permits are as they were, and the memory that is free and the
  reservation add up to what they did.
\<close>

definition level :: "holding_app \<Rightarrow> holding_app \<Rightarrow> bool" where
  "level q p \<longleftrightarrow> app_table (fst q) = app_table (fst p) \<and> budget q = budget p"

lemma level_refl: "level p p"
  by (simp add: level_def)

lemma level_still: "level q p \<Longrightarrow> still budget m \<Longrightarrow> still pair_table m \<Longrightarrow> level (snd (m q)) p"
  using still_snd [of budget m q] still_snd [of pair_table m q] by (simp add: level_def)

lemma level_stored: "level q p \<Longrightarrow> still tables m \<Longrightarrow> level (snd (on_app (on_store m) q)) p"
  by (rule level_still) (auto intro: still_budget_stored still_pair_app still_app_store)

lemma level_tree: "level q p \<Longrightarrow> level (snd (on_tree m q)) p"
  unfolding on_tree_def by (intro level_stored still_on_fs)

lemma level_reserve: "level q p \<Longrightarrow> level (snd (reserve_more n q)) p"
  by (rule level_still) simp_all

lemma level_count: "snd q = r \<Longrightarrow> level (snd (count_event f (fst q)), r) q"
  by (auto simp: level_def count_event_def budget_def memory_def app_table_def)

lemma level_dropped: "level q p \<Longrightarrow> level (drop_memory q) p"
  using drop_reservation_files(2,5) [of "snd q" "fst q"]
  by (simp add: level_def drop_memory_def budget_def held_def)

named_theorems levels \<open>operations that move no permit and lose no memory\<close>

lemmas [levels] = level_refl level_stored level_tree level_reserve still_load still_evict still_next_temp_path

text \<open>A step of a document's fetch.\<close>

abbreviation levels_at :: "holding_app \<Rightarrow> 'd \<times> holding_app \<Rightarrow> bool" where
  "levels_at p x \<equiv> level (snd x) p"

lemma levels_answer [levels]:
  "level (snd r) p \<Longrightarrow> (\<And>x q. level q p \<Longrightarrow> levels_at p (k x q)) \<Longrightarrow> levels_at p (or_answer r k)"
  "level (snd r) p \<Longrightarrow> (\<And>x q. level q p \<Longrightarrow> levels_at p (k x q)) \<Longrightarrow> levels_at p (or_cleaning temp r k)"
  by (auto simp: or_answer_def or_cleaning_def split: prod.split sum.split)

lemma levels_point [levels]: "level q p \<Longrightarrow> levels_at p (d, q)"
  by simp

lemma levels_asking: "snd p = None \<Longrightarrow> levels_at p (step_asking E net u ty entry (fst p))"
  unfolding step_asking_def Let_def
  by (intro levels) (auto intro!: levels level_count split: option.split bool.split)

lemma document_step_level:
  assumes "document_step E net u ty rw key d p = (d', q)" and "unanswered d \<Longrightarrow> snd p = None"
  shows "level q p" and "unanswered d' \<Longrightarrow> snd q = None"
proof -
  have "levels_at p (document_step E net u ty rw key d p)"
  proof (cases "(E, net, u, ty, rw, key, d, p)" rule: document_step.cases)
    case 2
    then show ?thesis
      using assms(2) levels_asking by simp
  qed (auto simp: step_chunk_def step_rewriting_def step_directory_def Let_def intro!: levels)
  then show "level q p"
    using assms(1) by simp
  show "unanswered d' \<Longrightarrow> snd q = None"
  proof (cases "(E, net, u, ty, rw, key, d, p)" rule: document_step.cases)
  qed (use assms in \<open>auto simp: step_asking_def step_chunk_def step_rewriting_def step_directory_def Let_def or_answer_def
      or_cleaning_def on_app_def on_store_def split: prod.splits sum.splits option.splits bool.splits if_splits\<close>)
qed

lemma drop_document_level:
  "app_table (drop_document d (a, r)) = app_table a" "memory (drop_document d (a, r)) = budget (a, r)"
proof -
  have "app_table (drop_reservation r b) = app_table a \<and> memory (drop_reservation r b) = budget (a, r)"
    if "app_tables b = app_tables a" for b
    using that drop_reservation_files(2,5) [of r b]
    by (simp add: app_tables_def tables_def app_table_def budget_def memory_def)
  then show "app_table (drop_document d (a, r)) = app_table a" "memory (drop_document d (a, r)) = budget (a, r)"
    using still_snd [OF still_tables_files, of _ a] by (auto simp: drop_document_def split: option.split)
qed

lemma begun_level:
  "app_tables (finish_document key d a) = app_tables a" "app_tables (finish_begun leader e a) = app_tables a"
  by (simp_all add: finish_document_def finish_begun_def app_tables_def tables_def table_def on_app_store_def)

text \<open>A step of a download moves no memory at all.\<close>

lemma tables_removing:
  "app_tables (snd r) = t \<Longrightarrow> (\<And>x b. app_tables b = t \<Longrightarrow> app_tables (snd (k x b)) = t) \<Longrightarrow>
    app_tables (snd (or_removing name r k)) = t"
  by (auto simp: or_removing_def split: prod.split sum.split)

lemma tables_files: "app_tables a = t \<Longrightarrow> app_tables (snd (on_files m a)) = t"
  using still_snd [OF still_tables_files, of m a] by simp

lemma tables_counted: "app_tables a = t \<Longrightarrow> app_tables (snd (count_event f a)) = t"
  using still_snd [OF still_tables_count, of f a] by simp

lemma tables_pinned: "app_tables b = t \<Longrightarrow> pin key (app_store b) = (p, s) \<Longrightarrow> app_tables (b\<lparr>app_store := s\<rparr>) = t"
  by (auto simp: app_tables_def tables_def table_def pin_def Let_def)

lemma fetch_step_tables: "app_tables (snd (fetch_step E net u ty leader d a)) = app_tables a"
proof (cases "(E, net, u, ty, leader, d, a)" rule: fetch_step.cases)
  case (10 E net u ty leader p a)
  obtain x b where run: "on_files (rename_file (paths_temp (al_paths leader)) (paths_body (paths_for (al_key leader)))) a = (x, b)"
    by (rule prod.exhaust)
  then have "app_tables b = app_tables a"
    using tables_files [of a "app_tables a"] by (metis snd_conv)
  then show ?thesis
    using 10 run by (cases x) (simp_all add: step_renaming_def on_app_store_def app_tables_def tables_def table_def flight_simps)
qed (auto simp: step_request_def step_opening_def step_footer_def
    intro!: tables_removing tables_files tables_counted tables_pinned split: prod.split)

lemma drop_point_tables: "app_tables (drop_point d a) = app_tables a"
  by (auto simp: drop_point_def on_app_store_def app_tables_def tables_def table_def flight_simps
      split: fetch_point.split sum.split fetch_outcome.split)

text \<open>A step of a request that passes through: the permit is on its way to the request or back.\<close>

abbreviation flight_part :: "app \<Rightarrow> (string \<rightharpoonup> nat) \<times> (nat \<Rightarrow> inflight_outcome option) \<times> nat" where
  "flight_part a \<equiv> (st_inflight (app_store a), st_outcomes (app_store a), st_next_inflight (app_store a))"

abbreviation upstream_permits :: "app \<Rightarrow> nat" where
  "upstream_permits a \<equiv> st_upstream_permits (app_store a)"

fun holding_permit :: "passing option \<Rightarrow> bool" where
  "holding_permit None = False"
| "holding_permit (Some q) = permit_held q"

definition permit_moves :: "bool \<Rightarrow> holding_app \<Rightarrow> passing option \<times> holding_app \<Rightarrow> bool" where
  "permit_moves h p x \<longleftrightarrow>
     flight_part (fst (snd x)) = flight_part (fst p) \<and> budget (snd x) = budget p
     \<and> upstream_permits (fst (snd x)) + of_bool (holding_permit (fst x)) = upstream_permits (fst p) + of_bool h"

lemma table_parts: "app_table a = app_table b \<longleftrightarrow> flight_part a = flight_part b \<and> upstream_permits a = upstream_permits b"
  by (auto simp: app_table_def table_def)

lemma passed_same: "level q p \<Longrightarrow> holding_permit x = h \<Longrightarrow> permit_moves h p (x, q)"
  by (simp add: permit_moves_def level_def table_parts)

lemma returned_permit:
  "flight_part (fst (return_permit p)) = flight_part (fst p)" "budget (return_permit p) = budget p"
  "upstream_permits (fst (return_permit p)) = Suc (upstream_permits (fst p))"
  by (simp_all add: return_permit_def on_app_store_def release_upstream_permit_def budget_def memory_def)

lemma passed_back: "level q p \<Longrightarrow> \<not> holding_permit x \<Longrightarrow> permit_moves True p (x, return_permit q)"
  using returned_permit [of q] by (simp add: permit_moves_def level_def table_parts)

lemma passed_reply_error: "level q p \<Longrightarrow> permit_moves True p (reply_error dropped e q)"
  by (simp add: reply_error_def passed_back level_dropped)

lemma passed_error:
  "level (snd r) p \<Longrightarrow> (\<And>x q. level q p \<Longrightarrow> permit_moves True p (k x q)) \<Longrightarrow> permit_moves True p (or_error dropped r k)"
  by (auto simp: or_error_def intro: passed_reply_error split: prod.split sum.split)

lemma passed_admitted: "level p' p \<Longrightarrow> permit_held q \<Longrightarrow> permit_moves False p (admitted q p')"
  by (auto simp: admitted_def permit_moves_def level_def table_parts on_app_def on_store_def try_acquire_upstream_permit_def
      budget_def memory_def split: prod.splits sum.splits)

lemmas passed_intros = passed_same passed_back passed_error passed_reply_error passed_admitted levels level_dropped level_count

lemma pass_head_passed: "permit_moves False p (pass_head E u p)"
proof -
  obtain r q where run: "on_app (on_store (load (env_codec E) (artifact_key (env_digest E) (lib_as_str (env_url E) u)))) p = (r, q)"
    by (rule prod.exhaust)
  then have "level q p"
    using level_stored [OF level_refl still_load, of "env_codec E" _ p] by (metis snd_conv)
  then show ?thesis
    using run by (auto simp: pass_head_def split: sum.split option.split intro: passed_intros)
qed

lemma pass_step_passed: "pass_step E net content q p = Some x \<Longrightarrow> permit_moves (permit_held q) p x"
proof (cases "(E, net, content, q, p)" rule: pass_step.cases)
qed (auto simp: pass_head_sent_def pass_search_def pass_audit_def pass_audit_body_def pass_sent_def pass_answer_def
    pass_chunk_def Let_def pass_head_passed split: option.split sum.split intro!: passed_intros)

lemma drop_passing_effect:
  "flight_part (drop_passing q (a, r)) = flight_part a" "memory (drop_passing q (a, r)) = budget (a, r)"
  "upstream_permits (drop_passing q (a, r)) = upstream_permits a + of_bool (permit_held q)"
  using level_dropped [OF level_refl [of "(a, r)"]] returned_permit [of "drop_memory (a, r)"]
  by (auto simp: drop_passing_def level_def table_parts budget_def drop_memory_def held_def return_permit_def)

section \<open>The in-flight table and the permits\<close>

text \<open>A request with a permit is to the machine a leader that has only its permit left.\<close>

definition job_phase :: "job \<Rightarrow> phase multiset" where
  "job_phase j = (case j of Passing q r \<Rightarrow> if permit_held q then {#Holds#} else {#} | _ \<Rightarrow> phase_of (job_task j))"

definition job_phases :: "job multiset \<Rightarrow> phase multiset" where
  "job_phases J = (\<Sum>j\<in>#J. job_phase j)"

lemma job_phases_simps [simp]:
  "job_phases {#} = {#}" "job_phases (J + K) = job_phases J + job_phases K"
  "job_phases (add_mset j J) = job_phase j + job_phases J"
  "job_phase (Plain t) = phase_of t" "job_phase (Reading c i d r) = {#Owns (call_key c) i True#}"
  "job_phase (Downloading c i e) = {#Owns (call_key c) i True#}"
  "job_phase (Passing q r) = (if permit_held q then {#Holds#} else {#})"
  by (simp_all add: job_phases_def job_phase_def)

lemma job_phases_plain [simp]: "job_phases (image_mset Plain M) = phases M"
  by (induction M) simp_all

lemma job_phases_tasks: "\<exists>M. phases M = job_phases J"
proof (induction J)
  case (add j J)
  then obtain M where M: "phases M = job_phases J"
    by blast
  obtain N where N: "phases N = job_phase j"
  proof (cases "\<exists>q r. j = Passing q r \<and> permit_held q")
    case True
    then show ?thesis
      by (intro that [of "{#Releasing undefined 0 None#}"]) auto
  next
    case False
    then show ?thesis
      by (intro that [of "{#job_task j#}"]) (auto simp: job_phase_def split: job.split)
  qed
  show ?case
    by (rule exI [of _ "N + M"]) (simp add: M N)
qed (rule exI [of _ "{#}"], simp)

definition job_view :: "system \<times> job multiset \<Rightarrow> sf_state" where
  "job_view x = (flights_of (fst x), job_phases (snd x))"

lemma sf_inv_simulated:
  assumes "simulated t s (ts, s')" and "sf_inv cap (flights_of s, phase_of t + job_phases J)"
  shows "sf_inv cap (flights_of s', phases (mset ts) + job_phases J)"
proof -
  obtain M where M: "phases M = job_phases J"
    using job_phases_tasks by blast
  let ?x = "view_of (s, add_mset t M)" and ?y = "view_of (s', mset ts + M)"
  have inv: "sf_inv cap ?x"
    using assms(2) by (simp add: view_of_def M)
  have "?x = ?y \<or> sf_step ?x ?y"
    using assms(1) by (simp add: simulated_def Let_def)
  then have "sf_inv cap ?y"
  proof
    assume "?x = ?y"
    then show ?thesis
      using inv by simp
  qed (use inv sf_inv_step in blast)
  then show ?thesis
    by (simp add: view_of_def M)
qed

text \<open>A request that passes through takes a permit, or gives it back.\<close>

lemma sf_inv_permit:
  assumes "sf_inv cap (f, (if h then {#Holds#} else {#}) + P)" and "p + of_bool h' = fl_permits f + of_bool h"
  shows "sf_inv cap (f\<lparr>fl_permits := p\<rparr>, (if h' then {#Holds#} else {#}) + P)"
  using assms
  by (auto simp: sf_inv_def permits_ok_def owners_ok_def waiters_ok_def wakeups_ok_def awake_ok_def split: if_splits)

text \<open>A reservation is made only after the request is answered.\<close>

fun job_ok :: "job \<Rightarrow> bool" where
  "job_ok (Reading c i d r) = (unanswered d \<longrightarrow> r = None)"
| "job_ok j = True"

lemma resolved_effect:
  "resolved (x, (a, r)) = (y, b) \<Longrightarrow>
     app_table b = app_table a \<and> memory b + (case y of Inr (_, res) \<Rightarrow> held res | Inl _ \<Rightarrow> 0) = budget (a, r)"
  using drop_reservation_files(2,5) [of r a] by (auto simp: resolved_def budget_def split: sum.splits)

lemma set_app_flights:
  "flights_of (s\<lparr>sys_app := a\<rparr>) = (flights_of s)\<lparr>fl_permits := upstream_permits a\<rparr>"
  if "flight_part a = flight_part (sys_app s)"
  using that by (simp add: flights_of_def the_store_def)

lemma same_table_flights: "app_table a = app_table (sys_app s) \<Longrightarrow> flights_of (s\<lparr>sys_app := a\<rparr>) = flights_of s"
  by (rule flights_of_cong) simp_all

lemma app_tables_table: "app_tables b = app_tables a \<Longrightarrow> app_table b = app_table a \<and> memory b = memory a"
  by (simp add: app_tables_def tables_def app_table_def memory_def)

lemma job_plain_cases:
  assumes "job_plain E net t s = Some (js, s')"
  obtains (fetch) c i where "t = Fetching c i" and "js = [start_fetch c i]" and "s' = s"
  | (other) ts where "\<And>c i. t \<noteq> Fetching c i" and "advance E net t s = Some (ts, s')" and "js = map Plain ts"
proof (cases "\<exists>c i. t = Fetching c i")
  case True
  then show ?thesis
    using assms fetch by (auto simp: job_plain_def)
next
  case False
  then have "map_option (\<lambda>(ts, s'). (map Plain ts, s')) (advance E net t s) = Some (js, s')"
    using assms by (cases t) (auto simp: job_plain_def)
  then show ?thesis
    using other False by (auto split: prod.splits)
qed

lemma start_fetch_phase [simp]: "job_phase (start_fetch c i) = {#Owns (call_key c) i True#}" "job_ok (start_fetch c i)"
  by (simp_all add: start_fetch_def)

lemma map_plain [simp]: "job_phases (mset (map Plain ts)) = phases (mset ts)" "\<forall>k\<in>set (map Plain ts). job_ok k"
  by (simp_all add: mset_map)

lemma job_reading_effect:
  assumes "job_reading E net c i d r s = (js, s')" and "unanswered d \<Longrightarrow> r = None"
  obtains d' r' a where "js = [Reading c i d' r']" and "s' = s\<lparr>sys_app := a\<rparr>" and "level (a, r') (sys_app s, r)"
    and "unanswered d' \<Longrightarrow> r' = None"
proof -
  obtain d' a r' where run: "document_step E net (call_upstream c) (call_type c) (call_rewrite c) (call_key c) d (sys_app s, r) = (d', (a, r'))"
    by (metis surj_pair)
  from document_step_level [OF run] assms(2) have "level (a, r') (sys_app s, r)" "unanswered d' \<Longrightarrow> r' = None"
    by simp_all
  moreover have "js = [Reading c i d' r']" "s' = s\<lparr>sys_app := a\<rparr>"
    using assms(1) run by (simp_all add: job_reading_def)
  ultimately show thesis
    using that by blast
qed

lemma job_downloading_effect:
  assumes "job_downloading E net c i d s = (js, s')"
  obtains d' a where "js = [Downloading c i d']" and "s' = s\<lparr>sys_app := a\<rparr>" and "app_tables a = app_tables (sys_app s)"
proof -
  obtain d' a where run: "fetch_step E net (call_upstream c) (call_type c) (leader_of c i) d (sys_app s) = (d', a)"
    by (rule prod.exhaust)
  then have "app_tables a = app_tables (sys_app s)"
    using fetch_step_tables by (metis snd_conv)
  then show thesis
    using assms run by (auto simp: job_downloading_def intro!: that)
qed

lemma job_passing_effect:
  assumes "pass_step E net content q (sys_app s, r) = Some x" and "job_passing x s = (js, s')"
  obtains (left) q' r' a where "js = [Passing q' r']" and "s' = s\<lparr>sys_app := a\<rparr>" and "flight_part a = flight_part (sys_app s)"
    and "memory a + held r' = memory (sys_app s) + held r"
    and "upstream_permits a + of_bool (permit_held q') = upstream_permits (sys_app s) + of_bool (permit_held q)"
  | (gone) a where "js = []" and "s' = s\<lparr>sys_app := a\<rparr>" and "flight_part a = flight_part (sys_app s)"
    and "memory a = memory (sys_app s) + held r"
    and "upstream_permits a = upstream_permits (sys_app s) + of_bool (permit_held q)"
proof -
  obtain q' a r' where x: "x = (q', (a, r'))"
    by (metis surj_pair)
  have p: "permit_moves (permit_held q) (sys_app s, r) (q', (a, r'))"
    using pass_step_passed [OF assms(1)] x by simp
  show thesis
  proof (cases q')
    case (Some q'')
    then show ?thesis
      using assms(2) p x by (intro left [of q'' r' a]) (simp_all add: job_passing_def permit_moves_def budget_def)
  next
    case None
    have "level (drop_memory (a, r')) (a, r')"
      by (intro level_dropped level_refl)
    then show ?thesis
      using assms(2) p x None
      by (intro gone [of "fst (drop_memory (a, r'))"])
        (simp_all add: job_passing_def permit_moves_def level_def table_parts budget_def drop_memory_def held_def)
  qed
qed

lemma job_fetching_step:
  assumes "job_step E net content j s = Some (js, s')" and "job_task j = Fetching c i" and "job_ok j"
  shows "flights_of s' = flights_of s" and "job_phases (mset js) = {#Owns (call_key c) i True#}" and "\<forall>k\<in>set js. job_ok k"
proof -
  have "flights_of s' = flights_of s \<and> job_phases (mset js) = {#Owns (call_key c) i True#} \<and> (\<forall>k\<in>set js. job_ok k)"
  proof (cases j)
    case (Plain t)
    then show ?thesis
      using assms(1,2) by (auto simp: job_step_def job_plain_def)
  next
    case (Reading c' i' d r)
    show ?thesis
    proof (cases "\<exists>result. d = document_point.Answered result")
      case True
      then obtain result where d: "d = document_point.Answered result"
        by blast
      obtain y a where run: "resolved (result, (sys_app s, r)) = (y, a)"
        by (rule prod.exhaust)
      have "flights_of (s\<lparr>sys_app := a\<rparr>) = flights_of s"
        using resolved_effect [OF run] by (simp add: same_table_flights)
      then show ?thesis
        using assms(1,2) Reading d run by (auto simp: job_step_def job_answered_def held_flights)
    next
      case False
      then have "job_reading E net c' i' d r s = (js, s')"
        using assms(1) Reading by (cases d) (auto simp: job_step_def)
      moreover have "unanswered d \<Longrightarrow> r = None"
        using assms(3) Reading by simp
      ultimately show ?thesis
        by (rule job_reading_effect) (use assms(2) Reading in \<open>auto simp: level_def same_table_flights\<close>)
    qed
  next
    case (Downloading c' i' d)
    show ?thesis
    proof (cases "\<exists>r. d = Fetched r")
      case True
      then show ?thesis
        using assms(1,2) Downloading by (auto simp: job_step_def job_fetched_def)
    next
      case False
      then have "job_downloading E net c' i' d s = (js, s')"
        using assms(1) Downloading by (cases d) (auto simp: job_step_def)
      then show ?thesis
      proof (rule job_downloading_effect)
        fix d' a
        assume "js = [Downloading c' i' d']" "s' = s\<lparr>sys_app := a\<rparr>" "app_tables a = app_tables (sys_app s)"
        then show ?thesis
          using assms(2) Downloading same_table_flights [of a s] app_tables_table [of a "sys_app s"] by simp
      qed
    qed
  qed (use assms(2) in simp)
  then show "flights_of s' = flights_of s" "job_phases (mset js) = {#Owns (call_key c) i True#}" "\<forall>k\<in>set js. job_ok k"
    by simp_all
qed

lemma job_step_inv:
  assumes "job_step E net content j s = Some (js, s')" and "job_ok j"
    and "sf_inv cap (flights_of s, job_phase j + job_phases J)"
  shows "sf_inv cap (flights_of s', job_phases (mset js) + job_phases J) \<and> (\<forall>k\<in>set js. job_ok k)"
proof (cases "\<exists>c i. job_task j = Fetching c i")
  case True
  then obtain c i where j: "job_task j = Fetching c i"
    by blast
  then have "job_phase j = {#Owns (call_key c) i True#}"
    by (cases j) simp_all
  then show ?thesis
    using job_fetching_step [OF assms(1) j assms(2)] assms(3) by simp
next
  case False
  then show ?thesis
  proof (cases j)
    case (Plain t)
    have "job_plain E net t s = Some (js, s')"
      using assms(1) Plain by (simp add: job_step_def)
    then show ?thesis
    proof (cases rule: job_plain_cases)
      case (other ts)
      have "simulated t s (ts, s')"
        using other(2) by (rule advance_simulated)
      then show ?thesis
        using sf_inv_simulated assms(3) Plain other(3) by simp
    qed (use False Plain in simp)
  next
    case (Passing q r)
    then obtain x where x: "pass_step E net content q (sys_app s, r) = Some x" "job_passing x s = (js, s')"
      using assms(1) by (auto simp: job_step_def)
    then show ?thesis
    proof (cases rule: job_passing_effect)
      case (left q' r' a)
      have "sf_inv cap ((flights_of s)\<lparr>fl_permits := upstream_permits a\<rparr>, (if permit_held q' then {#Holds#} else {#}) + job_phases J)"
        using assms(3) left(5) Passing by (intro sf_inv_permit) (simp_all add: the_store_def)
      then show ?thesis
        using left set_app_flights [OF left(3)] by simp
    next
      case (gone a)
      have "sf_inv cap ((flights_of s)\<lparr>fl_permits := upstream_permits a\<rparr>, (if False then {#Holds#} else {#}) + job_phases J)"
        using assms(3) gone(5) Passing by (intro sf_inv_permit) (simp_all add: the_store_def)
      then show ?thesis
        using gone set_app_flights [OF gone(3)] by simp
    qed
  qed simp_all
qed

lemma job_begun_flights: "flights_of (job_begun j s) = flights_of s"
proof -
  have "flights_of (s\<lparr>sys_app := finish_document key d (sys_app s)\<rparr>) = flights_of s"
    "flights_of (s\<lparr>sys_app := finish_begun leader e (sys_app s)\<rparr>) = flights_of s" for key d leader e
    by (intro same_table_flights app_tables_table [THEN conjunct1] begun_level)+
  then show ?thesis
    by (simp add: job_begun_def split: job.split)
qed

lemma cancelled_fetch_inv:
  assumes "sf_inv cap (flights_of s, {#Owns (call_key c) i True#} + P)" and "flights_of t = flights_of s"
  shows "sf_inv cap (flights_of (with_store release_upstream_permit t), {#Owns (call_key c) i False#} + P)"
  using sf_inv_step [OF sf_step.abandon, of "Owns (call_key c) i True" "call_key c" i cap "flights_of s" P] assms released_flights(2) [of t]
  by simp

lemma job_cancel_inv:
  assumes "job_cancel j s = Some (js, s')" and "sf_inv cap (flights_of s, job_phase j + job_phases J)"
  shows "sf_inv cap (flights_of s', job_phases (mset js) + job_phases J) \<and> (\<forall>k\<in>set js. job_ok k)"
proof (cases j)
  case (Plain t)
  then obtain ts where "cancel t s = Some (ts, s')" and js: "js = map Plain ts"
    using assms(1) by (auto simp: job_cancel_def)
  from cancel_simulated [OF this(1)] show ?thesis
    using sf_inv_simulated assms(2) Plain js by simp
next
  case (Reading c i d r)
  then show ?thesis
    using assms cancelled_fetch_inv [where t = "s\<lparr>sys_app := drop_document d (sys_app s, r)\<rparr>" and s = s]
    by (auto simp: job_cancel_def same_table_flights drop_document_level)
next
  case (Downloading c i d)
  then show ?thesis
    using assms cancelled_fetch_inv [where t = "s\<lparr>sys_app := drop_point d (sys_app s)\<rparr>" and s = s]
      same_table_flights [of "drop_point d (sys_app s)" s] app_tables_table [OF drop_point_tables]
    by (auto simp: job_cancel_def)
next
  case (Passing q r)
  let ?a = "drop_passing q (sys_app s, r)"
  have "sf_inv cap ((flights_of s)\<lparr>fl_permits := upstream_permits ?a\<rparr>, (if False then {#Holds#} else {#}) + job_phases J)"
    using assms(2) Passing by (intro sf_inv_permit) (simp_all add: the_store_def drop_passing_effect)
  then show ?thesis
    using assms(1) Passing set_app_flights [of ?a s] by (auto simp: job_cancel_def drop_passing_effect)
qed

definition jobs_ok :: "nat \<Rightarrow> system \<times> job multiset \<Rightarrow> bool" where
  "jobs_ok cap x \<longleftrightarrow> sf_inv cap (job_view x) \<and> (\<forall>j\<in>#snd x. job_ok j)"

lemma jobs_okD:
  assumes "jobs_ok cap (s, add_mset j J)"
  shows "sf_inv cap (flights_of s, job_phase j + job_phases J)" and "job_ok j" and "k \<in># J \<Longrightarrow> job_ok k"
  using assms by (simp_all add: jobs_ok_def job_view_def)

lemma jobs_okI:
  assumes "sf_inv cap (flights_of s', job_phases (mset js) + job_phases J) \<and> (\<forall>k\<in>set js. job_ok k)"
    and "\<And>k. k \<in># J \<Longrightarrow> job_ok k"
  shows "jobs_ok cap (s', mset js + J)"
  using assms by (auto simp: jobs_ok_def job_view_def)

lemma job_flight: "q \<in># job_phases J \<Longrightarrow> flight_of q = Some i \<Longrightarrow> \<exists>t\<in>#job_tasks J. refers t = Some i"
proof (induction J)
  case (add j J)
  have "refers (job_task j) = Some i" if "q \<in># job_phase j"
    using that add.prems(2) phase_refers [of q "job_task j" i] by (cases j) (auto split: if_splits)
  then show ?case
    using add by auto
qed simp

lemma reap_flights:
  "flights_of (reap i s) = flights_of s \<or>
   flights_of (reap i s) = (flights_of s)\<lparr>fl_settled := fl_settled (flights_of s) - {i}\<rparr>"
  using reap_simulated [of "{#}" i s]
  by (cases "st_outcomes (the_store s) i")
    (auto simp: reap_def flights_of_def table_simps flight_simps release_reservation_def the_store_def with_store_def
      on_app_store_def)

lemma jobs_step_ok:
  assumes "jobs_step E (s, J) (s', J')" and "jobs_ok cap (s, J)"
  shows "jobs_ok cap (s', J')"
  using assms(1)
proof cases
  case (advancing net content j js K)
  note ok = jobs_okD [OF assms(2) [unfolded advancing(1)]]
  show ?thesis
    unfolding advancing(2) using job_step_inv [OF advancing(3) ok(2,1)] ok(3) by (rule jobs_okI)
next
  case (dropping j t js K)
  note ok = jobs_okD [OF assms(2) [unfolded dropping(1)]]
  have "flights_of t = flights_of s"
    using dropping(4) job_begun_flights by auto
  then have "sf_inv cap (flights_of t, job_phase j + job_phases K)"
    using ok(1) by simp
  from job_cancel_inv [OF dropping(3) this] ok(3) show ?thesis
    unfolding dropping(2) by (rule jobs_okI)
next
  case (admitting_call c)
  then show ?thesis
    using assms(2) by (simp add: jobs_ok_def job_view_def start_task_def)
next
  case (admitting_passing q)
  then show ?thesis
    using assms(2) by (cases q) (simp_all add: jobs_ok_def job_view_def)
next
  case (reaping_flight i)
  have "\<forall>q\<in>#job_phases J. flight_of q \<noteq> Some i"
    using job_flight reaping_flight(3) by blast
  then have "sf_step (flights_of s, job_phases J) ((flights_of s)\<lparr>fl_settled := fl_settled (flights_of s) - {i}\<rparr>, job_phases J)"
    using reaping_flight(4) by (intro sf_step.forget) simp_all
  then have "sf_inv cap (flights_of s', job_phases J)"
    using reap_flights [of i s] assms(2) sf_inv_step unfolding reaping_flight(1) by (auto simp: jobs_ok_def job_view_def)
  then show ?thesis
    using assms(2) reaping_flight(2) by (simp add: jobs_ok_def job_view_def)
next
  case evicting_files
  then show ?thesis
    using assms(2) by (simp add: jobs_ok_def job_view_def janitor_flights)
next
  case (settling_file i n)
  then show ?thesis
    using assms(2) by (simp add: jobs_ok_def job_view_def background_write_def with_store_flights table_def)
next
  case time_passing
  then show ?thesis
    using assms(2) by (simp add: jobs_ok_def job_view_def tick_def with_store_flights table_def)
qed

lemma jobs_run_ok:
  assumes "(jobs_step E)\<^sup>*\<^sup>* (initial t, {#}) y" and "new_store max_size fetches f = (Inr t, g)"
  shows "jobs_ok fetches y"
  using assms(1)
proof (induction rule: rtranclp_induct)
  case base
  show ?case
    using reachable_inv [OF new_store_owns_nothing(2) [OF assms(2)]] by (simp add: jobs_ok_def job_view_def view_of_def)
next
  case (step y z)
  then show ?case
    using jobs_step_ok [of E "fst y" "snd y" "fst z" "snd z"] by simp
qed

section \<open>Properties\<close>

fun job_permit :: "job \<Rightarrow> bool" where
  "job_permit (Passing q r) = permit_held q"
| "job_permit (Reading c i d r) = True"
| "job_permit (Downloading c i d) = True"
| "job_permit (Plain t) = holds_permit t"

definition ends_flight :: "job \<Rightarrow> (string \<times> nat) option" where
  "ends_flight j = will_end (job_task j)"

lemma job_permits_phases: "(\<Sum>q\<in>#job_phases J. permits_of q) = size {#j \<in># J. job_permit j#}"
proof (induction J)
  case (add j J)
  have "(\<Sum>q\<in>#job_phase j. permits_of q) = of_bool (job_permit j)"
    using permits_phases [of "{#t#}" for t] by (cases j) auto
  then show ?case
    using add by simp
qed simp

lemma job_owners_phases: "owners k (job_phases J) = size {#j \<in># J. map_option fst (ends_flight j) = Some k#}"
proof (induction J)
  case (add j J)
  have "owners k (job_phase j) = of_bool (map_option fst (ends_flight j) = Some k)"
    using owners_phases [of k "{#t#}" for t] by (cases j) (auto simp: ends_flight_def)
  then show ?case
    using add by simp
qed simp

lemma ends_flight_phase: "ends_flight j = Some (k, i) \<longleftrightarrow> (\<exists>q\<in>#job_phase j. owned q = Some (k, i))"
  using will_end_phase by (cases j) (auto simp: ends_flight_def)

lemma job_phase_in: "q \<in># job_phases J \<longleftrightarrow> (\<exists>j\<in>#J. q \<in># job_phase j)"
  by (induction J) auto

text \<open>
  C20: All requests share the upstream permits and the in-flight table.  However the jobs of the program run
  from the store \<^verbatim>\<open>CacheStore::new\<close> made, with fetches, artifact HEAD requests, searches and audits interleaved at
  their await points, cancelled anywhere and failing: the permits that are left and the jobs that hold one
  add up to the configured number; a key is in the table exactly when one job is going to end its flight,
  and never more than one, and that flight is the one in the table; and a request that sleeps on a flight
  can be woken, or a job is going to end that flight.
\<close>

theorem jobs_share_capacity:
  assumes "new_store max_size fetches f = (Inr t, g)" and "(jobs_step E)\<^sup>*\<^sup>* (initial t, {#}) (s, J)"
  shows "st_upstream_permits (the_store s) + size {#j \<in># J. job_permit j#} = fetches
    \<and> (\<forall>key. size {#j \<in># J. map_option fst (ends_flight j) = Some key#} =
         (if st_inflight (the_store s) key = None then 0 else 1))
    \<and> (\<forall>j\<in>#J. \<forall>key i. ends_flight j = Some (key, i) \<longrightarrow> st_inflight (the_store s) key = Some i)
    \<and> (\<forall>c i n. Plain (Sleeping c i n) \<in># J \<longrightarrow>
         n < sys_epochs s i \<or> (\<exists>j\<in>#J. \<exists>key. ends_flight j = Some (key, i)))"
proof -
  have inv: "sf_inv fetches (flights_of s, job_phases J)"
    using jobs_run_ok [OF assms(2,1)] by (simp add: jobs_ok_def job_view_def)
  then have ok: "permits_ok fetches (flights_of s, job_phases J)" "owners_ok (flights_of s, job_phases J)"
    by (simp_all add: sf_inv_def)
  have "st_inflight (the_store s) key = Some i" if "j \<in># J" "ends_flight j = Some (key, i)" for j key i
    using owners_okD(2) [OF ok(2)] that job_phase_in ends_flight_phase by (metis flights_sel(1))
  moreover have "n < sys_epochs s i \<or> (\<exists>j\<in>#J. \<exists>key. ends_flight j = Some (key, i))"
    if "Plain (Sleeping c i n) \<in># J" for c i n
  proof -
    have "Sleeps i n \<in># job_phases J"
      using that unfolding job_phase_in by (intro bexI [of _ "Plain (Sleeping c i n)"]) simp_all
    from sleeper_progress [OF inv this] show ?thesis
      using job_phase_in ends_flight_phase by (metis flights_sel(5))
  qed
  ultimately show ?thesis
    using ok(1) owners_okD(1) [OF ok(2)] by (simp add: permits_ok_def job_permits_phases job_owners_phases)
qed

section \<open>An instance\<close>

text \<open>An audit arrives and is admitted: three of four permits are left.\<close>

definition sample_audit :: uri where
  "sample_audit = \<lparr>uri_scheme = None, uri_authority = None, uri_path = ''/npm/-/npm/v1/security/audits/quick'', uri_query = None\<rparr>"

lemma sample_jobs:
  obtains f t s where "new_store 100 4 f = (Inr t, st_fs t)"
    and "(jobs_step (sample_env page_meta))\<^sup>*\<^sup>* (initial t, {#})
      (s, {#Passing (Audit_body ''-/npm/v1/security/audits/quick'' []) None#})"
    and "s = (initial t)\<lparr>sys_app := \<lparr>app_store = t\<lparr>st_upstream_permits := 3\<rparr>,
      app_stats = record_npm_audit_request default_stats\<rparr>\<rparr>"
proof -
  obtain f t where new: "new_store 100 4 f = (Inr t, st_fs t)"
    using sample_new_store by blast
  let ?E = "sample_env page_meta" and ?a = "Passing (Audit_arrived sample_audit []) None"
  let ?b = "Passing (Audit_body ''-/npm/v1/security/audits/quick'' []) None"
  let ?s = "(initial t)\<lparr>sys_app := \<lparr>app_store = t\<lparr>st_upstream_permits := 3\<rparr>, app_stats = record_npm_audit_request default_stats\<rparr>\<rparr>"
  have "st_upstream_permits t = 4"
    using new_store_tables [OF new] by (simp add: tables_def table_def empty_store_def)
  then have "job_step ?E undefined undefined ?a (initial t) = Some ([?b], ?s)"
    by (simp add: job_step_def pass_audit_def sample_audit_def audit_path_def admitted_def count_event_def initial_def on_app_def
        on_store_def try_acquire_upstream_permit_def job_passing_def)
  then have "jobs_step ?E (initial t, {#?a#}) (?s, {#?b#})"
    using jobs_step.advancing [of ?E undefined undefined ?a "initial t" "[?b]" ?s "{#}"] by simp
  moreover have "jobs_step ?E (initial t, {#}) (initial t, {#?a#})"
    by (rule jobs_step.admitting_passing) simp
  ultimately have "(jobs_step ?E)\<^sup>*\<^sup>* (initial t, {#}) (?s, {#?b#})"
    by (meson rtranclp.rtrancl_into_rtrancl rtranclp.rtrancl_refl)
  then show thesis
    using that [OF new] by blast
qed

lemma jobs_share_capacity_witness:
  "\<exists>f t s. new_store 100 4 f = (Inr t, st_fs t)
     \<and> (jobs_step (sample_env page_meta))\<^sup>*\<^sup>* (initial t, {#})
         (s, {#Passing (Audit_body ''-/npm/v1/security/audits/quick'' []) None#})
     \<and> st_upstream_permits (the_store s) + 1 = 4 \<and> st_inflight (the_store s) sample_key = None"
proof -
  obtain f t s where run: "new_store 100 4 f = (Inr t, st_fs t)"
    "(jobs_step (sample_env page_meta))\<^sup>*\<^sup>* (initial t, {#})
      (s, {#Passing (Audit_body ''-/npm/v1/security/audits/quick'' []) None#})"
    by (rule sample_jobs)
  have "st_upstream_permits (the_store s) + 1 = 4" "st_inflight (the_store s) sample_key = None"
    using jobs_share_capacity [OF run] by (auto simp: ends_flight_def split: if_splits)
  then show ?thesis
    using run by blast
qed

end
