(* ===== verification/MemoryBudget.thy ===== *)
theory MemoryBudget
  imports Jobs
begin

text \<open>
  The memory that metadata bodies hold, in the whole program: a reservation is made while a body is read,
  by the leader of a flight or by a search or an audit; the leader's goes to its flight at the end of the
  fetch and stays until the last owner of the flight is gone; a search or an audit holds its own until the
  answer is delivered.  The invariant balances the permits of the semaphore with all of them.
\<close>

section \<open>The invariant\<close>

fun fetching :: "task \<Rightarrow> nat option" where
  "fetching (Fetching c i) = Some i"
| "fetching _ = None"

text \<open>A leader that has fetched and not stored its outcome yet.\<close>

fun holding :: "task \<Rightarrow> nat option" where
  "holding (Completing c i outcome (Leader reply)) = Some i"
| "holding _ = None"

text \<open>The permits of the semaphore and those that bodies hold.\<close>

definition memory_permits :: "system \<Rightarrow> nat" where
  "memory_permits s =
     st_memory_permits (the_store s) + (\<Sum>i<(st_next_inflight (the_store s)). held (sys_held s i))"

text \<open>\<open>x\<close> is what the jobs hold on their own.\<close>

definition memory_ok :: "nat \<Rightarrow> task multiset \<Rightarrow> system \<Rightarrow> bool" where
  "memory_ok x M s \<longleftrightarrow>
     memory_permits s + x = METADATA_MEMORY_BUDGET_MIB
     \<and> (\<forall>i\<ge>st_next_inflight (the_store s). sys_held s i = None)
     \<and> (\<forall>t\<in>#M. \<forall>i. fetching t = Some i \<longrightarrow> sys_held s i = None)
     \<and> (\<forall>i. sys_held s i \<noteq> None \<longrightarrow> st_outcomes (the_store s) i \<noteq> None \<or> Some i \<in> holding ` set_mset M)"

lemma memory_okI:
  assumes "memory_permits s + x = METADATA_MEMORY_BUDGET_MIB"
    and "\<And>i. st_next_inflight (the_store s) \<le> i \<Longrightarrow> sys_held s i = None"
    and "\<And>t i. t \<in># M \<Longrightarrow> fetching t = Some i \<Longrightarrow> sys_held s i = None"
    and "\<And>i. sys_held s i \<noteq> None \<Longrightarrow> st_outcomes (the_store s) i = None \<Longrightarrow> Some i \<in> holding ` set_mset M"
  shows "memory_ok x M s"
  using assms unfolding memory_ok_def by blast

lemma memory_okD:
  assumes "memory_ok x M s"
  shows "memory_permits s + x = METADATA_MEMORY_BUDGET_MIB"
    and "st_next_inflight (the_store s) \<le> i \<Longrightarrow> sys_held s i = None"
    and "t \<in># M \<Longrightarrow> fetching t = Some i \<Longrightarrow> sys_held s i = None"
    and "sys_held s i \<noteq> None \<Longrightarrow> st_outcomes (the_store s) i = None \<Longrightarrow> Some i \<in> holding ` set_mset M"
  using assms unfolding memory_ok_def by blast+

text \<open>Most steps move no memory: they may store outcomes, and tasks that neither fetch nor hold come and go.\<close>

definition quiet :: "system \<Rightarrow> system \<Rightarrow> bool" where
  "quiet s t \<longleftrightarrow>
     sys_held t = sys_held s \<and> st_memory_permits (the_store t) = st_memory_permits (the_store s)
     \<and> st_next_inflight (the_store t) = st_next_inflight (the_store s)
     \<and> (\<forall>i. st_outcomes (the_store t) i = None \<longrightarrow> st_outcomes (the_store s) i = None)"

lemma quiet_tables: "sys_held t = sys_held s \<Longrightarrow> tables (the_store t) = tables (the_store s) \<Longrightarrow> quiet s t"
  by (simp add: quiet_def tables_def table_def)

lemma quiet_trans: "quiet s t \<Longrightarrow> quiet t u \<Longrightarrow> quiet s u"
  by (simp add: quiet_def)

lemma quiet_refl: "quiet s s"
  by (simp add: quiet_def)

lemma quiet_run_app: "run_app m s = (r, t) \<Longrightarrow> still app_tables m \<Longrightarrow> quiet s t"
  by (rule quiet_tables) (auto simp: run_app_def app_tables_def the_store_def dest: stillD split: prod.splits)

lemma quiet_with_store: "tables (f (the_store s)) = tables (the_store s) \<Longrightarrow> quiet s (with_store f s)"
  by (rule quiet_tables, simp add: with_store_def, simp add: table_simps)

lemma memory_ok_quiet:
  assumes "memory_ok x M s" and "quiet s t" and "\<And>u i. u \<in># N \<Longrightarrow> fetching u = Some i \<Longrightarrow> u \<in># M"
    and "\<And>u i. u \<in># M \<Longrightarrow> holding u = Some i \<Longrightarrow> st_outcomes (the_store t) i = None \<Longrightarrow> u \<in># N"
  shows "memory_ok x N t"
proof (rule memory_okI)
  note ok = memory_okD [OF assms(1)] and same = assms(2) [unfolded quiet_def]
  show "memory_permits t + x = METADATA_MEMORY_BUDGET_MIB"
    using ok(1) same by (simp add: memory_permits_def)
  show "sys_held t i = None" if "st_next_inflight (the_store t) \<le> i" for i
    using ok(2) that same by simp
  show "sys_held t i = None" if "u \<in># N" "fetching u = Some i" for u i
    using ok(3) [OF assms(3)] that same by simp
  show "Some i \<in> holding ` set_mset N" if "sys_held t i \<noteq> None" "st_outcomes (the_store t) i = None" for i
  proof -
    have "Some i \<in> holding ` set_mset M"
      using ok(4) that same by simp
    then obtain u where "u \<in># M" "holding u = Some i"
      by force
    then show ?thesis
      using assms(4) that(2) by force
  qed
qed

lemma memory_ok_replace:
  assumes "memory_ok x (add_mset t R) s" and "quiet s s'" and "\<forall>u\<in>set ts. fetching u = None"
    and "holding t = None"
  shows "memory_ok x (mset ts + R) s'"
  using assms(1,2) by (rule memory_ok_quiet) (use assms(3,4) in auto)

text \<open>The memory of one flight is charged or freed.\<close>

lemma held_put:
  assumes "i < (n :: nat)"
  shows "(\<Sum>j<n. held ((h(i := r)) j)) + held (h i) = (\<Sum>j<n. held (h j)) + held r"
proof -
  have "(\<Sum>j<n. held (g j)) = held (g i) + (\<Sum>j\<in>{..<n} - {i}. held (g j))" for g :: "nat \<Rightarrow> reservation"
    using assms by (intro sum.remove) simp_all
  from this [of h] this [of "h(i := r)"] show ?thesis
    by simp
qed

lemma memory_permits_put:
  assumes "i < st_next_inflight (the_store s)" and "sys_held t = (sys_held s)(i := r)"
    and "st_next_inflight (the_store t) = st_next_inflight (the_store s)"
    and "st_memory_permits (the_store t) + held r = st_memory_permits (the_store s) + held (sys_held s i)"
  shows "memory_permits t = memory_permits s"
  using held_put [OF assms(1), of "sys_held s" r] assms(2-4) by (simp add: memory_permits_def)

section \<open>What jobs hold\<close>

fun job_memory :: "job \<Rightarrow> reservation" where
  "job_memory (Reading c i d r) = r"
| "job_memory (Passing q r) = r"
| "job_memory j = None"

definition jobs_memory :: "job multiset \<Rightarrow> nat" where
  "jobs_memory J = (\<Sum>j\<in>#J. held (job_memory j))"

lemma jobs_memory_simps [simp]:
  "jobs_memory {#} = 0" "jobs_memory (J + K) = jobs_memory J + jobs_memory K"
  "jobs_memory (add_mset j J) = held (job_memory j) + jobs_memory J" "held None = 0"
  by (simp_all add: jobs_memory_def held_def)

lemma jobs_plain [simp]: "jobs_memory (image_mset Plain M) = 0" "job_tasks (image_mset Plain M) = M"
  by (induction M) simp_all

section \<open>Steps\<close>

lemma quiet_count_join: "quiet s (count_join c s)"
  by (auto simp: count_join_def quiet_refl intro: quiet_run_app [OF prod.collapse [symmetric] still_tables_count])

lemma tables_outcomes [simp]:
  "tables (drop_outcome q s) = tables s" "tables (clone_outcome q s) = tables s"
  by (simp_all add: drop_outcome_def clone_outcome_def clone_published_def tables_def table_def flight_simps
      split: inflight_outcome.split)

lemma quiet_loading: "quiet s (snd (step_loading E c s))"
proof -
  let ?m = "on_store (load (env_codec E) (call_key c))"
  obtain r t where t: "run_app ?m s = (r, t)"
    by force
  have "quiet s t"
    by (rule quiet_run_app [OF t still_tables_store [OF still_load]])
  moreover have "quiet t u" if "run_app (on_files (file_response (env_http E) e)) t = (r', u)" for e r' u
    by (rule quiet_run_app [OF that still_tables_files])
  ultimately show ?thesis
    using t by (auto simp: step_loading_def intro: quiet_trans split: sum.split option.split prod.split)
qed

lemma quiet_making_shard: "quiet s (snd (step_making_shard c s))"
  using quiet_run_app [OF _ still_tables_store [OF still_make_shard]]
  by (auto simp: step_making_shard_def split: prod.split sum.split)

lemma quiet_serving: "quiet s (snd (step_serving E c i q s))"
  using quiet_run_app [OF _ still_serve_tables, THEN quiet_trans [OF _ quiet_with_store]]
  by (auto simp: step_serving_def quiet_with_store split: prod.split)

lemma quiet_cleaning: "quiet s (snd (step_cleaning c i s))"
  using quiet_run_app [OF prod.collapse [symmetric] still_tables_files]
  by (auto simp: step_cleaning_def quiet_refl)

lemma quiet_ending:
  "quiet s (snd (step_notifying c i r s))" "quiet s (snd (step_finishing c i r s))"
  "quiet s (snd (step_releasing c i reply s))" "quiet s (with_store release_upstream_permit s)"
  by (simp_all add: step_notifying_def step_finishing_def step_releasing_def quiet_def the_store_def with_store_def
      on_app_store_def finish_inflight_def release_upstream_permit_def)

lemma quiet_completing:
  "quiet s (snd (step_completing c i q r s))" "st_outcomes (the_store (snd (step_completing c i q r s))) i \<noteq> None"
  by (auto simp: step_completing_def complete_def quiet_def table_simps with_store_def the_store_def on_app_store_def
      drop_outcome_def flight_simps split: inflight_outcome.split)

text \<open>A new flight holds no memory.\<close>

lemma memory_leading:
  assumes "memory_ok x (add_mset (Leading c) R) s"
  shows "memory_ok x (mset (fst (step_leading c s)) + R) (snd (step_leading c s))"
proof -
  let ?t = "the_store s" and ?n = "st_next_inflight (the_store s)"
  show ?thesis
  proof (cases "st_inflight ?t (call_key c) = None \<and> st_upstream_permits ?t \<noteq> 0")
    case False
    then have "\<forall>u\<in>set (fst (step_leading c s)). fetching u = None" "quiet s (snd (step_leading c s))"
      by (auto simp: step_leading_def run_app_def io_simps join_or_lead_run the_store_def quiet_count_join quiet_refl
          split: option.splits)
    then show ?thesis
      by (intro memory_ok_replace [OF assms]) simp_all
  next
    case True
    let ?s = "snd (step_leading c s)"
    note ok = memory_okD [OF assms]
    have s: "sys_held ?s = sys_held s" "st_memory_permits (the_store ?s) = st_memory_permits ?t"
      "st_next_inflight (the_store ?s) = Suc ?n" "st_outcomes (the_store ?s) = (st_outcomes ?t)(?n := None)"
      and ts: "fst (step_leading c s) = (if call_artifact c then [Arming c ?n, Fetching c ?n] else [Fetching c ?n])"
      using True by (auto simp: step_leading_def run_app_def io_simps join_or_lead_run the_store_def)
    have none: "sys_held s ?n = None"
      using ok(2) by simp
    show ?thesis
    proof (rule memory_okI)
      show "memory_permits ?s + x = METADATA_MEMORY_BUDGET_MIB"
        using ok(1) s none by (simp add: memory_permits_def held_def)
      show "sys_held ?s i = None" if "st_next_inflight (the_store ?s) \<le> i" for i
        using that ok(2) s by simp
      show "sys_held ?s i = None" if "u \<in># mset (fst (step_leading c s)) + R" "fetching u = Some i" for u i
        using that ok(3) [of u i] none s(1) by (auto simp: ts split: if_splits)
      show "Some i \<in> holding ` set_mset (mset (fst (step_leading c s)) + R)"
        if "sys_held ?s i \<noteq> None" "st_outcomes (the_store ?s) i = None" for i
        using that ok(4) [of i] none s by (auto split: if_splits)
    qed
  qed
qed

text \<open>Memory moves between the semaphore and a job.\<close>

lemma memory_ok_moved:
  assumes "memory_ok x M s" and "flight_part a = flight_part (sys_app s)" and "memory a + y = memory (sys_app s) + x"
  shows "memory_ok y M (s\<lparr>sys_app := a\<rparr>)"
  using memory_okD [OF assms(1)] assms(2,3)
  by (intro memory_okI) (simp_all add: memory_permits_def the_store_def memory_def)

text \<open>The fetch of a document hands the memory it took to its flight.\<close>

lemma memory_answered:
  assumes "memory_ok (held r + x) (add_mset (Fetching c i) R) s" and "i < st_next_inflight (the_store s)"
    and "\<And>u. u \<in># R \<Longrightarrow> fetching u \<noteq> Some i" and "job_answered E c i result r s = (js, t)"
  shows "memory_ok x (job_tasks (mset js) + R) t" and "jobs_memory (mset js) = 0"
proof -
  obtain y a where run: "resolved (result, (sys_app s, r)) = (y, a)"
    by (rule prod.exhaust)
  define res where "res = (case y of Inr (_, res) \<Rightarrow> res | Inl _ \<Rightarrow> None)"
  have t: "t = s\<lparr>sys_app := a, sys_held := (sys_held s)(i := res)\<rparr>"
    and js: "js = [Plain (Completing c i (metadata_outcome y) (Leader (Some (answer c (metadata_reply E y)))))]"
    using assms(4) run by (simp_all add: job_answered_def res_def)
  show "jobs_memory (mset js) = 0"
    by (simp add: js)
  have a: "app_table a = app_table (sys_app s)" "memory a + held res = memory (sys_app s) + held r"
    using resolved_effect [OF run] by (auto simp: res_def budget_def held_def split: sum.splits)
  note ok = memory_okD [OF assms(1)]
  have free: "sys_held s i = None"
    using ok(3) [of "Fetching c i"] by simp
  have "memory_permits t = memory_permits s + held r"
    using held_put [OF assms(2), of "sys_held s" res] a free
    by (simp add: memory_permits_def t the_store_def table_parts memory_def held_def [of None])
  show "memory_ok x (job_tasks (mset js) + R) t"
  proof (rule memory_okI)
    show "memory_permits t + x = METADATA_MEMORY_BUDGET_MIB"
      using \<open>memory_permits t = memory_permits s + held r\<close> ok(1) by simp
    show "sys_held t j = None" if "st_next_inflight (the_store t) \<le> j" for j
      using that ok(2) [of j] assms(2) a(1) by (auto simp: t table_parts the_store_def)
    show "sys_held t j = None" if "u \<in># job_tasks (mset js) + R" "fetching u = Some j" for u j
      using that ok(3) [of u j] assms(3) [of u] by (auto simp: js t)
    show "Some j \<in> holding ` set_mset (job_tasks (mset js) + R)"
      if "sys_held t j \<noteq> None" "st_outcomes (the_store t) j = None" for j
      using that ok(4) [of j] a(1) by (auto simp: js t table_parts the_store_def split: if_splits)
  qed
qed

text \<open>Memory of a flight is freed: it was fetched and nobody saw it, or nobody refers to it any more.\<close>

lemma memory_freed:
  assumes "memory_ok x M s" and "sys_held t = (sys_held s)(i := None)"
    and "st_memory_permits (the_store t) = st_memory_permits (the_store s) + held (sys_held s i)"
    and "st_next_inflight (the_store t) = st_next_inflight (the_store s)"
    and "\<And>j. st_outcomes (the_store t) j = None \<Longrightarrow> j \<noteq> i \<Longrightarrow> st_outcomes (the_store s) j = None"
    and "\<And>u j. u \<in># N \<Longrightarrow> fetching u = Some j \<Longrightarrow> u \<in># M"
    and "\<And>u j. u \<in># M \<Longrightarrow> holding u = Some j \<Longrightarrow> j \<noteq> i \<Longrightarrow> u \<in># N"
  shows "memory_ok x N t"
proof (rule memory_okI)
  note ok = memory_okD [OF assms(1)]
  have "memory_permits t = memory_permits s"
  proof (cases "i < st_next_inflight (the_store s)")
    case True
    then show ?thesis
      using assms(2-4) by (intro memory_permits_put [where r = None]) (simp_all add: held_def [of None])
  next
    case False
    then have "sys_held t = sys_held s" "sys_held s i = None"
      using ok(2) [of i] assms(2) by (simp_all add: fun_upd_idem_iff)
    then show ?thesis
      using assms(3,4) by (simp add: memory_permits_def held_def)
  qed
  then show "memory_permits t + x = METADATA_MEMORY_BUDGET_MIB"
    using ok(1) by simp
  show "sys_held t j = None" if "st_next_inflight (the_store t) \<le> j" for j
    using that ok(2) assms(2,4) by simp
  show "sys_held t j = None" if "u \<in># N" "fetching u = Some j" for u j
    using ok(3) [OF assms(6)] that assms(2) by simp
  show "Some j \<in> holding ` set_mset N" if "sys_held t j \<noteq> None" "st_outcomes (the_store t) j = None" for j
  proof -
    have "j \<noteq> i"
      using that(1) assms(2) by auto
    then have "Some j \<in> holding ` set_mset M"
      using that assms(2,5) by (intro ok(4)) simp_all
    then obtain u where "u \<in># M" "holding u = Some j"
      by force
    then show ?thesis
      using assms(7) \<open>j \<noteq> i\<close> by force
  qed
qed

lemma advance_memory:
  assumes "advance E net t s = Some (ts, s')" and "memory_ok x (add_mset t R) s"
    and "fetching t = None"
  shows "memory_ok x (mset ts + R) s'"
proof -
  note replace = memory_ok_replace [OF assms(2)]
  show ?thesis
  proof (cases t)
    case (Leading c)
    then show ?thesis
      using memory_leading [where c = c and R = R and s = s] assms(1,2) by simp
  next
    case (Fetching c i)
    then show ?thesis
      using assms(3) by simp
  next
    case (Completing c i q r)
    then show ?thesis
      using assms(1) quiet_completing [where s = s and c = c and i = i and q = q and r = r]
      by (auto simp: step_completing_def split: prod.splits if_splits elim!: holding.elims
          intro!: memory_ok_quiet [OF assms(2)])
  next
    case (Checking c i n)
    then show ?thesis
      using assms(1) by (intro replace) (auto simp: step_checking_def quiet_refl quiet_with_store split: option.splits)
  next
    case (Arrived c)
    then show ?thesis
      using assms(1) by (intro replace) (auto simp: step_arrived_def quiet_refl quiet_count_join split: option.splits)
  next
    case (Loading c)
    then show ?thesis
      using assms(1) quiet_loading [of s E c]
      by (intro replace) (auto simp: step_loading_def split: prod.splits sum.splits option.splits)
  next
    case (MakingShard c)
    then show ?thesis
      using assms(1) quiet_making_shard [of s c]
      by (intro replace) (auto simp: step_making_shard_def split: prod.splits sum.splits)
  next
    case (Serving c i q)
    then show ?thesis
      using assms(1) quiet_serving [of s E c i q]
      by (intro replace) (auto simp: step_serving_def split: prod.splits if_splits)
  next
    case (Cleaning c i)
    then show ?thesis
      using assms(1) quiet_cleaning [of s c i] by (intro replace) (auto simp: step_cleaning_def)
  next
    case (Notifying c i r)
    then show ?thesis
      using assms(1) quiet_ending(1) [where s = s and c = c and i = i and r = r] by (intro replace) (auto simp: step_notifying_def)
  next
    case (Finishing c i r)
    then show ?thesis
      using assms(1) quiet_ending(2) [where s = s and c = c and i = i and r = r]
      by (intro replace) (auto simp: step_finishing_def split: role.splits)
  next
    case (Releasing c i reply)
    then show ?thesis
      using assms(1) quiet_ending(3) [where s = s and c = c and i = i and reply = reply]
      by (intro replace) (auto simp: step_releasing_def split: option.splits)
  qed (use assms(1) in \<open>intro replace; auto simp: quiet_refl split: if_splits\<close>)+
qed

lemma cancel_memory:
  assumes "cancel t s = Some (ts, s')" and "memory_ok x (add_mset t R) s"
  shows "memory_ok x (mset ts + R) s'"
proof -
  note replace = memory_ok_replace [OF assms(2)]
  show ?thesis
  proof (cases "\<exists>c i q reply. t = Completing c i q (Leader reply)")
    case True
    then obtain c i q reply where t: "t = Completing c i q (Leader reply)"
      by blast
    then have "ts = [Cleaning c i]" and s': "s' = abandon_fetched i q s"
      using assms(1) by simp_all
    moreover have "the_store s' = (drop_outcome q (the_store s))\<lparr>
        st_memory_permits := st_memory_permits (the_store s) + held (sys_held s i),
        st_upstream_permits := Suc (st_upstream_permits (drop_outcome q (the_store s)))\<rparr>"
      and "sys_held s' = (sys_held s)(i := None)"
      by (simp_all add: s' abandon_fetched_def the_store_def with_store_def on_app_store_def release_upstream_permit_def
          release_reservation_def drop_outcome_def flight_simps split: inflight_outcome.split)
    ultimately show ?thesis
      by (intro memory_freed [OF assms(2), of _ i])
        (auto simp: t drop_outcome_def flight_simps split: inflight_outcome.splits)
  next
    case False
    have "ts = [] \<or> (\<exists>c i. ts = [Cleaning c i])" "quiet s s'"
      using assms(1) False quiet_ending(4) [where s = s]
      by (cases "(t, s)" rule: cancel.cases; auto simp: quiet_refl intro!: quiet_with_store)+
    moreover have "holding t = None"
      using False by (cases t rule: holding.cases) auto
    ultimately show ?thesis
      by (intro replace) auto
  qed
qed


text \<open>A fetch has its flight alone.\<close>

lemma job_fetches_alone:
  assumes "sf_inv cap (flights_of s, add_mset (Owns (call_key c) i True) (job_phases K))"
  shows "i < st_next_inflight (the_store s)" and "u \<in># job_tasks K \<Longrightarrow> fetching u \<noteq> Some i"
proof -
  let ?q = "Owns (call_key c) i True"
  have inv: "owners_ok (flights_of s, add_mset ?q (job_phases K))"
    using assms by (simp add: sf_inv_def)
  note alone = one_owner [OF inv, of "call_key c" i, simplified]
  show "i < st_next_inflight (the_store s)"
    using owners_okD(3) [OF inv] alone(1) by simp
  show "fetching u \<noteq> Some i" if u_in: "u \<in># job_tasks K"
  proof
    assume "fetching u = Some i"
    then obtain d where u: "u = Fetching d i"
      by (auto elim!: fetching.elims)
    obtain j where "j \<in># K" "u = job_task j"
      using u_in by auto
    then have j: "j \<in># K" "job_task j = Fetching d i"
      using u by simp_all
    then have "Owns (call_key d) i True \<in># job_phases K"
      unfolding job_phase_in by (intro bexI [of _ j]) (cases j; simp)+
    moreover from this have "st_inflight (the_store s) (call_key d) = Some i"
      using owners_okD(2) [OF inv, of "Owns (call_key d) i True" "call_key d" i] by simp
    then have "call_key d = call_key c"
      using owners_okD(4) [OF inv, of "call_key d" i "call_key c"] alone(1) by simp
    ultimately show False
      using alone(2) by force
  qed
qed

lemma job_fetching_memory:
  assumes "job_step E net content j s = Some (js, s')" and "job_task j = Fetching c i" and "job_ok j"
    and "sf_inv cap (flights_of s, job_phase j + job_phases K)"
    and "memory_ok (jobs_memory (add_mset j K)) (job_tasks (add_mset j K)) s"
  shows "memory_ok (jobs_memory (mset js + K)) (job_tasks (mset js + K)) s'"
proof (cases j)
  case (Plain t)
  then have "js = [start_fetch c i]" "s' = s"
    using assms(1,2) by (auto simp: job_step_def job_plain_def)
  then show ?thesis
    using assms(2,5) Plain by (simp add: start_fetch_def)
next
  case (Reading c' i' d r)
  then have c: "c' = c" "i' = i"
    using assms(2) by simp_all
  have inv: "sf_inv cap (flights_of s, add_mset (Owns (call_key c) i True) (job_phases K))"
    using assms(4) Reading c by simp
  have ok: "memory_ok (held r + jobs_memory K) (add_mset (Fetching c i) (job_tasks K)) s"
    using assms(5) Reading c by simp
  show ?thesis
  proof (cases "\<exists>result. d = document_point.Answered result")
    case True
    then obtain result where run: "job_answered E c i result r s = (js, s')"
      using assms(1) Reading c by (auto simp: job_step_def)
    from memory_answered [OF ok job_fetches_alone [OF inv] run] show ?thesis
      by simp
  next
    case False
    then have "job_reading E net c i d r s = (js, s')"
      using assms(1) Reading c by (cases d) (auto simp: job_step_def)
    moreover have "unanswered d \<Longrightarrow> r = None"
      using assms(3) Reading by simp
    ultimately show ?thesis
    proof (rule job_reading_effect)
      fix d' r' a
      assume "js = [Reading c i d' r']" "s' = s\<lparr>sys_app := a\<rparr>" "level (a, r') (sys_app s, r)"
      then show ?thesis
        using memory_ok_moved [OF ok, of a "held r' + jobs_memory K"] by (simp add: level_def table_parts budget_def)
    qed
  qed
next
  case (Downloading c' i' d)
  show ?thesis
  proof (cases "\<exists>r. d = Fetched r")
    case True
    then obtain y where "js = [Plain (Completing c' i' y (Leader None))]" "s' = s"
      using assms(1) Downloading by (auto simp: job_step_def job_fetched_def)
    then show ?thesis
      using memory_ok_replace [OF _ quiet_refl, of "jobs_memory K" "Fetching c' i'" "job_tasks K" s
          "[Completing c' i' y (Leader None)]"] assms(5) Downloading
      by simp
  next
    case False
    then have "job_downloading E net c' i' d s = (js, s')"
      using assms(1) Downloading by (cases d) (auto simp: job_step_def)
    then show ?thesis
    proof (rule job_downloading_effect)
      fix d' a
      assume "js = [Downloading c' i' d']" "s' = s\<lparr>sys_app := a\<rparr>" "app_tables a = app_tables (sys_app s)"
      then show ?thesis
        using memory_ok_moved [OF assms(5), of a "jobs_memory (mset js + K)"] Downloading
        by (simp add: app_tables_def tables_def table_def memory_def)
    qed
  qed
qed (use assms(2) in simp)

text \<open>Requests that pass through come and go as tasks that own no flight.\<close>

lemma memory_ok_done [simp]: "memory_ok x (add_mset (Done i r) M) s \<longleftrightarrow> memory_ok x M s"
  unfolding memory_ok_def by auto

lemma job_step_memory:
  assumes "job_step E net content j s = Some (js, s')" and "job_ok j"
    and "sf_inv cap (flights_of s, job_phase j + job_phases K)"
    and "memory_ok (jobs_memory (add_mset j K)) (job_tasks (add_mset j K)) s"
  shows "memory_ok (jobs_memory (mset js + K)) (job_tasks (mset js + K)) s'"
proof (cases "\<exists>c i. job_task j = Fetching c i")
  case True
  then show ?thesis
    using job_fetching_memory assms by blast
next
  case False
  then show ?thesis
  proof (cases j)
    case (Plain t)
    then have "job_plain E net t s = Some (js, s')"
      using assms(1) by (simp add: job_step_def)
    then show ?thesis
    proof (cases rule: job_plain_cases)
      case (other ts)
      have "fetching t = None"
        using other(1) by (rule_tac ccontr) (auto elim!: fetching.elims)
      then show ?thesis
        using advance_memory [OF other(2), of "jobs_memory K" "job_tasks K"] assms(4) Plain other(3)
        by (simp add: mset_map)
    qed (use False Plain in simp)
  next
    case (Passing q r)
    then obtain x where x: "pass_step E net content q (sys_app s, r) = Some x" "job_passing x s = (js, s')"
      using assms(1) by (auto simp: job_step_def)
    have ok: "memory_ok (held r + jobs_memory K) (job_tasks K) s"
      using assms(4) Passing by simp
    from x show ?thesis
    proof (cases rule: job_passing_effect)
      case (left q' r' a)
      then show ?thesis
        using memory_ok_moved [OF ok left(3), of "held r' + jobs_memory K"] by simp
    next
      case (gone a)
      then show ?thesis
        using memory_ok_moved [OF ok gone(3), of "jobs_memory K"] by simp
    qed
  qed simp_all
qed

lemma quiet_begun: "quiet s (job_begun j s)"
proof -
  have "quiet s (s\<lparr>sys_app := a\<rparr>)" if "app_tables a = app_tables (sys_app s)" for a
    using that by (intro quiet_tables) (simp_all add: app_tables_def the_store_def)
  then show ?thesis
    by (auto simp: job_begun_def quiet_refl begun_level split: job.split)
qed

lemma job_cancel_memory:
  assumes "job_cancel j s = Some (js, s')" and "memory_ok (jobs_memory (add_mset j K)) (job_tasks (add_mset j K)) s"
  shows "memory_ok (jobs_memory (mset js + K)) (job_tasks (mset js + K)) s'"
proof -
  have fetch: "memory_ok x (add_mset (Cleaning c i) (job_tasks K)) (with_store release_upstream_permit t)"
    if "memory_ok x (add_mset (Fetching c i) (job_tasks K)) t" for x c i t
    using memory_ok_replace [OF that quiet_ending(4), of "[Cleaning c i]"] by simp
  show ?thesis
  proof (cases j)
    case (Plain t)
    then obtain ts where "cancel t s = Some (ts, s')" and js: "js = map Plain ts"
      using assms(1) by (auto simp: job_cancel_def)
    from cancel_memory [OF this(1), of "jobs_memory K" "job_tasks K"] show ?thesis
      using assms(2) Plain js by (simp add: mset_map)
  next
    case (Reading c i d r)
    let ?a = "drop_document d (sys_app s, r)"
    have "memory_ok (jobs_memory K) (add_mset (Fetching c i) (job_tasks K)) (s\<lparr>sys_app := ?a\<rparr>)"
      using assms(2) Reading drop_document_level [of d "sys_app s" r]
      by (intro memory_ok_moved [where x = "held r + jobs_memory K"]) (simp_all add: table_parts budget_def)
    then show ?thesis
      using assms(1) Reading fetch by (auto simp: job_cancel_def)
  next
    case (Downloading c i d)
    let ?a = "drop_point d (sys_app s)"
    have "memory_ok (jobs_memory K) (add_mset (Fetching c i) (job_tasks K)) (s\<lparr>sys_app := ?a\<rparr>)"
      using assms(2) Downloading drop_point_tables [of d "sys_app s"]
      by (intro memory_ok_moved [where x = "jobs_memory K"]) (simp_all add: app_tables_def tables_def table_def memory_def)
    then show ?thesis
      using assms(1) Downloading fetch by (auto simp: job_cancel_def)
  next
    case (Passing q r)
    have ok: "memory_ok (held r + jobs_memory K) (job_tasks K) s"
      using assms(2) Passing by simp
    show ?thesis
      using assms(1) Passing memory_ok_moved [OF ok, of "drop_passing q (sys_app s, r)" "jobs_memory K"]
      by (auto simp: job_cancel_def drop_passing_effect budget_def)
  qed
qed

section \<open>Runs\<close>

lemma memory_reap: "memory_ok x M s \<Longrightarrow> memory_ok x M (reap i s)"
proof (cases "st_outcomes (the_store s) i")
  case (Some q)
  then show "memory_ok x M s \<Longrightarrow> memory_ok x M (reap i s)"
    by (rule_tac memory_freed [of x M s "reap i s" i])
      (auto simp: reap_def the_store_def with_store_def on_app_store_def release_reservation_def drop_outcome_def
        flight_simps split: inflight_outcome.splits)
qed (simp add: reap_def)

definition budget_ok :: "system \<times> job multiset \<Rightarrow> bool" where
  "budget_ok y \<longleftrightarrow> memory_ok (jobs_memory (snd y)) (job_tasks (snd y)) (fst y)"

lemma quiet_on_its_own: "quiet s (janitor s)" "quiet s (background_write n i s)" "quiet s (tick s)"
proof -
  let ?t = "(the_store s)\<lparr>st_janitor_queue := 0\<rparr>"
  have "tables (snd (evict_files_to_bound ?t)) = tables ?t"
    by (rule still_snd [OF still_evict])
  then show "quiet s (janitor s)"
    unfolding janitor_def by (simp add: quiet_with_store tables_def table_def)
  show "quiet s (background_write n i s)" "quiet s (tick s)"
    by (simp_all add: background_write_def tick_def quiet_with_store tables_def table_def)
qed

lemma jobs_step_budget:
  assumes "jobs_step E (s, J) (s', J')" and "jobs_ok cap (s, J)" and "budget_ok (s, J)"
  shows "budget_ok (s', J')"
proof -
  have quiet: "budget_ok (t, J)" if "quiet s t" for t
    using assms(3) unfolding budget_ok_def fst_conv snd_conv by (rule memory_ok_quiet [OF _ that])
  show ?thesis
    using assms(1)
  proof cases
    case (advancing net content j js K)
    note ok = jobs_okD [OF assms(2) [unfolded advancing(1)]]
    show ?thesis
      using job_step_memory [OF advancing(3) ok(2,1)] assms(3) unfolding budget_ok_def advancing(1,2) by simp
  next
    case (dropping j t js K)
    have "budget_ok (t, J)"
      using dropping(4) quiet quiet_begun assms(3) by auto
    then show ?thesis
      using job_cancel_memory [OF dropping(3)] unfolding budget_ok_def dropping(1,2) by simp
  next
    case (admitting_call c)
    then show ?thesis
      using assms(3) unfolding budget_ok_def
      by (auto intro!: memory_ok_quiet [OF _ quiet_refl, of _ "job_tasks J"] simp: start_task_def split: if_splits)
  next
    case (admitting_passing q)
    then show ?thesis
      using assms(3) by (simp add: budget_ok_def)
  next
    case (reaping_flight i)
    then show ?thesis
      using assms(3) memory_reap by (simp add: budget_ok_def)
  next
    case evicting_files
    then show ?thesis
      using quiet quiet_on_its_own(1) by simp
  next
    case (settling_file i n)
    then show ?thesis
      using quiet quiet_on_its_own(2) by simp
  next
    case time_passing
    then show ?thesis
      using quiet quiet_on_its_own(3) by simp
  qed
qed

lemma jobs_run_budget:
  assumes "(jobs_step E)\<^sup>*\<^sup>* (initial t, {#}) y" and "new_store max_size fetches f = (Inr t, g)"
  shows "budget_ok y"
  using assms(1)
proof (induction rule: rtranclp_induct)
  case base
  show ?case
    using new_store_tables [OF assms(2)]
    by (simp add: budget_ok_def memory_ok_def memory_permits_def tables_def table_def empty_store_def initial_def the_store_def)
next
  case (step y z)
  then show ?case
    using jobs_step_budget [of E "fst y" "snd y" "fst z" "snd z" fetches] jobs_run_ok [OF step.hyps(1) assms(2)] by simp
qed

text \<open>
  C14: The memory budget is conserved and not leaked.  However the jobs of the program run from the store
  \<^verbatim>\<open>CacheStore::new\<close> made, interleaved at their await points, cancelled anywhere and failing: the permits of
  the semaphore, those of the bodies that belong to flights, and those of the jobs (a leader that reads a
  document, a search or an audit until its answer is delivered) add up to 1024 MiB.  Memory belongs to a
  flight only if the flight has its outcome or its leader is about to store it, so with the last owner of
  the flight it is freed; and when no job is left and every flight is freed, all of it is free.
\<close>

theorem memory_conserved:
  assumes "new_store max_size fetches f = (Inr t, g)" and "(jobs_step E)\<^sup>*\<^sup>* (initial t, {#}) (s, J)"
  shows "memory_permits s + jobs_memory J = METADATA_MEMORY_BUDGET_MIB
    \<and> (\<forall>i. sys_held s i \<noteq> None \<longrightarrow> i < st_next_inflight (the_store s)
         \<and> (st_outcomes (the_store s) i \<noteq> None \<or> (\<exists>t\<in>#job_tasks J. holding t = Some i)))
    \<and> (J = {#} \<longrightarrow> (\<forall>i. st_outcomes (the_store s) i = None) \<longrightarrow>
         st_memory_permits (the_store s) = METADATA_MEMORY_BUDGET_MIB)"
proof -
  have "memory_ok (jobs_memory J) (job_tasks J) s"
    using jobs_run_budget [OF assms(2,1)] by (simp add: budget_ok_def)
  note ok = memory_okD [OF this]
  have "i < st_next_inflight (the_store s)" if "sys_held s i \<noteq> None" for i
    using ok(2) [of i] that by (meson leI)
  moreover have "\<exists>t\<in>#job_tasks J. holding t = Some i" if "sys_held s i \<noteq> None" "st_outcomes (the_store s) i = None" for i
    using ok(4) [OF that] by force
  moreover have "st_memory_permits (the_store s) = METADATA_MEMORY_BUDGET_MIB"
    if "J = {#}" "\<forall>i. st_outcomes (the_store s) i = None"
  proof -
    have "sys_held s i = None" for i
      using ok(4) [of i] that by (cases "sys_held s i") auto
    then show ?thesis
      using ok(1) that(1) by (simp add: memory_permits_def)
  qed
  ultimately show ?thesis
    using ok(1) by blast
qed

section \<open>An instance\<close>

text \<open>The audit is sent, and half of its answer is read: a MiB is missing from the semaphore.\<close>

lemma sample_advance:
  assumes "pass_step E net content q (sys_app s, r) = Some (Some q', (a, r'))"
  shows "jobs_step E (s, {#Passing q r#}) (s\<lparr>sys_app := a\<rparr>, {#Passing q' r'#})"
  using jobs_step.advancing [of E net content "Passing q r" s "[Passing q' r']" "s\<lparr>sys_app := a\<rparr>" "{#}"] assms
  by (simp add: job_step_def job_passing_def)

lemma sample_reading:
  obtains f t s where "new_store 100 4 f = (Inr t, st_fs t)"
    and "(jobs_step (sample_env page_meta))\<^sup>*\<^sup>* (initial t, {#})
      (s, {#Passing (Reading_body False (sample_response 200) [Inr ''dy''] ''bo'') (Some 1)#})"
    and "st_memory_permits (the_store s) = 1023"
proof -
  let ?E = "sample_env page_meta" and ?path = "''-/npm/v1/security/audits/quick''"
  obtain f t s where new: "new_store 100 4 f = (Inr t, st_fs t)"
    and run: "(jobs_step ?E)\<^sup>*\<^sup>* (initial t, {#}) (s, {#Passing (Audit_body ?path []) None#})"
    and s: "s = (initial t)\<lparr>sys_app := \<lparr>app_store = t\<lparr>st_upstream_permits := 3\<rparr>,
      app_stats = record_npm_audit_request default_stats\<rparr>\<rparr>"
    by (rule sample_jobs)
  have memory: "st_memory_permits t = 1024"
    using new_store_tables [OF new] by (simp add: tables_def empty_store_def METADATA_MEMORY_BUDGET_MIB_def)
  obtain u where u: "join_url (env_url ?E) (npm (env_upstreams ?E)) ?path = Some u"
  proof -
    have "join_url sample_lib (npm sample_origins) ?path \<noteq> None"
      by code_simp
    then show thesis
      using that by (auto simp: sample_env_def)
  qed
  let ?net = "\<lambda>_ :: upstream_request. Inr (sample_response 200) :: string + upstream_response"
  define request where "request = \<lparr>ur_method = ''POST'', ur_url = u, ur_headers = audit_headers [], ur_body = Some []\<rparr>"
  let ?chunks = "[Inr ''bo'', Inr ''dy'']"
  define a where "a = (sys_app s)\<lparr>app_store := (the_store s)\<lparr>st_memory_permits := 1023\<rparr>\<rparr>"
  have "jobs_step ?E (s, {#Passing (Audit_body ?path []) None#}) (s, {#Passing (Sent False request) None#})"
    using sample_advance [of ?E ?net "Inr []" "Audit_body ?path []" s None "Sent False request" "sys_app s" None] u
    by (simp add: pass_audit_body_def request_def)
  moreover have "jobs_step ?E (s, {#Passing (Sent False request) None#})
      (s\<lparr>sys_app := a\<rparr>, {#Passing (Reading_body False (sample_response 200) ?chunks []) (Some 1)#})"
    using sample_advance [of ?E ?net "Inr []" "Sent False request" s None
        "Reading_body False (sample_response 200) ?chunks []" a "Some 1"] memory
    by (simp add: pass_sent_def or_error_def send_request_def sample_response_def limited_initial_capacity_def
        reserve_more_def reserve_unfold held_def mib_small a_def the_store_def s initial_def)
  moreover have "jobs_step ?E (s\<lparr>sys_app := a\<rparr>, {#Passing (Reading_body False (sample_response 200) ?chunks []) (Some 1)#})
      (s\<lparr>sys_app := a\<rparr>, {#Passing (Reading_body False (sample_response 200) [Inr ''dy''] ''bo'') (Some 1)#})"
    using sample_advance [of ?E ?net "Inr []" "Reading_body False (sample_response 200) ?chunks []" "s\<lparr>sys_app := a\<rparr>"
        "Some 1" "Reading_body False (sample_response 200) [Inr ''dy''] ''bo''" a "Some 1"]
    by (simp add: pass_chunk_def or_error_def next_chunk_def reserve_more_def reserve_unfold held_def mib_small)
  ultimately have "(jobs_step ?E)\<^sup>*\<^sup>* (initial t, {#})
      (s\<lparr>sys_app := a\<rparr>, {#Passing (Reading_body False (sample_response 200) [Inr ''dy''] ''bo'') (Some 1)#})"
    using run by (meson rtranclp.rtrancl_into_rtrancl)
  then show thesis
    using that [OF new] by (simp add: a_def the_store_def)
qed

lemma memory_conserved_witness:
  "\<exists>f t s. new_store 100 4 f = (Inr t, st_fs t)
     \<and> (jobs_step (sample_env page_meta))\<^sup>*\<^sup>* (initial t, {#})
         (s, {#Passing (Reading_body False (sample_response 200) [Inr ''dy''] ''bo'') (Some 1)#})
     \<and> st_memory_permits (the_store s) = 1023 \<and> memory_permits s + 1 = 1024"
proof -
  obtain f t s where run: "new_store 100 4 f = (Inr t, st_fs t)"
    "(jobs_step (sample_env page_meta))\<^sup>*\<^sup>* (initial t, {#})
      (s, {#Passing (Reading_body False (sample_response 200) [Inr ''dy''] ''bo'') (Some 1)#})"
    and s: "st_memory_permits (the_store s) = 1023"
    by (rule sample_reading)
  have all: "memory_permits s + 1 = 1024"
    using memory_conserved [OF run] by (simp add: held_def METADATA_MEMORY_BUDGET_MIB_def)
  then show ?thesis
    using run s by blast
qed

end
