(* ===== verification/Config.thy ===== *)
theory Config
  imports Routes
begin

text \<open>
  \<^verbatim>\<open>src/config.rs\<close>: reading the configuration from environment variables and validating it.  The
  environment is a function from names to values (a variable that is unset or not Unicode is
  \<open>None\<close>).  The textual syntax of socket addresses is the one of \<^verbatim>\<open>std::net\<close>; \<^verbatim>\<open>Url::parse\<close> comes from the
  parameter \<open>url_lib\<close>.
\<close>

section \<open>Socket addresses\<close>

datatype socket_addr =
    SocketV4 (v4_ip: "u8 list") (v4_port: u16)
  | SocketV6 (v6_ip: "u16 list") (v6_scope: u32) (v6_port: u16)

text \<open>
  A parser takes the rest of the input and gives back a value and what is left; \<open>None\<close> puts the input
  back, as \<^verbatim>\<open>read_atomically\<close> does.
\<close>

type_synonym 'a parser = "string \<Rightarrow> ('a \<times> string) option"

definition given_char :: "char \<Rightarrow> unit parser" where
  "given_char c s = (case s of [] \<Rightarrow> None | x # xs \<Rightarrow> if x = c then Some ((), xs) else None)"

definition digit_value :: "nat \<Rightarrow> char \<Rightarrow> nat option" where
  "digit_value radix c =
     (let v = (if is_ascii_digit c then of_char c - 48
               else if between (CHR ''a'') (CHR ''z'') c then of_char c - 87
               else if between (CHR ''A'') (CHR ''Z'') c then of_char c - 55
               else radix) :: nat
      in if v < radix then Some v else None)"

fun read_digits :: "nat \<Rightarrow> nat \<Rightarrow> nat option \<Rightarrow> nat \<Rightarrow> nat \<Rightarrow> string \<Rightarrow> (nat \<times> nat \<times> string) option" where
  "read_digits radix limit max_digits acc count [] = Some (acc, count, [])"
| "read_digits radix limit max_digits acc count (c # s) =
     (case digit_value radix c of
        None \<Rightarrow> Some (acc, count, c # s)
      | Some d \<Rightarrow>
          let acc' = acc * radix + d; count' = Suc count in
          if acc' > limit then None
          else if (case max_digits of None \<Rightarrow> False | Some m \<Rightarrow> m < count') then None
          else read_digits radix limit max_digits acc' count' s)"

definition read_number :: "nat \<Rightarrow> nat \<Rightarrow> nat option \<Rightarrow> bool \<Rightarrow> nat parser" where
  "read_number radix limit max_digits allow_zero_prefix s =
     (case read_digits radix limit max_digits 0 0 s of
        None \<Rightarrow> None
      | Some (n, count, rest) \<Rightarrow>
          if count = 0 \<or> \<not> allow_zero_prefix \<and> s \<noteq> [] \<and> hd s = CHR ''0'' \<and> 1 < count then None
          else Some (n, rest))"

text \<open>\<^verbatim>\<open>read_separator\<close>: every element but the first is preceded by the separator.\<close>

definition read_separator :: "char \<Rightarrow> nat \<Rightarrow> 'a parser \<Rightarrow> 'a parser" where
  "read_separator sep index p s =
     (if index = 0 then p s
      else (case given_char sep s of None \<Rightarrow> None | Some (_, rest) \<Rightarrow> p rest))"

fun read_octets :: "nat list \<Rightarrow> u8 list parser" where
  "read_octets [] s = Some ([], s)"
| "read_octets (i # idx) s =
     (case read_separator (CHR ''.'') i (read_number 10 255 (Some 3) False) s of
        None \<Rightarrow> None
      | Some (n, rest) \<Rightarrow>
          (case read_octets idx rest of
             None \<Rightarrow> None
           | Some (ns, rest') \<Rightarrow> Some (of_nat n # ns, rest')))"

definition read_ipv4_addr :: "u8 list parser" where
  "read_ipv4_addr = read_octets [0, 1, 2, 3]"

text \<open>\<^verbatim>\<open>read_groups\<close>: the groups read, and whether the last two came from an embedded IPv4 address.\<close>

function read_groups :: "nat \<Rightarrow> nat \<Rightarrow> u16 list \<Rightarrow> string \<Rightarrow> u16 list \<times> bool \<times> string" where
  "read_groups limit i groups s =
     (if i \<ge> limit then (groups, False, s)
      else
        (case (if i < limit - 1 then read_separator (CHR '':'') i read_ipv4_addr s else None) of
           Some (octets, rest) \<Rightarrow>
             (groups @ [ucast (octets ! 0) * 256 + ucast (octets ! 1), ucast (octets ! 2) * 256 + ucast (octets ! 3)],
              True, rest)
         | None \<Rightarrow>
             (case read_separator (CHR '':'') i (read_number 16 65535 (Some 4) True) s of
                Some (n, rest) \<Rightarrow> read_groups limit (Suc i) (groups @ [of_nat n]) rest
              | None \<Rightarrow> (groups, False, s))))"
  by pat_completeness auto
termination
  by (relation "measure (\<lambda>(limit, i, _). limit - i)") auto

declare read_groups.simps [simp del]

definition read_ipv6_addr :: "u16 list parser" where
  "read_ipv6_addr s =
     (case read_groups 8 0 [] s of
        (head, head_ipv4, rest) \<Rightarrow>
          if length head = 8 then Some (head, rest)
          else if head_ipv4 then None
          else
            (case given_char (CHR '':'') rest of
               None \<Rightarrow> None
             | Some (_, rest1) \<Rightarrow>
                 (case given_char (CHR '':'') rest1 of
                    None \<Rightarrow> None
                  | Some (_, rest2) \<Rightarrow>
                      (case read_groups (8 - (length head + 1)) 0 [] rest2 of
                         (tail, _, rest3) \<Rightarrow>
                           Some (head @ replicate (8 - length head - length tail) 0 @ tail, rest3)))))"

definition read_port :: "u16 parser" where
  "read_port s =
     (case given_char (CHR '':'') s of
        None \<Rightarrow> None
      | Some (_, rest) \<Rightarrow>
          (case read_number 10 65535 None True rest of
             None \<Rightarrow> None
           | Some (n, rest') \<Rightarrow> Some (of_nat n, rest')))"

definition read_socket_addr_v4 :: "socket_addr parser" where
  "read_socket_addr_v4 s =
     (case read_ipv4_addr s of
        None \<Rightarrow> None
      | Some (ip, rest) \<Rightarrow>
          (case read_port rest of
             None \<Rightarrow> None
           | Some (port, rest') \<Rightarrow> Some (SocketV4 ip port, rest')))"

definition read_scope_id :: "u32 parser" where
  "read_scope_id s =
     (case given_char (CHR ''%'') s of
        None \<Rightarrow> None
      | Some (_, rest) \<Rightarrow>
          (case read_number 10 4294967295 None True rest of
             None \<Rightarrow> None
           | Some (n, rest') \<Rightarrow> Some (of_nat n, rest')))"

definition read_socket_addr_v6 :: "socket_addr parser" where
  "read_socket_addr_v6 s =
     (case given_char (CHR ''['') s of
        None \<Rightarrow> None
      | Some (_, rest) \<Rightarrow>
          (case read_ipv6_addr rest of
             None \<Rightarrow> None
           | Some (ip, rest1) \<Rightarrow>
               (case (case read_scope_id rest1 of None \<Rightarrow> (0, rest1) | Some r \<Rightarrow> r) of
                  (scope, rest2) \<Rightarrow>
                    (case given_char (CHR '']'') rest2 of
                       None \<Rightarrow> None
                     | Some (_, rest3) \<Rightarrow>
                         (case read_port rest3 of
                            None \<Rightarrow> None
                          | Some (port, rest4) \<Rightarrow> Some (SocketV6 ip scope port, rest4))))))"

definition parse_socket_addr :: "string \<Rightarrow> string + socket_addr" where
  "parse_socket_addr s =
     (case (case read_socket_addr_v4 s of Some r \<Rightarrow> Some r | None \<Rightarrow> read_socket_addr_v6 s) of
        Some (addr, []) \<Rightarrow> Inr addr
      | _ \<Rightarrow> Inl ''invalid socket address syntax'')"

section \<open>Configuration\<close>

record config =
  pkg_bind :: socket_addr
  git_bind :: socket_addr
  management_bind :: socket_addr
  public_base_url :: string
  cache_dir :: string
  max_cache_size :: u64
  max_upstream_fetches :: usize
  upstream_timeout_ms :: u64

definition parse_public_base_url :: "url_lib \<Rightarrow> string \<Rightarrow> string + string" where
  "parse_public_base_url L value =
     (case lib_parse L (trim value) of
        Inl e \<Rightarrow> Inl (''invalid VAMPIRE_PUBLIC_BASE_URL: '' @ e)
      | Inr url \<Rightarrow>
          if \<not> (url_scheme url = ''http'' \<or> url_scheme url = ''https'')
          then Inl ''invalid VAMPIRE_PUBLIC_BASE_URL: scheme must be http or https''
          else if url_host_str url = None \<or> url_username url \<noteq> [] \<or> url_password url \<noteq> None
          then Inl ''invalid VAMPIRE_PUBLIC_BASE_URL: credentials and missing hosts are not allowed''
          else if url_path url \<noteq> ''/'' \<or> url_query url \<noteq> None \<or> url_fragment url \<noteq> None
          then Inl ''invalid VAMPIRE_PUBLIC_BASE_URL: path, query, and fragment are not allowed''
          else Inr (lib_origin_ascii L url))"

definition validate :: "url_lib \<Rightarrow> config \<Rightarrow> string + unit" where
  "validate L c =
     (if max_cache_size c = 0
      then Inl ''invalid VAMPIRE_MAX_CACHE_SIZE_MB: must be greater than zero''
      else if max_upstream_fetches c = 0
      then Inl ''invalid VAMPIRE_MAX_UPSTREAM_FETCHES: must be greater than zero''
      else if upstream_timeout_ms c = 0
      then Inl ''invalid VAMPIRE_UPSTREAM_TIMEOUT_MS: must be greater than zero''
      else
        (case parse_public_base_url L (public_base_url c) of
           Inl e \<Rightarrow> Inl e
         | Inr u \<Rightarrow>
             if u \<noteq> public_base_url c
             then Inl ''invalid VAMPIRE_PUBLIC_BASE_URL: must be a normalized HTTP or HTTPS origin''
             else Inr ()))"

definition bind_sum :: "'e + 'a \<Rightarrow> ('a \<Rightarrow> 'e + 'b) \<Rightarrow> 'e + 'b" where
  "bind_sum r f = (case r of Inl e \<Rightarrow> Inl e | Inr x \<Rightarrow> f x)"

definition default_to :: "string \<Rightarrow> string option \<Rightarrow> string" where
  "default_to d v = (case v of None \<Rightarrow> d | Some s \<Rightarrow> s)"

definition addr_var :: "(string \<Rightarrow> string option) \<Rightarrow> string \<Rightarrow> string \<Rightarrow> string + socket_addr" where
  "addr_var var name dflt =
     (case parse_socket_addr (trim (default_to dflt (var name))) of
        Inl e \<Rightarrow> Inl (''invalid '' @ name @ '': '' @ e)
      | Inr a \<Rightarrow> Inr a)"

text \<open>A 64-bit number; \<^verbatim>\<open>u64\<close> and \<^verbatim>\<open>usize\<close> have the same range.\<close>

definition number_value :: "string \<Rightarrow> string \<Rightarrow> string + u64" where
  "number_value name value =
     (case parse_unsigned (2 ^ 64 - 1) (trim value) of
        Inl e \<Rightarrow> Inl (''invalid '' @ name @ '': '' @ parse_int_error_message e)
      | Inr n \<Rightarrow> Inr (of_nat n))"

definition required :: "(string \<Rightarrow> string option) \<Rightarrow> string \<Rightarrow> string + string" where
  "required var name = (case var name of None \<Rightarrow> Inl (name @ '' is required'') | Some v \<Rightarrow> Inr v)"

definition from_vars :: "url_lib \<Rightarrow> (string \<Rightarrow> string option) \<Rightarrow> string + config" where
  "from_vars L var =
     bind_sum (addr_var var ''VAMPIRE_PKG_BIND'' ''127.0.0.1:8080'') (\<lambda>pkg.
     bind_sum (addr_var var ''VAMPIRE_GIT_BIND'' ''127.0.0.1:8081'') (\<lambda>git.
     bind_sum (addr_var var ''VAMPIRE_MANAGEMENT_BIND'' ''127.0.0.1:8082'') (\<lambda>management.
     bind_sum (bind_sum (required var ''VAMPIRE_PUBLIC_BASE_URL'') (parse_public_base_url L)) (\<lambda>base.
     let dir = default_to ''./.cache/vampire'' (var ''VAMPIRE_CACHE_DIR'') in
     bind_sum (bind_sum (required var ''VAMPIRE_MAX_CACHE_SIZE_MB'') (number_value ''VAMPIRE_MAX_CACHE_SIZE_MB'')) (\<lambda>mb.
     bind_sum
       (case checked_mul mb 1000000 of
          None \<Rightarrow> Inl ''invalid VAMPIRE_MAX_CACHE_SIZE_MB: byte conversion overflow''
        | Some n \<Rightarrow> Inr n) (\<lambda>size_bytes.
     bind_sum (number_value ''VAMPIRE_MAX_UPSTREAM_FETCHES''
                 (default_to ''32'' (var ''VAMPIRE_MAX_UPSTREAM_FETCHES''))) (\<lambda>fetches.
     bind_sum (number_value ''VAMPIRE_UPSTREAM_TIMEOUT_MS''
                 (default_to ''30000'' (var ''VAMPIRE_UPSTREAM_TIMEOUT_MS''))) (\<lambda>timeout.
     let c = \<lparr>pkg_bind = pkg, git_bind = git, management_bind = management, public_base_url = base,
              cache_dir = dir, max_cache_size = size_bytes, max_upstream_fetches = fetches,
              upstream_timeout_ms = timeout\<rparr>
     in bind_sum (validate L c) (\<lambda>_. Inr c)))))))))"

section \<open>Lemmas\<close>

lemma bind_sum_Inr: "bind_sum r f = Inr y \<longleftrightarrow> (\<exists>x. r = Inr x \<and> f x = Inr y)"
  by (cases r) (simp_all add: bind_sum_def)

lemma validate_Inr:
  "validate L c = Inr () \<longleftrightarrow>
     max_cache_size c \<noteq> 0 \<and> max_upstream_fetches c \<noteq> 0 \<and> upstream_timeout_ms c \<noteq> 0
     \<and> parse_public_base_url L (public_base_url c) = Inr (public_base_url c)"
  by (auto simp: validate_def split: sum.splits)

lemma number_value_Inr:
  "number_value name v = Inr w \<longleftrightarrow> parse_unsigned (2 ^ 64 - 1) (trim v) = Inr (unat w)"
proof
  assume "number_value name v = Inr w"
  then obtain n where n: "parse_unsigned (2 ^ 64 - 1) (trim v) = Inr n" "w = of_nat n"
    by (auto simp: number_value_def split: sum.splits)
  then have "n < 2 ^ 64"
    using parse_unsigned_limit [OF n(1)] by simp
  with n show "parse_unsigned (2 ^ 64 - 1) (trim v) = Inr (unat w)"
    by (simp add: unat_of_nat)
qed (simp add: number_value_def)

text \<open>
  C36: A configuration that is read is one that validates.  The cache bound is the number of megabytes in
  the environment times one million, without wrap-around and not zero; the other limits are not zero;
  and the public base URL is the origin that the given URL parses to, in normal form.
\<close>

theorem from_vars_valid:
  assumes "from_vars L var = Inr c"
  shows "validate L c = Inr ()
    \<and> (\<exists>v n. var ''VAMPIRE_MAX_CACHE_SIZE_MB'' = Some v \<and> parse_unsigned (2 ^ 64 - 1) (trim v) = Inr n
         \<and> unat (max_cache_size c) = n * 1000000 \<and> 0 < n)
    \<and> 0 < unat (max_upstream_fetches c) \<and> 0 < unat (upstream_timeout_ms c)
    \<and> (\<exists>v u. var ''VAMPIRE_PUBLIC_BASE_URL'' = Some v \<and> lib_parse L (trim v) = Inr u
         \<and> public_base_url c = lib_origin_ascii L u
         \<and> url_scheme u \<in> {''http'', ''https''} \<and> url_host_str u \<noteq> None \<and> url_username u = []
         \<and> url_password u = None \<and> url_path u = ''/'' \<and> url_query u = None \<and> url_fragment u = None)"
proof -
  obtain mb where mb: "bind_sum (required var ''VAMPIRE_MAX_CACHE_SIZE_MB'') (number_value ''VAMPIRE_MAX_CACHE_SIZE_MB'') = Inr mb"
    and bytes: "checked_mul mb 1000000 = Some (max_cache_size c)"
    and base: "bind_sum (required var ''VAMPIRE_PUBLIC_BASE_URL'') (parse_public_base_url L) = Inr (public_base_url c)"
    and valid: "validate L c = Inr ()"
    using assms unfolding from_vars_def Let_def by (auto simp: bind_sum_Inr split: option.splits)
  have "unat (max_cache_size c) = unat mb * 1000000"
    using bytes by (simp add: checked_mul_Some)
  moreover have "max_cache_size c \<noteq> 0"
    using valid by (simp add: validate_Inr)
  ultimately have "0 < unat mb"
    by (metis gr0I mult_is_0 unat_eq_zero)
  moreover obtain v where "var ''VAMPIRE_MAX_CACHE_SIZE_MB'' = Some v" "parse_unsigned (2 ^ 64 - 1) (trim v) = Inr (unat mb)"
    using mb by (auto simp: bind_sum_Inr required_def number_value_Inr split: option.splits)
  moreover obtain w where "var ''VAMPIRE_PUBLIC_BASE_URL'' = Some w" "parse_public_base_url L w = Inr (public_base_url c)"
    using base by (auto simp: bind_sum_Inr required_def split: option.splits)
  ultimately show ?thesis
    using valid \<open>unat (max_cache_size c) = unat mb * 1000000\<close>
    by (auto simp: validate_Inr unat_gt_0 parse_public_base_url_def split: sum.splits if_splits)
qed

lemma white_space_no_digit:
  "w \<in> set white_space \<Longrightarrow> w \<noteq> [] \<and> \<not> is_ascii_digit (hd w) \<and> \<not> is_ascii_digit (last w)"
proof -
  have "list_all (\<lambda>w. w \<noteq> [] \<and> \<not> is_ascii_digit (hd w) \<and> \<not> is_ascii_digit (last w)) white_space"
    by code_simp
  then show "w \<in> set white_space \<Longrightarrow> w \<noteq> [] \<and> \<not> is_ascii_digit (hd w) \<and> \<not> is_ascii_digit (last w)"
    by (simp add: list_all_iff)
qed

lemma u64_of_nat_0: "n < 2 ^ 64 \<Longrightarrow> (of_nat n :: u64) = 0 \<longleftrightarrow> n = 0"
  by (subst word_unat_eq_iff) (simp add: unat_of_nat)

lemma trim_digits:
  assumes "s \<noteq> []" and "is_ascii_digit (hd s)" and "is_ascii_digit (last s)"
  shows "trim s = s"
proof -
  have "\<not> prefix w s" if "w \<in> set white_space" for w
    using white_space_no_digit [OF that] assms(2) by (cases w; cases s) auto
  then have start: "trim_start s = s"
    by (subst trim_start.simps) (auto simp: find_None_iff split: option.split dest: find_Some_iff [THEN iffD1] elim: nth_mem)
  have "\<not> suffix w s" if "w \<in> set white_space" for w
    using white_space_no_digit [OF that] assms(1,3) by (auto simp: suffix_def)
  then have "trim_end s = s"
    by (subst trim_end.simps) (auto simp: find_None_iff split: option.split dest: find_Some_iff [THEN iffD1] elim: nth_mem)
  with start show ?thesis
    by (simp add: trim_def)
qed

lemma trim_decimal: "trim (decimal n) = decimal n"
  by (rule trim_digits) (use decimal_digits [of _ n] in \<open>auto simp: hd_in_set last_in_set\<close>)

lemma default_addresses:
  "trim ''127.0.0.1:8080'' = ''127.0.0.1:8080''" "trim ''127.0.0.1:8081'' = ''127.0.0.1:8081''"
  "trim ''127.0.0.1:8082'' = ''127.0.0.1:8082''" "trim ''32'' = ''32''" "trim ''30000'' = ''30000''"
  by (rule trim_digits; simp add: is_ascii_digit_def)+

lemma replicate_seven: "replicate 7 x = [x, x, x, x, x, x, x]"
  by (simp add: numeral_eq_Suc)

lemma parse_defaults:
  "parse_socket_addr ''127.0.0.1:8080'' = Inr (SocketV4 [127, 0, 0, 1] 8080)"
  "parse_socket_addr ''127.0.0.1:8081'' = Inr (SocketV4 [127, 0, 0, 1] 8081)"
  "parse_socket_addr ''127.0.0.1:8082'' = Inr (SocketV4 [127, 0, 0, 1] 8082)"
  "parse_socket_addr ''[::1]:80'' = Inr (SocketV6 [0, 0, 0, 0, 0, 0, 0, 1] 0 80)"
  by (simp_all add: parse_socket_addr_def read_socket_addr_v4_def read_ipv4_addr_def read_separator_def
      read_number_def digit_value_def is_ascii_digit_def given_char_def read_port_def Let_def
      read_socket_addr_v6_def read_ipv6_addr_def read_groups.simps read_scope_id_def replicate_seven)

lemma from_vars_required_only:
  assumes "\<And>name. var name =
      (if name = ''VAMPIRE_PUBLIC_BASE_URL'' then Some base
       else if name = ''VAMPIRE_MAX_CACHE_SIZE_MB'' then Some (decimal n) else None)"
    and "parse_public_base_url L base = Inr u" and "parse_public_base_url L u = Inr u"
    and "0 < n" and "n < 2 ^ 64"
  shows "from_vars L var =
    (if n * 1000000 < 2 ^ 64
     then Inr \<lparr>pkg_bind = SocketV4 [127, 0, 0, 1] 8080, git_bind = SocketV4 [127, 0, 0, 1] 8081,
               management_bind = SocketV4 [127, 0, 0, 1] 8082, public_base_url = u,
               cache_dir = ''./.cache/vampire'', max_cache_size = of_nat (n * 1000000),
               max_upstream_fetches = 32, upstream_timeout_ms = 30000\<rparr>
     else Inl ''invalid VAMPIRE_MAX_CACHE_SIZE_MB: byte conversion overflow'')"
proof -
  have mb: "number_value name (decimal n) = Inr (of_nat n)" for name
    using parse_unsigned_decimal [of n "2 ^ 64 - 1"] assms(5) by (simp add: number_value_def trim_decimal)
  have nums: "number_value name ''32'' = Inr 32" "number_value name ''30000'' = Inr 30000" for name
    by (simp_all add: number_value_def default_addresses parse_unsigned_def is_ascii_digit_def)
  have un: "unat (of_nat n :: u64) = n"
    using assms(5) by (simp add: unat_of_nat)
  have prod: "checked_mul (of_nat n :: u64) 1000000
      = (if n * 1000000 < 2 ^ 64 then Some (of_nat (n * 1000000)) else None)"
    unfolding checked_mul_def un by simp
  have nz: "(of_nat (n * 1000000) :: u64) \<noteq> 0" if "n * 1000000 < 2 ^ 64"
    using u64_of_nat_0 [OF that] assms(4) by simp
  show ?thesis
    using nz
    by (simp add: from_vars_def Let_def bind_sum_def addr_var_def default_to_def required_def assms(1-3)
        default_addresses parse_defaults mb nums prod validate_def del: of_nat_mult)
qed

lemma sample_base_url: "parse_public_base_url sample_lib ''https://proxy'' = Inr ''https://proxy''"
  by code_simp

lemma from_vars_valid_witness:
  "\<exists>c. from_vars sample_lib
     (\<lambda>name. if name = ''VAMPIRE_PUBLIC_BASE_URL'' then Some ''https://proxy''
            else if name = ''VAMPIRE_MAX_CACHE_SIZE_MB'' then Some (decimal 500) else None) = Inr c
   \<and> validate sample_lib c = Inr () \<and> 0 < unat (max_upstream_fetches c)"
  using from_vars_valid from_vars_required_only [of _ "''https://proxy''" 500 sample_lib, OF _ sample_base_url sample_base_url]
  by fastforce

text \<open>
  The documented defaults.  With only the two required variables set, a valid base URL and a
  positive number of megabytes whose bytes fit in 64 bits, reading the configuration succeeds and gives
  the loopback addresses, the cache directory and the limits of the documentation; a number whose bytes
  do not fit is refused instead of wrapping around.
\<close>

lemma from_vars_defaults:
  assumes "\<And>name. var name =
      (if name = ''VAMPIRE_PUBLIC_BASE_URL'' then Some base
       else if name = ''VAMPIRE_MAX_CACHE_SIZE_MB'' then Some (decimal n) else None)"
    and "parse_public_base_url L base = Inr u" and "parse_public_base_url L u = Inr u"
    and "0 < n" and "n < 2 ^ 64"
  shows "from_vars L var =
    (if n * 1000000 < 2 ^ 64
     then Inr \<lparr>pkg_bind = SocketV4 [127, 0, 0, 1] 8080, git_bind = SocketV4 [127, 0, 0, 1] 8081,
               management_bind = SocketV4 [127, 0, 0, 1] 8082, public_base_url = u,
               cache_dir = ''./.cache/vampire'', max_cache_size = of_nat (n * 1000000),
               max_upstream_fetches = 32, upstream_timeout_ms = 30000\<rparr>
     else Inl ''invalid VAMPIRE_MAX_CACHE_SIZE_MB: byte conversion overflow'')"
  using assms by (rule from_vars_required_only)

lemma from_vars_defaults_sample:
  "from_vars sample_lib
     (\<lambda>name. if name = ''VAMPIRE_PUBLIC_BASE_URL'' then Some ''https://proxy''
            else if name = ''VAMPIRE_MAX_CACHE_SIZE_MB'' then Some (decimal 500) else None)
   = Inr \<lparr>pkg_bind = SocketV4 [127, 0, 0, 1] 8080, git_bind = SocketV4 [127, 0, 0, 1] 8081,
          management_bind = SocketV4 [127, 0, 0, 1] 8082, public_base_url = ''https://proxy'',
          cache_dir = ''./.cache/vampire'', max_cache_size = 500000000,
          max_upstream_fetches = 32, upstream_timeout_ms = 30000\<rparr>"
  using from_vars_defaults [of _ "''https://proxy''" 500 sample_lib, OF _ sample_base_url sample_base_url]
  by simp

end
