(* ===== verification/Addresses.thy ===== *)
theory Addresses
  imports Config
begin

text \<open>
  \<^verbatim>\<open>Display\<close> of socket addresses, as \<^verbatim>\<open>std::net\<close> writes them: \<^verbatim>\<open>src/main.rs\<close> logs the addresses it cannot
  bind, and \<^verbatim>\<open>src/state.rs\<close> makes the origin of a test upstream out of one.
\<close>

fun lower_hex :: "nat \<Rightarrow> string" where
  "lower_hex n =
     (if n < 10 then [char_of (48 + n)]
      else if n < 16 then [char_of (87 + n)]
      else lower_hex (n div 16) @ lower_hex (n mod 16))"

declare lower_hex.simps [simp del]

definition display_ipv4 :: "u8 list \<Rightarrow> string" where
  "display_ipv4 ip = join_char (CHR ''.'') (map (\<lambda>b. decimal (unat b)) ip)"

text \<open>The first of the longest runs of zeros: where it starts and how long it is.\<close>

fun longest_zeros :: "nat \<Rightarrow> nat \<times> nat \<Rightarrow> nat \<times> nat \<Rightarrow> u16 list \<Rightarrow> nat \<times> nat" where
  "longest_zeros i current longest [] = longest"
| "longest_zeros i current longest (x # xs) =
     (if x = 0
      then
        (let current' = (if snd current = 0 then i else fst current, Suc (snd current)) in
         longest_zeros (Suc i) current' (if snd current' > snd longest then current' else longest) xs)
      else longest_zeros (Suc i) (0, 0) longest xs)"

definition display_segments :: "u16 list \<Rightarrow> string" where
  "display_segments xs = join_char (CHR '':'') (map (\<lambda>x. lower_hex (unat x)) xs)"

definition display_ipv6 :: "u16 list \<Rightarrow> string" where
  "display_ipv6 ip =
     (if take 6 ip = [0, 0, 0, 0, 0, 0xFFFF]
      then ''::ffff:'' @ display_ipv4 (concat (map (\<lambda>x. [ucast (drop_bit 8 x), ucast x]) (drop 6 ip)))
      else
        (case longest_zeros 0 (0, 0) (0, 0) ip of
           (start, len) \<Rightarrow>
             if len > 1
             then display_segments (take start ip) @ ''::'' @ display_segments (drop (start + len) ip)
             else display_segments ip))"

definition display_socket_addr :: "socket_addr \<Rightarrow> string" where
  "display_socket_addr addr =
     (case addr of
        SocketV4 ip port \<Rightarrow> display_ipv4 ip @ '':'' @ decimal (unat port)
      | SocketV6 ip scope port \<Rightarrow>
          ''['' @ display_ipv6 ip @ (if scope = 0 then [] else ''%'' @ decimal (unat scope)) @ '']:''
            @ decimal (unat port))"

section \<open>Lemmas\<close>

lemma shown_digits:
  "char_of (48 :: nat) = CHR ''0''"
  "char_of (49 :: nat) = CHR ''1''"
  "char_of (50 :: nat) = CHR ''2''"
  "char_of (51 :: nat) = CHR ''3''"
  "char_of (52 :: nat) = CHR ''4''"
  "char_of (55 :: nat) = CHR ''7''"
  "char_of (56 :: nat) = CHR ''8''"
  "char_of (98 :: nat) = CHR ''b''"
  "char_of (100 :: nat) = CHR ''d''"
  by code_simp+

lemma display_examples:
  "display_socket_addr (SocketV4 [127, 0, 0, 1] 8080) = ''127.0.0.1:8080''"
  "display_socket_addr (SocketV6 [0, 0, 0, 0, 0, 0, 0, 1] 0 80) = ''[::1]:80''"
  "display_socket_addr (SocketV6 [0x2001, 0xDB8, 0, 0, 1, 0, 0, 1] 3 443) = ''[2001:db8::1:0:0:1%3]:443''"
  "display_socket_addr (SocketV6 [0, 0, 0, 0, 0, 0xFFFF, 0x7F00, 1] 0 80) = ''[::ffff:127.0.0.1]:80''"
  by (simp_all add: display_socket_addr_def display_ipv4_def display_ipv6_def display_segments_def decimal.simps
      lower_hex.simps shown_digits)

end
