(* ===== verification/AppState.thy ===== *)
theory AppState
  imports Startup Addresses Flights
begin

text \<open>
  \<^verbatim>\<open>src/state.rs\<close>: making the application out of a configuration.  Building the two HTTP clients is the
  builder of the crate \<^verbatim>\<open>reqwest\<close>, a parameter that takes the settings and may fail; the clients themselves
  are the \<open>network\<close> the requests are sent on.  What the application keeps is the \<open>env\<close> with its
  upstreams and its public URL, and the \<open>app\<close>.
\<close>

section \<open>Loopback addresses\<close>

text \<open>\<^verbatim>\<open>IpAddr::is_loopback\<close>: 127.0.0.0/8, or ::1.\<close>

definition is_loopback :: "socket_addr \<Rightarrow> bool" where
  "is_loopback addr =
     (case addr of
        SocketV4 ip _ \<Rightarrow> ip \<noteq> [] \<and> hd ip = 127
      | SocketV6 ip _ _ \<Rightarrow> ip = [0, 0, 0, 0, 0, 0, 0, 1])"

section \<open>Construction\<close>

text \<open>
  \<^verbatim>\<open>CacheStore::new\<close> validates the configuration again.  \<^verbatim>\<open>tokio::sync::Semaphore::new\<close> panics above
  \<^verbatim>\<open>Semaphore::MAX_PERMITS\<close>, which is \<^verbatim>\<open>usize::MAX >> 3\<close>; it is called after the directory is locked.
\<close>

definition MAX_PERMITS :: usize where
  "MAX_PERMITS = drop_bit 3 (- 1)"

definition new_cache_store :: "url_lib \<Rightarrow> config \<Rightarrow> (fs, store) io" where
  "new_cache_store L c =
     (case validate L c of
        Inl e \<Rightarrow> io_fail (IoError InvalidInput e)
      | Inr _ \<Rightarrow>
          if max_upstream_fetches c > MAX_PERMITS
          then
            io_bind (create_dir_all []) (\<lambda>_.
            io_bind claim_cache_directory (\<lambda>_.
            io_bind lock_cache_directory (\<lambda>_.
            io_fail panic_error)))
          else new_store (max_cache_size c) (unat (max_upstream_fetches c)))"

definition new_with_clients :: "env \<Rightarrow> config \<Rightarrow> registry_origins \<Rightarrow> (fs, env \<times> app) io" where
  "new_with_clients E c upstreams =
     io_bind (new_cache_store (env_url E) c) (\<lambda>cache.
     io_return
       (E\<lparr>env_upstreams := upstreams, env_public_base_url := public_base_url c\<rparr>,
        \<lparr>app_store = cache, app_stats = default_stats\<rparr>))"

text \<open>
  The settings the two clients are built with.  A redirect policy answers with nothing to follow a redirect and
  with an error to refuse it; without a policy the redirect itself is the answer.
\<close>

datatype redirect_policy = FollowIf "url \<Rightarrow> url list \<Rightarrow> string option" | NoRedirects

record client_settings =
  cs_http2_adaptive_window :: bool
  cs_tcp_nodelay :: bool
  cs_redirect :: redirect_policy
  cs_timeout :: "u64 option"
  cs_connect_timeout :: "u64 option"
  cs_read_timeout :: "u64 option"

type_synonym client_builder = "client_settings \<Rightarrow> string option"

definition build_with :: "client_builder \<Rightarrow> client_settings \<Rightarrow> (fs, unit) io" where
  "build_with builder settings =
     (case builder settings of None \<Rightarrow> io_return () | Some e \<Rightarrow> io_fail (other_error e))"

definition package_redirect_policy :: "url_lib \<Rightarrow> redirect_policy" where
  "package_redirect_policy L =
     FollowIf (\<lambda>next_url previous.
       if package_redirect_allowed L next_url previous then None else Some ''unsafe package redirect'')"

definition build_package_client :: "url_lib \<Rightarrow> client_builder \<Rightarrow> u64 \<Rightarrow> (fs, unit) io" where
  "build_package_client L builder timeout =
     build_with builder
       \<lparr>cs_http2_adaptive_window = True, cs_tcp_nodelay = True, cs_redirect = package_redirect_policy L,
        cs_timeout = Some timeout, cs_connect_timeout = None, cs_read_timeout = None\<rparr>"

definition build_git_client :: "client_builder \<Rightarrow> u64 \<Rightarrow> (fs, unit) io" where
  "build_git_client builder timeout =
     build_with builder
       \<lparr>cs_http2_adaptive_window = True, cs_tcp_nodelay = True, cs_redirect = NoRedirects, cs_timeout = None,
        cs_connect_timeout = Some timeout, cs_read_timeout = Some timeout\<rparr>"

definition new_with_origins ::
  "env \<Rightarrow> client_builder \<Rightarrow> config \<Rightarrow> registry_origins \<Rightarrow> (fs, env \<times> app) io" where
  "new_with_origins E builder c upstreams =
     (case validate (env_url E) c of
        Inl e \<Rightarrow> io_fail (IoError InvalidInput e)
      | Inr _ \<Rightarrow>
          io_bind (build_package_client (env_url E) builder (upstream_timeout_ms c)) (\<lambda>_.
          io_bind (build_git_client builder (upstream_timeout_ms c)) (\<lambda>_.
          new_with_clients E c upstreams)))"

text \<open>\<open>None\<close> is the panic of \<^verbatim>\<open>unwrap\<close> on an origin that does not parse.\<close>

definition new_app ::
  "env \<Rightarrow> client_builder \<Rightarrow> config \<Rightarrow> (fs, env \<times> app) io option" where
  "new_app E builder c =
     map_option (new_with_origins E builder c) (default_origins (env_url E))"

definition new_with_loopback_upstream ::
  "env \<Rightarrow> client_builder \<Rightarrow> config \<Rightarrow> socket_addr \<Rightarrow> (fs, env \<times> app) io option" where
  "new_with_loopback_upstream E builder c upstream =
     (if \<not> is_loopback upstream
      then Some (io_fail (IoError InvalidInput ''test upstream must use a loopback address''))
      else map_option (new_with_origins E builder c)
             (loopback_origins (env_url E) (display_socket_addr upstream)))"

section \<open>Lemmas\<close>

lemma evict_store_table:
  assumes "evict_files_to_bound s = (r, t)"
  shows "table t = table s"
  using still_table [OF still_evict] assms by (rule stillD)

lemma new_store_table:
  assumes "new_store max_size fetches f = (Inr s, g)"
  shows "st_inflight s = Map.empty" and "st_upstream_permits s = fetches" and "g = st_fs s"
proof -
  obtain h r where "evict_files_to_bound (empty_store h max_size fetches) = (r, s)" and g: "g = st_fs s"
    using assms by (rule new_store_InrE)
  then have "table s = table (empty_store h max_size fetches)"
    by (auto dest: evict_store_table)
  then show "st_inflight s = Map.empty" "st_upstream_permits s = fetches"
    by (simp_all add: table_def empty_store_def)
  show "g = st_fs s" by (fact g)
qed

lemma new_with_origins_Inr:
  assumes "new_with_origins E builder c upstreams f = (Inr (E', a), g)"
  shows "validate (env_url E) c = Inr ()"
    and "new_store (max_cache_size c) (unat (max_upstream_fetches c)) f = (Inr (app_store a), g)"
    and "E' = E\<lparr>env_upstreams := upstreams, env_public_base_url := public_base_url c\<rparr>"
    and "app_stats a = default_stats" and "max_upstream_fetches c \<le> MAX_PERMITS"
proof -
  show v: "validate (env_url E) c = Inr ()"
    using assms by (auto simp: new_with_origins_def io_simps split: sum.splits)
  have "new_with_clients E c upstreams f = (Inr (E', a), g)"
    using assms v
    by (auto simp: new_with_origins_def build_package_client_def build_git_client_def build_with_def io_simps io_bind_def split: option.splits)
  then show "new_store (max_cache_size c) (unat (max_upstream_fetches c)) f = (Inr (app_store a), g)"
      "E' = E\<lparr>env_upstreams := upstreams, env_public_base_url := public_base_url c\<rparr>"
      "app_stats a = default_stats" "max_upstream_fetches c \<le> MAX_PERMITS"
    using v by (auto simp: new_with_clients_def new_cache_store_def io_simps split: if_splits elim!: io_bind_InrE)
qed

text \<open>
  A configuration that \<^verbatim>\<open>validate\<close> accepts can still make \<^verbatim>\<open>CacheStore::new\<close> panic: it has no upper bound for the
  number of upstream fetches.
\<close>

lemma validated_config_panics:
  assumes "validate L c = Inr ()" and "max_upstream_fetches c > MAX_PERMITS"
    and "fs_faults f = []" "\<not> fs_marker_locked f" "view f [CACHE_MARKER] = Some (File marker_contents)"
  shows "fst (new_cache_store L c f) = Inl panic_error"
  using assms
  by (auto simp: new_cache_store_def claim_cache_directory_def lock_cache_directory_def create_dir_all_def io_try_def
      read_file_def io_bind_def open_file_def fs_op_no_faults io_simps view_File)

text \<open>What \<^verbatim>\<open>App::new\<close> makes is where the concurrent requests start.\<close>

lemma new_with_origins_machine:
  assumes "new_with_origins E builder c upstreams f = (Inr (E', a), g)"
  shows "validate (env_url E) c = Inr () \<and> env_upstreams E' = upstreams \<and> env_public_base_url E' = public_base_url c
    \<and> sys_app (initial (app_store a)) = a \<and> st_fs (app_store a) = g
    \<and> reachable E' (unat (max_upstream_fetches c)) (initial (app_store a), {#})
    \<and> 0 < st_upstream_permits (app_store a) \<and> st_upstream_permits (app_store a) \<le> unat MAX_PERMITS"
proof -
  note made = new_with_origins_Inr [OF assms]
  note store = new_store_table [OF made(2)]
  have "0 < unat (max_upstream_fetches c)"
    using made(1) by (simp add: validate_Inr unat_gt_0)
  moreover have "reachable E' (unat (max_upstream_fetches c)) (initial (app_store a), {#})"
    by (rule reachable.start [OF store(1,2)])
  moreover have "sys_app (initial (app_store a)) = a"
    using made(4) by (simp add: initial_def)
  ultimately show ?thesis
    using made store by (simp add: word_le_nat_alt)
qed

end
