(* ===== verification/FailureLog.thy ===== *)
theory FailureLog
  imports Proxy "HOL-Library.AList" "HOL-Library.List_Lexorder"
begin

text \<open>
  \<^verbatim>\<open>src/failure_log.rs\<close>: one line of JSON on standard error per failure.  \<^verbatim>\<open>serde_json\<close> keeps the members of
  an object in a \<^verbatim>\<open>BTreeMap\<close>, so they are printed in the order of their names; how a string is quoted is
  \<open>json_write_string\<close> of the parameter \<open>json_lib\<close>.
\<close>

section \<open>Values\<close>

datatype json = JString string | JNumber nat | JObject "(string \<times> json) list"

text \<open>The object of a \<^verbatim>\<open>json!\<close> literal: a later member replaces an earlier one of the same name.\<close>

definition json_object :: "(string \<times> json) list \<Rightarrow> json" where
  "json_object members = JObject (sort_key fst (AList.clearjunk (rev members)))"

fun json_text :: "json_lib \<Rightarrow> json \<Rightarrow> string" where
  "json_text J (JString s) = json_write_string J s"
| "json_text J (JNumber n) = decimal n"
| "json_text J (JObject members) =
     ''{'' @ join_char (CHR '','') (map (\<lambda>(key, v). json_write_string J key @ '':'' @ json_text J v) members) @ ''}''"

section \<open>The log\<close>

text \<open>The clock is in nanoseconds since the epoch, and may be before it.\<close>

definition now_millis :: "int \<Rightarrow> nat" where
  "now_millis clock = (if clock < 0 then 0 else nat (clock div 1000000))"

text \<open>\<^verbatim>\<open>json!\<close> panics on a number that does not fit in 64 bits (\<open>None\<close>).\<close>

definition format_failure :: "json_lib \<Rightarrow> int \<Rightarrow> string \<Rightarrow> json \<Rightarrow> string option" where
  "format_failure J clock event details =
     (let ts = now_millis clock in
      if ts < 2 ^ 64
      then Some (json_text J (json_object
        [(''ts_ms'', JNumber ts), (''level'', JString ''error''), (''event'', JString event), (''data'', details)]))
      else None)"

text \<open>\<^verbatim>\<open>eprintln!\<close> panics when standard error cannot be written.\<close>

record stderr =
  se_lines :: "string list"
  se_broken :: bool

definition log_failure :: "json_lib \<Rightarrow> int \<Rightarrow> string \<Rightarrow> json \<Rightarrow> (stderr, unit) io" where
  "log_failure J clock event details = (\<lambda>s.
     case format_failure J clock event details of
       None \<Rightarrow> (Inl panic_error, s)
     | Some line \<Rightarrow>
         if se_broken s then (Inl panic_error, s) else (Inr (), s\<lparr>se_lines := se_lines s @ [line]\<rparr>))"

section \<open>Lemmas\<close>

text \<open>A failure takes one line, whatever strings it mentions: quoting escapes line feeds.\<close>

lemma json_text_one_line:
  assumes "\<And>x. CHR 0x0A \<notin> set (json_write_string J x)"
  shows "CHR 0x0A \<notin> set (json_text J v)"
  using assms
proof (induction J v rule: json_text.induct)
  case (2 J n)
  then show ?case
    using decimal_digits [of "CHR 0x0A" n] by (auto simp: is_ascii_digit_def)
next
  case (3 J members)
  have "CHR 0x0A \<notin> set (json_text J v)" if "(k, v) \<in> set members" for k v
    using 3 that by blast
  then show ?case
    using 3(2) set_join_char [of "CHR '',''" "map (\<lambda>(key, v). json_write_string J key @ '':'' @ json_text J v) members"]
    by fastforce
qed simp

text \<open>The members of the line, in the order of their names.\<close>

lemma format_failure_line:
  assumes "now_millis clock < 2 ^ 64"
  shows "format_failure J clock event details = Some
    (''{'' @ json_write_string J ''data'' @ '':'' @ json_text J details @ '','' @
      json_write_string J ''event'' @ '':'' @ json_write_string J event @ '','' @
      json_write_string J ''level'' @ '':'' @ json_write_string J ''error'' @ '','' @
      json_write_string J ''ts_ms'' @ '':'' @ decimal (now_millis clock) @ ''}'')"
proof -
  have "json_object [(''ts_ms'', t), (''level'', l), (''event'', e), (''data'', d)] =
      JObject [(''data'', d), (''event'', e), (''level'', l), (''ts_ms'', t)]" for t l e d
    by (simp add: json_object_def)
  then show ?thesis
    using assms by (simp add: format_failure_def Let_def)
qed

lemma log_failure_cases:
  obtains (logged) line where "format_failure J clock event details = Some line"
    and "log_failure J clock event details s = (Inr (), s\<lparr>se_lines := se_lines s @ [line]\<rparr>)"
  | (panicked) "log_failure J clock event details s = (Inl panic_error, s)"
  by (cases "format_failure J clock event details"; cases "se_broken s") (simp_all add: log_failure_def)

end
