(* ===== verification/Process.thy ===== *)
theory Process
  imports AppState Handlers FailureLog
begin

text \<open>
  \<^verbatim>\<open>src/main.rs\<close>, \<^verbatim>\<open>Config::from_env\<close> and \<^verbatim>\<open>App::serve\<close>: the process from its environment to the three
  servers.  Parameters are the environment variables, the clock, whether an address can be bound (given
  the sockets that listen already), and in which order and how the servers end, which \<^verbatim>\<open>axum::serve\<close> decides.
\<close>

section \<open>State\<close>

record process =
  pr_files :: fs
  pr_stderr :: stderr
  pr_listening :: "socket_addr list"

definition on_disk :: "(fs, 'a) io \<Rightarrow> (process, 'a) io" where
  "on_disk m = (\<lambda>p. case m (pr_files p) of (r, f) \<Rightarrow> (r, p\<lparr>pr_files := f\<rparr>))"

definition on_stderr :: "(stderr, 'a) io \<Rightarrow> (process, 'a) io" where
  "on_stderr m = (\<lambda>p. case m (pr_stderr p) of (r, s) \<Rightarrow> (r, p\<lparr>pr_stderr := s\<rparr>))"

section \<open>Starting\<close>

text \<open>\<^verbatim>\<open>env::var(key).ok()\<close> is \<open>None\<close> for a variable that is unset or not Unicode.\<close>

definition from_env :: "url_lib \<Rightarrow> (string \<Rightarrow> string option) \<Rightarrow> string + config" where
  "from_env L env_var = from_vars L env_var"

type_synonym bind_oracle = "socket_addr list \<Rightarrow> socket_addr \<Rightarrow> io_error option"

definition bind_listener :: "bind_oracle \<Rightarrow> socket_addr \<Rightarrow> (process, socket_addr) io" where
  "bind_listener bind addr = (\<lambda>p.
     case bind (pr_listening p) addr of
       Some e \<Rightarrow> (Inl e, p)
     | None \<Rightarrow> (Inr addr, p\<lparr>pr_listening := pr_listening p @ [addr]\<rparr>))"

text \<open>Log what failed and return the error; the listeners go out of scope.\<close>

definition startup_failed :: "json_lib \<Rightarrow> int \<Rightarrow> (string \<times> json) list \<Rightarrow> io_error \<Rightarrow> (process, 'a) io" where
  "startup_failed J clock details e =
     io_try (on_stderr (log_failure J clock ''startup_failed'' (json_object details))) (\<lambda>r p.
       (Inl (case r of Inl panic \<Rightarrow> panic | Inr _ \<Rightarrow> e), p\<lparr>pr_listening := []\<rparr>))"

definition listen_or_fail :: "json_lib \<Rightarrow> int \<Rightarrow> bind_oracle \<Rightarrow> string \<Rightarrow> socket_addr \<Rightarrow> (process, socket_addr) io" where
  "listen_or_fail J clock bind label addr =
     io_try (bind_listener bind addr) (\<lambda>r.
     case r of
       Inr listener \<Rightarrow> io_return listener
     | Inl e \<Rightarrow>
         startup_failed J clock
           [(''stage'', JString label), (''bind'', JString (display_socket_addr addr)), (''error'', JString (message e))] e)"

text \<open>A panic in \<^verbatim>\<open>App::new\<close> unwinds \<^verbatim>\<open>main\<close>: nothing is logged.\<close>

definition unwind :: "(process, 'a) io" where
  "unwind p = (Inl panic_error, p\<lparr>pr_listening := []\<rparr>)"

definition build_app :: "env \<Rightarrow> int \<Rightarrow> client_builder \<Rightarrow> config \<Rightarrow> (process, env \<times> app) io" where
  "build_app E clock builder c =
     (case new_app E builder c of
        None \<Rightarrow> unwind
      | Some m \<Rightarrow>
          io_try (on_disk m) (\<lambda>r.
          case r of
            Inr app \<Rightarrow> io_return app
          | Inl e \<Rightarrow>
              if e = panic_error then unwind
              else startup_failed (env_json E) clock
                     [(''stage'', JString ''build_app''), (''error'', JString (message e))] e))"

definition start_process ::
  "env \<Rightarrow> (string \<Rightarrow> string option) \<Rightarrow> int \<Rightarrow> bind_oracle \<Rightarrow> client_builder
     \<Rightarrow> (process, (env \<times> app) \<times> socket_addr \<times> socket_addr \<times> socket_addr) io" where
  "start_process E env_var clock bind builder =
     (let J = env_json E in
      case from_env (env_url E) env_var of
        Inl error \<Rightarrow>
          startup_failed J clock [(''stage'', JString ''load_config''), (''error'', JString error)] (other_error error)
      | Inr c \<Rightarrow>
          io_bind (listen_or_fail J clock bind ''bind_pkg_listener'' (pkg_bind c)) (\<lambda>pkg_listener.
          io_bind (listen_or_fail J clock bind ''bind_git_listener'' (git_bind c)) (\<lambda>git_listener.
          io_bind (listen_or_fail J clock bind ''bind_management_listener'' (management_bind c)) (\<lambda>management_listener.
          io_bind (build_app E clock builder c) (\<lambda>app.
          io_return (app, pkg_listener, git_listener, management_listener))))))"

section \<open>Serving\<close>

datatype server = PkgServer | GitServer | ManagementServer

datatype reply = PkgReply service | GitReply git_reply | ManagementReply response

text \<open>The router of each server; all three have the same application.\<close>

definition serve_request ::
  "router \<Rightarrow> ((string \<times> string) list \<Rightarrow> string \<Rightarrow> string \<Rightarrow> management_routed) \<Rightarrow> env \<Rightarrow> network
     \<Rightarrow> ('body \<Rightarrow> usize \<Rightarrow> string + bytes) \<Rightarrow> server \<Rightarrow> string \<Rightarrow> uri \<Rightarrow> header_list \<Rightarrow> 'body \<Rightarrow> app \<Rightarrow> reply \<times> app" where
  "serve_request select management_select E net tb server verb uri headers body a =
     (case server of
        PkgServer \<Rightarrow> apfst PkgReply (pkg_router select E net tb verb uri headers body a)
      | GitServer \<Rightarrow> apfst GitReply (git_router E net tb verb uri headers body a)
      | ManagementServer \<Rightarrow> (ManagementReply (management_router management_select verb uri a), a))"

text \<open>
  \<^verbatim>\<open>try_join!\<close> over the servers in the order they end, with an error or without: the first error is the
  result; \<open>None\<close> is that some server still runs.
\<close>

fun try_join :: "server list \<Rightarrow> (server \<times> string option) list \<Rightarrow> unit io_result option" where
  "try_join running [] = (if running = [] then Some (Inr ()) else None)"
| "try_join running ((server, ended) # events) =
     (case ended of
        Some e \<Rightarrow> Some (Inl (other_error e))
      | None \<Rightarrow> try_join (remove1 server running) events)"

definition serve_app :: "(server \<times> string option) list \<Rightarrow> unit io_result option" where
  "serve_app events = try_join [PkgServer, GitServer, ManagementServer] events"

text \<open>\<^verbatim>\<open>main\<close>: \<open>None\<close> is a process that serves.\<close>

definition run_main ::
  "env \<Rightarrow> (string \<Rightarrow> string option) \<Rightarrow> int \<Rightarrow> bind_oracle \<Rightarrow> client_builder \<Rightarrow> (server \<times> string option) list
     \<Rightarrow> process \<Rightarrow> unit io_result option \<times> process" where
  "run_main E env_var clock bind builder events p =
     (case start_process E env_var clock bind builder p of
        (Inl e, q) \<Rightarrow> (Some (Inl e), q)
      | (Inr _, q) \<Rightarrow> (serve_app events, q))"

section \<open>Lemmas\<close>

text \<open>
  How a failed start ends: with a panic and nothing logged, or with the error that was logged in one line.
  The files are touched in the last stage only.
\<close>

definition failed_start :: "json_lib \<Rightarrow> int \<Rightarrow> process \<Rightarrow> io_error \<Rightarrow> process \<Rightarrow> bool" where
  "failed_start J clock p e q \<longleftrightarrow>
     pr_listening q = []
     \<and> (e = panic_error \<and> pr_stderr q = pr_stderr p
        \<or> (\<exists>details line. format_failure J clock ''startup_failed'' (json_object details) = Some line
             \<and> pr_stderr q = (pr_stderr p)\<lparr>se_lines := se_lines (pr_stderr p) @ [line]\<rparr>
             \<and> (''error'', JString (message e)) \<in> set details
             \<and> (pr_files q = pr_files p \<or> (''stage'', JString ''build_app'') \<in> set details)))"

lemma startup_failed_ends:
  assumes "(''error'', JString (message e)) \<in> set details"
    and "pr_files p = pr_files initially \<or> (''stage'', JString ''build_app'') \<in> set details"
    and "pr_stderr p = pr_stderr initially"
  shows "ends (failed_start J clock initially) Q (startup_failed J clock details e) p"
proof (cases rule: log_failure_cases [of J clock "''startup_failed''" "json_object details" "pr_stderr p"])
  case (logged line)
  then show ?thesis
    using assms by (auto simp: ends_def startup_failed_def io_try_def on_stderr_def failed_start_def)
next
  case panicked
  then show ?thesis
    using assms by (simp add: ends_def startup_failed_def io_try_def on_stderr_def failed_start_def)
qed

lemma ends_at: "m s = m' t \<Longrightarrow> ends E Q m s = ends E Q m' t"
  by (simp add: ends_def)

lemma listen_ends:
  assumes "pr_stderr p = pr_stderr initially \<and> pr_files p = pr_files initially \<and> pr_listening p = ls"
  shows "ends (failed_start J clock initially)
    (\<lambda>l q. l = addr \<and> pr_stderr q = pr_stderr initially \<and> pr_files q = pr_files initially \<and> pr_listening q = ls @ [addr])
    (listen_or_fail J clock bind label addr) p"
proof (cases "bind (pr_listening p) addr")
  case None
  then show ?thesis
    using assms by (simp add: ends_def listen_or_fail_def bind_listener_def io_try_def io_simps)
next
  case (Some e)
  then have "listen_or_fail J clock bind label addr p = startup_failed J clock
      [(''stage'', JString label), (''bind'', JString (display_socket_addr addr)), (''error'', JString (message e))] e p"
    by (simp add: listen_or_fail_def bind_listener_def io_try_def)
  then show ?thesis
    using assms by (subst ends_at) (auto intro!: startup_failed_ends)
qed

lemma build_ends:
  assumes "pr_stderr p = pr_stderr initially \<and> pr_files p = pr_files initially \<and> pr_listening p = ls"
  shows "ends (failed_start (env_json E) clock initially)
    (\<lambda>x q. pr_stderr q = pr_stderr initially \<and> pr_listening q = ls
       \<and> (\<exists>m. new_app E builder c = Some m \<and> m (pr_files initially) = (Inr x, pr_files q)))
    (build_app E clock builder c) p"
proof (cases "new_app E builder c")
  case None
  then show ?thesis
    using assms by (simp add: ends_def build_app_def unwind_def failed_start_def)
next
  case (Some m)
  obtain r f where m: "m (pr_files initially) = (r, f)"
    by force
  show ?thesis
  proof (cases r)
    case (Inr x)
    then show ?thesis
      using Some m assms by (simp add: ends_def build_app_def io_try_def on_disk_def io_simps)
  next
    case (Inl e)
    show ?thesis
    proof (cases "e = panic_error")
      case True
      then show ?thesis
        using Inl Some m assms by (simp add: ends_def build_app_def io_try_def on_disk_def unwind_def failed_start_def)
    next
      case False
      then have "build_app E clock builder c p = startup_failed (env_json E) clock
          [(''stage'', JString ''build_app''), (''error'', JString (message e))] e (p\<lparr>pr_files := f\<rparr>)"
        using Inl Some m assms by (simp add: build_app_def io_try_def on_disk_def)
      then show ?thesis
        using assms by (subst ends_at) (auto intro!: startup_failed_ends)
    qed
  qed
qed

text \<open>The servers run until the first error, and all of them have to end for a success.\<close>

lemma try_join_error:
  "try_join running (map (\<lambda>s. (s, None)) ended @ (server, Some e) # events) = Some (Inl (other_error e))"
  by (induction ended arbitrary: running) simp_all

lemma serve_app_success:
  assumes "serve_app events = Some (Inr ())"
  shows "(PkgServer, None) \<in> set events \<and> (GitServer, None) \<in> set events \<and> (ManagementServer, None) \<in> set events"
proof -
  have "\<forall>s\<in>set running. (s, None) \<in> set events" if "try_join running events = Some (Inr ())" for running
    using that
  proof (induction events arbitrary: running)
    case (Cons event events)
    obtain server ended where event: "event = (server, ended)"
      by force
    then have "ended = None" "try_join (remove1 server running) events = Some (Inr ())"
      using Cons.prems by (auto split: option.splits)
    then show ?case
      using Cons.IH [of "remove1 server running"] event in_set_remove1 by fastforce
  qed (auto split: if_splits)
  then show ?thesis
    using assms by (auto simp: serve_app_def)
qed

section \<open>Properties\<close>

text \<open>
  C40: The process starts completely or not at all.  When it serves, the environment was a valid
  configuration, exactly the three configured addresses listen, nothing was logged, and the
  application is the initial state of the machine of concurrent requests with the configured permits, at least one and no
  more than a semaphore can hold.
  When the start fails, no socket listens, the error was logged in exactly one line that carries its
  message (or \<^verbatim>\<open>main\<close> panicked), and no file was touched unless the last stage, making the application,
  was reached.
\<close>

theorem process_starts:
  assumes "pr_listening p = []"
  shows "case start_process E env_var clock bind builder p of
      (Inl e, q) \<Rightarrow> failed_start (env_json E) clock p e q
    | (Inr ((E', a), l1, l2, l3), q) \<Rightarrow>
        \<exists>c. from_env (env_url E) env_var = Inr c \<and> validate (env_url E) c = Inr ()
          \<and> [l1, l2, l3] = [pkg_bind c, git_bind c, management_bind c] \<and> pr_listening q = [l1, l2, l3]
          \<and> pr_stderr q = pr_stderr p \<and> st_fs (app_store a) = pr_files q
          \<and> default_origins (env_url E) = Some (env_upstreams E') \<and> env_public_base_url E' = public_base_url c
          \<and> reachable E' (unat (max_upstream_fetches c)) (initial (app_store a), {#})
          \<and> 0 < st_upstream_permits (app_store a) \<and> st_upstream_permits (app_store a) \<le> unat MAX_PERMITS"
proof -
  let ?J = "env_json E"
  have "ends (failed_start ?J clock p) (\<lambda>((E', a), l1, l2, l3) q.
        \<exists>c. from_env (env_url E) env_var = Inr c \<and> validate (env_url E) c = Inr ()
          \<and> [l1, l2, l3] = [pkg_bind c, git_bind c, management_bind c] \<and> pr_listening q = [l1, l2, l3]
          \<and> pr_stderr q = pr_stderr p \<and> st_fs (app_store a) = pr_files q
          \<and> default_origins (env_url E) = Some (env_upstreams E') \<and> env_public_base_url E' = public_base_url c
          \<and> reachable E' (unat (max_upstream_fetches c)) (initial (app_store a), {#})
          \<and> 0 < st_upstream_permits (app_store a) \<and> st_upstream_permits (app_store a) \<le> unat MAX_PERMITS)
      (start_process E env_var clock bind builder) p"
  proof (cases "from_env (env_url E) env_var")
    case (Inl error)
    then show ?thesis
      by (auto simp: start_process_def Let_def other_error_def intro!: startup_failed_ends)
  next
    case (Inr c)
    show ?thesis
      unfolding start_process_def Let_def Inr sum.case
      by (rule ends_bind [OF listen_ends [where initially = p]], simp add: assms,
          rule ends_bind [OF listen_ends [where initially = p]], simp,
          rule ends_bind [OF listen_ends [where initially = p]], simp,
          rule ends_bind [OF build_ends [where initially = p]], simp,
          rule ends_return)
        (auto simp: Inr new_app_def dest: new_with_origins_machine)
  qed
  then show ?thesis
    by (auto simp: ends_def split: prod.splits sum.splits)
qed

section \<open>An instance\<close>

text \<open>The first address can be bound and the second is in use.\<close>

definition one_socket :: bind_oracle where
  "one_socket listening addr =
     (if listening = [] then None else Some (IoError (OtherKind 98) ''Address already in use (os error 98)''))"

definition sample_vars :: "string \<Rightarrow> string option" where
  "sample_vars name =
     (if name = ''VAMPIRE_PUBLIC_BASE_URL'' then Some ''https://proxy''
      else if name = ''VAMPIRE_MAX_CACHE_SIZE_MB'' then Some (decimal 500) else None)"

definition sample_process :: process where
  "sample_process =
     \<lparr>pr_files = st_fs fresh_store, pr_stderr = \<lparr>se_lines = [], se_broken = False\<rparr>, pr_listening = []\<rparr>"

lemma process_starts_witness:
  "\<exists>q line. start_process (sample_env page_meta) sample_vars 0 one_socket (\<lambda>_. None) sample_process
      = (Inl (IoError (OtherKind 98) ''Address already in use (os error 98)''), q)
     \<and> failed_start (env_json (sample_env page_meta)) 0 sample_process
         (IoError (OtherKind 98) ''Address already in use (os error 98)'') q
     \<and> pr_listening q = [] \<and> se_lines (pr_stderr q) = [line]"
proof -
  let ?E = "sample_env page_meta" and ?e = "IoError (OtherKind 98) ''Address already in use (os error 98)''"
  let ?run = "start_process ?E sample_vars 0 one_socket (\<lambda>_. None) sample_process"
  have "env_url ?E = sample_lib"
    by (simp add: sample_env_def)
  then obtain c where c: "from_env (env_url ?E) sample_vars = Inr c"
    using from_vars_defaults_sample by (simp add: from_env_def sample_vars_def [abs_def])
  let ?p = "sample_process\<lparr>pr_listening := [pkg_bind c]\<rparr>"
  let ?details = "[(''stage'', JString ''bind_git_listener''), (''bind'', JString (display_socket_addr (git_bind c))),
      (''error'', JString (message ?e))]"
  obtain line where "format_failure (env_json ?E) 0 ''startup_failed'' (json_object ?details) = Some line"
    using format_failure_line [of 0] by (simp add: now_millis_def)
  then have failed: "startup_failed (env_json ?E) 0 ?details ?e ?p =
      (Inl ?e :: socket_addr io_result, sample_process\<lparr>pr_stderr := \<lparr>se_lines = [line], se_broken = False\<rparr>\<rparr>)"
    by (simp add: startup_failed_def io_try_def on_stderr_def log_failure_def sample_process_def)
  have run: "?run = (Inl ?e, sample_process\<lparr>pr_stderr := \<lparr>se_lines = [line], se_broken = False\<rparr>\<rparr>)"
    using c failed
    by (simp add: start_process_def Let_def io_bind_def listen_or_fail_def bind_listener_def one_socket_def io_try_def
        io_simps sample_process_def)
  have "failed_start (env_json ?E) 0 sample_process ?e (snd ?run)"
    using process_starts [where p = sample_process and E = ?E and env_var = sample_vars and clock = 0 and bind = one_socket
        and builder = "\<lambda>_. None"] run
    by (simp add: sample_process_def)
  then show ?thesis
    using run by (intro exI [of _ "snd ?run"] exI [of _ line]) (simp add: sample_process_def)
qed

end
