(* ===== verification/Spec2Isabelle.thy ===== *)
theory Spec2Isabelle
  imports MemoryBudget Process
begin

text \<open>
  Vampire is a caching proxy for package registries (crates.io, PyPI, npm) and for fetching from GitHub
  over the smart HTTP protocol.  This development models the Rust program under \<^verbatim>\<open>src/src\<close> and proves what
  makes it correct.

  \<^bold>\<open>The program.\<close>  Three servers (\<^verbatim>\<open>app.rs\<close>) share one application (\<^verbatim>\<open>state.rs\<close>).  A handler of the package
  server (\<^verbatim>\<open>cargo.rs\<close>, \<^verbatim>\<open>pypi.rs\<close>, \<^verbatim>\<open>npm.rs\<close>) turns the target of a request into an upstream URL (\<^verbatim>\<open>routes.rs\<close>)
  and asks the proxy (\<^verbatim>\<open>proxy.rs\<close>), which answers from the cache on disk, joins a fetch that is under way, or
  leads a new one (\<^verbatim>\<open>cache.rs\<close>).  Artifacts are streamed to a file that is renamed into place; metadata is
  read under a memory reservation, its links are rewritten, and it is stored if it can be revalidated.  The
  cache is bounded: after a publication, and when a pin is dropped, the oldest entries that are not
  pinned are evicted.  The git server (\<^verbatim>\<open>git.rs\<close>) stores nothing.

  \<^bold>\<open>The theories.\<close>
  \<^item> \<open>Prelude\<close>: Rust's integers, strings and errors, the result monad \<open>io\<close>, and the lemmas all others use.
  \<^item> \<open>Routes\<close>, \<open>Rewrite\<close> (\<^verbatim>\<open>routes.rs\<close>, the redirect policy of \<^verbatim>\<open>state.rs\<close>, the choice of a rewriting in \<^verbatim>\<open>proxy.rs\<close>):
    canonical paths, URL builders, link and document rewriting with its limits.
  \<^item> \<open>FileSystem\<close>, \<open>FileView\<close>: the part of \<^verbatim>\<open>tokio::fs\<close> the program uses, with open files that outlive their
    names, writes that need a flush, and a schedule of faults; and the view of it as a map.
  \<^item> \<open>CacheFormat\<close>, \<open>Cache\<close>, \<open>Eviction\<close>, \<open>Publish\<close>, \<open>Startup\<close>, \<open>Inflight\<close> (\<^verbatim>\<open>cache.rs\<close>): the packed entry and its
    footer, keys; loading, pins and permits; the scan and the eviction; \<^verbatim>\<open>store_metadata\<close> and
    \<^verbatim>\<open>commit_artifact\<close>; claiming and cleaning the directory; the table of flights.
  \<^item> \<open>Http\<close>, \<open>Stats\<close>, \<open>Config\<close>: responses and stored headers (\<^verbatim>\<open>proxy.rs\<close>), counters and their rendering
    (\<^verbatim>\<open>stats.rs\<close>), the environment variables (\<^verbatim>\<open>config.rs\<close>).
  \<^item> \<open>Proxy\<close>: what one leader does, from the request to the outcome; the reservation of memory travels with
    the state (\<open>app \<times> reservation\<close>) as its owner does in the code.
  \<^item> \<open>DownloadPoints\<close>, \<open>DocumentPoints\<close>: the two kinds of fetch cut at their await points, with what the suspended
    function holds at each point and what its drop does.
  \<^item> \<open>SingleFlight\<close>, \<open>Flights\<close>: the abstract machine of keys, flights and waiters; and the calls that use the
    table (\<^verbatim>\<open>handle_artifact\<close>, \<^verbatim>\<open>handle_metadata\<close> and its HEAD) as tasks that interleave, which refine it.
  \<^item> \<open>Jobs\<close>: the whole program as interleaved jobs, namely those tasks with every fetch cut at its await points,
    and the requests that take a permit or memory without the table (\<^verbatim>\<open>handle_artifact_head\<close>, \<^verbatim>\<open>npm_search\<close>,
    \<^verbatim>\<open>npm_audit\<close> with \<^verbatim>\<open>handle_npm_request\<close>).
  \<^item> \<open>Isolation\<close>, \<open>Interference\<close>: what a task can do to a file of another one: nothing.
  \<^item> \<open>Publications\<close>, \<open>MemoryBudget\<close>: who owns publications (over the tasks of \<open>Flights\<close>) and memory (over all jobs), against
    the counters of the store.
  \<^item> \<open>Git\<close>, \<open>Handlers\<close>, \<open>AppState\<close>: the git server, the handlers and routers, and \<^verbatim>\<open>App::new\<close> with the settings of
    the HTTP clients.
  \<^item> \<open>Addresses\<close>, \<open>FailureLog\<close>, \<open>Process\<close>: how addresses are printed, the JSON line of a failure
    (\<^verbatim>\<open>failure_log.rs\<close>), and the process from its environment to the three servers (\<^verbatim>\<open>main.rs\<close>, \<^verbatim>\<open>App::serve\<close>).

  The state of the program is the record \<open>store\<close> (\<^verbatim>\<open>CacheStore\<close>) inside \<open>app\<close> (with the counters) inside
  \<open>system\<close> (with the epochs of \<^verbatim>\<open>Notify\<close> and the memory that bodies hold); \<open>process\<close> is what \<^verbatim>\<open>main\<close> works on
  before there is an application.  What is fixed is the record \<open>env\<close>.

  \<^bold>\<open>What is a parameter.\<close>  Crates outside the repository are parameters, and what is relied on is a named
  hypothesis: the URL parser (\<open>url_lib\<close>), \<^verbatim>\<open>serde_json\<close> (\<open>json_lib\<close>, \<open>meta_codec\<close> with \<open>codec_round_trip\<close>), the
  digest (\<open>download_isolated\<close> relies on 64 hexadecimal digits), the crate \<^verbatim>\<open>http\<close> (\<open>http_lib\<close>), the network, \<^verbatim>\<open>to_bytes\<close>
  (\<open>limits_body\<close>), the router of \<^verbatim>\<open>axum\<close> (which may choose any handler of its table), the builder of the
  clients, and what \<^verbatim>\<open>bind\<close> and \<^verbatim>\<open>axum::serve\<close> answer.  The regular expression of \<^verbatim>\<open>href_regex\<close> is in the
  source, so its matcher is written out.  Confinement (\<open>upstream_urls_confined\<close>) holds whatever the URL parser answers.

  \<^bold>\<open>What the lemmas show.\<close>
  \<^item> Confinement: upstream URLs, redirects, git requests and all requests of the handlers stay on the
    configured registries; requests share a cache entry only for the same content.
  \<^item> Files: a reader sees an entry before or after a publication and never in between, an open entry keeps
    its bytes, a file that is not an entry is a miss and nothing else is, eviction reaches the bound and spares pins and newer entries,
    startup refuses foreign directories and removes only stale names.
  \<^item> Concurrency: the tasks refine the abstract machine; from it, one fetch per key, no lost permit, no
    waiter without someone to wake it, runs that end, and an answer for each request.  No run of the other
    tasks changes a file that is open or being downloaded.
  \<^item> Startup: the process serves only from a valid configuration and the initial state of that machine, and
    otherwise logs one line and leaves nothing behind.
  \<^item> Resources and errors: memory and upstream permits are conserved by every handler and in every run of the
    jobs, whoever holds them and wherever it is cancelled; reference counts of publications are the numbers of their owners and no pin is leaked; failed
    fetches leave no file behind; every error is turned into the documented response.
  \<^item> Cancellation: a fetch that is dropped at any await point ends its flight and gives back its memory, its
    publication and its temp file.
  \<^item> Data: round trips of the entry format, of stored metadata, and of git paths; the document rewriters equal a
    reference that builds the text at once, or fail at the limit.

  Interfaces are locales, each interpreted on the model: \<open>path_normaliser\<close>, \<open>upstream_builder\<close>, the permit
  pools of \<open>Cache\<close>, \<open>single_flight_program\<close>, which \<open>Flights\<close> discharges for its step relation, and \<open>bystander\<close>, the
  contract of a task that works on other names, for open files and for downloads.

  \<^bold>\<open>Bounds.\<close>  Machine integers keep their width; \<^verbatim>\<open>usize\<close> is 64 bits.  No fuel is used: loops are structural or
  come with a measure, and \<open>runs_terminate\<close> bounds the runs of the tasks.

  \<^bold>\<open>Granularity.\<close>  In \<open>Flights\<close> another task may run at every lock and between storing an outcome and waking the
  waiters; a whole fetch, and a critical section of the store, is one step, and the requests that do not use
  the table are no tasks.  The properties of \<open>Flights\<close> are about the table, which a fetch does not touch.  What such a
  fetch and such requests hold while others run, permits and memory, is the subject of \<open>Jobs\<close>, where they are
  jobs that advance from await point to await point: \<open>jobs_share_capacity\<close> carries the permits, the table and the
  wake-ups over to it, and \<open>memory_conserved\<close> is stated there.  For the files of a fetch, \<open>open_entry_stable\<close> and
  \<open>download_isolated\<close> say what the others can do to them between two of its operations, for any number of steps.
  The lemmas \<open>fetch_await_by_await\<close>, \<open>document_await_by_await\<close>, \<open>head_as_handled\<close>, \<open>search_as_handled\<close> and
  \<open>audit_as_handled\<close> check the points against the fetch, or the handler, as one step.
  A function is dropped before the operation it waits for, or the operation is finished by its thread before
  the guard's task runs (\<open>begun\<close>, \<open>begun_document\<close>); an eviction pass is one operation.  A pending write of a
  file that was dropped ends at any time, or fails (\<open>background_write\<close>).

  \<^bold>\<open>Not modelled.\<close>  The timeouts of the clients; the lines the handlers log; the module declarations of
  \<^verbatim>\<open>lib.rs\<close>; and the streaming of a body after its handler returned, beyond the bytes it yields and the memory it
  holds until it is delivered.  Artifact HEAD requests, searches and audits are jobs but not tasks of \<open>Flights\<close>, and
  reference counts of publications (\<open>publications_conserved\<close>) are proved for its runs, with a download as one step;
  \<open>dropped_fetch_leaves_nothing\<close> is about its points.
\<close>

end
